(* ===== verification/Prelude.thy ===== *)
theory Prelude
  imports "HOL-Library.Word"
begin

text \<open>
  The vocabulary every component shares: the C integer types at their widths, the faults
  that undefined memory accesses of the C code are turned into, the sum type in which a
  piece of C code that may fault returns, and generic facts on lists, words and prefix
  sums. Nothing here models code of the repository.
\<close>

section \<open>Integer types\<close>

text \<open>
  The target is LP64 Linux: \<open>size_t\<close>, \<open>ssize_t\<close>, \<open>loff_t\<close> and \<open>long\<close> have 64
  bits. One bit pattern serves the signed and the unsigned reading (\<open>sint\<close> and
  \<open>unat\<close>), as in C where \<open>*f_pos\<close> is handed to a \<open>size_t\<close> parameter.
\<close>

type_synonym byte = "8 word"
type_synonym u8 = "8 word"
type_synonym u32 = "32 word"
type_synonym s32 = "32 word"
type_synonym size_t = "64 word"
type_synonym ssize_t = "64 word"
type_synonym loff_t = "64 word"

text \<open>Addresses of heap blocks; a C pointer is \<open>None\<close> (\<open>NULL\<close>) or \<open>Some\<close> address.\<close>

type_synonym addr = nat

abbreviation newline :: byte where "newline \<equiv> 10"

abbreviation nul :: byte where "nul \<equiv> 0"

section \<open>Faults and the fault sum\<close>

text \<open>
  A step of the C code whose behaviour is undefined because of the memory it touches
  returns \<open>Inl\<close> of the kind of fault; any other step returns \<open>Inr\<close> of its result.
  Error codes such as \<open>-EFAULT\<close> are results, not faults.
\<close>

datatype fault = NullDeref | OutOfBounds | UseAfterFree | DoubleFree | Uninitialised | SignedOverflow

type_synonym 'a res = "fault + 'a"

named_theorems res_simps \<open>evaluation of the fault sum\<close>

definition bindR :: "'a res \<Rightarrow> ('a \<Rightarrow> 'b res) \<Rightarrow> 'b res" where
  "bindR m f = (case m of Inl e \<Rightarrow> Inl e | Inr x \<Rightarrow> f x)"

lemma bindR_Inl [simp, res_simps]: "bindR (Inl e) f = Inl e"
  by (simp add: bindR_def)

lemma bindR_Inr [simp, res_simps]: "bindR (Inr x) f = f x"
  by (simp add: bindR_def)

lemma bindR_eq_Inr: "bindR m f = Inr y \<longleftrightarrow> (\<exists>x. m = Inr x \<and> f x = Inr y)"
  by (cases m) simp_all

lemma bindR_assoc: "bindR (bindR m f) g = bindR m (\<lambda>x. bindR (f x) g)"
  by (cases m) simp_all

text \<open>The same over a computation that may also run out of fuel, which is \<open>None\<close>.\<close>

definition bindL :: "'a res option \<Rightarrow> ('a \<Rightarrow> 'b res option) \<Rightarrow> 'b res option" where
  "bindL m f =
     (case m of None \<Rightarrow> None | Some r \<Rightarrow> (case r of Inl e \<Rightarrow> Some (Inl e) | Inr x \<Rightarrow> f x))"

lemma bindL_simps [simp, res_simps]:
  "bindL None f = None" "bindL (Some (Inl e)) f = Some (Inl e)" "bindL (Some (Inr x)) f = f x"
  by (simp_all add: bindL_def)

lemma bindL_eq_Some_Inr:
  "bindL m f = Some (Inr y) \<longleftrightarrow> (\<exists>x. m = Some (Inr x) \<and> f x = Some (Inr y))"
  by (auto simp: bindL_def split: option.splits sum.splits)

lemma bindL_eq_Some:
  "bindL m f = Some r \<longleftrightarrow>
   (\<exists>e. m = Some (Inl e) \<and> r = Inl e) \<or> (\<exists>x. m = Some (Inr x) \<and> f x = Some r)"
  by (auto simp: bindL_def split: option.splits sum.splits)

section \<open>Lists\<close>

text \<open>The last \<open>n\<close> elements of a list.\<close>

definition keep_last :: "nat \<Rightarrow> 'a list \<Rightarrow> 'a list" where
  "keep_last n xs = drop (length xs - n) xs"

lemma keep_last_id [simp]: "length xs \<le> n \<Longrightarrow> keep_last n xs = xs"
  by (simp add: keep_last_def)

lemma length_keep_last [simp]: "length (keep_last n xs) = min n (length xs)"
  by (simp add: keep_last_def min_def)

lemma keep_last_snoc:
  "length xs \<le> n \<Longrightarrow> 0 < n \<Longrightarrow>
   keep_last n (xs @ [x]) = (if length xs = n then tl xs else xs) @ [x]"
  by (auto simp: keep_last_def drop_Suc)

lemma keep_last_snoc_last: "0 < n \<Longrightarrow> \<exists>ys. keep_last n (xs @ [x]) = ys @ [x]"
  by (cases n) (simp_all add: keep_last_def Suc_diff_le)

lemma keep_last_append: "keep_last n (keep_last n xs @ ys) = keep_last n (xs @ ys)"
proof (cases "length xs \<le> n")
  case False
  then show ?thesis
    by (cases "length ys \<le> n") (simp_all add: keep_last_def add.commute)
qed (simp add: keep_last_def)

lemma rotate_conv: "n < length xs \<Longrightarrow> rotate n xs = drop n xs @ take n xs"
  by (simp add: rotate_drop_take)

text \<open>Overwriting the oldest slot of a full ring and moving the start past it.\<close>

lemma rotate_update:
  assumes "i < length xs"
  shows "rotate (Suc i mod length xs) (xs[i := x]) = tl (rotate i xs) @ [x]"
proof -
  from assms obtain a y b where xs: "xs = a @ y # b" and i: "length a = i"
    by (metis id_take_nth_drop length_take min.absorb4)
  then have "xs[i := x] = a @ x # b" by auto
  moreover have "rotate i xs = y # b @ a"
    using xs i by (simp add: rotate_conv)
  moreover have "rotate (Suc i mod length xs) (a @ x # b) = b @ a @ [x]"
    using xs i by (cases b) (simp_all add: rotate_conv)
  ultimately show ?thesis by simp
qed

lemma hd_rotate: "i < length xs \<Longrightarrow> hd (rotate i xs) = xs ! i"
  by (simp add: rotate_conv hd_append hd_drop_conv_nth)

lemma map_nth_rotate:
  "map (\<lambda>i. xs ! ((k + i) mod length xs)) [0..<length xs] = rotate k xs"
  by (rule nth_equalityI) (simp_all add: nth_rotate)

section \<open>Words\<close>

lemma unat_add_fits:
  fixes a b :: "'a::len word"
  shows "unat a + unat b < 2 ^ LENGTH('a) \<Longrightarrow> unat (a + b) = unat a + unat b"
  by (rule unat_add_lem [THEN iffD1])

lemma unat_sub_fits:
  fixes a b :: "'a::len word"
  shows "unat b \<le> unat a \<Longrightarrow> unat (a - b) = unat a - unat b"
  by (rule unat_sub) (simp only: word_le_nat_alt)

lemma unat_sum_list_fits:
  fixes ws :: "'a::len word list"
  shows "sum_list (map unat ws) < 2 ^ LENGTH('a) \<Longrightarrow> unat (sum_list ws) = sum_list (map unat ws)"
proof (induction ws)
  case (Cons w ws)
  have "unat (sum_list ws) = sum_list (map unat ws)"
    by (rule Cons.IH, rule le_less_trans [OF _ Cons.prems]) simp
  with Cons.prems show ?case
    unfolding sum_list.Cons list.map by (metis unat_add_fits)
qed simp

lemma unat_of_nat_fits: "n < 2 ^ LENGTH('a) \<Longrightarrow> unat (of_nat n :: 'a::len word) = n"
  by (simp only: unat_of_nat mod_less)

lemma of_nat_sum_unat:
  fixes ws :: "'a::len word list"
  shows "of_nat (sum_list (map unat ws)) = sum_list ws"
  by (induction ws) simp_all

lemma of_nat_unat64: "of_nat (unat (w :: 64 word)) = w"
  by simp

lemma sint_of_nat_fits: "n < 2 ^ 63 \<Longrightarrow> sint (of_nat n :: 64 word) = int n"
  by (simp add: sint_uint unsigned_of_nat signed_take_bit_int_eq_self take_bit_nat_eq_self)

lemma sint_of_int_fits: "- (2 ^ 31) \<le> p \<Longrightarrow> p < 2 ^ 31 \<Longrightarrow> sint (of_int p :: 32 word) = p"
  by (simp add: signed_of_int signed_take_bit_int_eq_self)

lemma len64: "LENGTH(64) = 64"
  by simp

section \<open>Positions in a concatenation\<close>

text \<open>
  \<open>locate ls n\<close> finds the piece that holds position \<open>n\<close> when pieces of the lengths
  \<open>ls\<close> are laid end to end, and the position inside that piece.
\<close>

fun locate :: "nat list \<Rightarrow> nat \<Rightarrow> (nat \<times> nat) option" where
  "locate [] n = None"
| "locate (l # ls) n =
     (if n < l then Some (0, n) else map_option (\<lambda>(k, j). (Suc k, j)) (locate ls (n - l)))"

lemma locate_None_iff: "locate ls n = None \<longleftrightarrow> sum_list ls \<le> n"
proof (induction ls arbitrary: n)
  case (Cons l ls)
  show ?case
    by (cases "n < l") (simp_all add: Cons.IH le_diff_conv2 add.commute)
qed simp

lemma locate_SomeD:
  "locate ls n = Some (k, j) \<Longrightarrow> k < length ls \<and> j < ls ! k \<and> n = sum_list (take k ls) + j"
  by (induction ls arbitrary: n k) (fastforce split: if_splits)+

lemma locate_at:
  "k < length ls \<Longrightarrow> j < ls ! k \<Longrightarrow> locate ls (sum_list (take k ls) + j) = Some (k, j)"
proof (induction ls arbitrary: k)
  case Nil
  then show ?case by simp
next
  case (Cons l ls)
  then show ?case by (cases k) auto
qed

lemma locate_zeros [simp]: "locate (ls @ replicate m 0) n = locate ls n"
proof (induction ls arbitrary: n)
  case Nil
  show ?case by (induction m) auto
qed simp

lemma locate_concat:
  assumes "locate (map length xss) n = Some (k, j)"
  shows "concat xss ! n = xss ! k ! j" and "n < length (concat xss)"
    and "drop n (concat xss) = drop j (xss ! k) @ concat (drop (Suc k) xss)"
proof -
  have *: "concat xss ! n = xss ! k ! j \<and> n < length (concat xss) \<and>
      drop n (concat xss) = drop j (xss ! k) @ concat (drop (Suc k) xss)"
    using assms
  proof (induction xss arbitrary: n k)
    case (Cons xs xss)
    show ?case
    proof (cases "n < length xs")
      case False
      with Cons.prems obtain k' where k: "k = Suc k'"
        and l: "locate (map length xss) (n - length xs) = Some (k', j)"
        by auto
      with Cons.IH [OF l] False show ?thesis by (auto simp: nth_append)
    qed (use Cons.prems in \<open>auto simp: nth_append\<close>)
  qed simp
  show "concat xss ! n = xss ! k ! j" "n < length (concat xss)"
    "drop n (concat xss) = drop j (xss ! k) @ concat (drop (Suc k) xss)"
    using * by auto
qed

end
