(* ===== verification/CircularBuffer.thy ===== *)
theory CircularBuffer
  imports Prelude
begin

text \<open>
  The circular buffer of write commands: \<open>aesd-char-driver/aesd-circular-buffer.h\<close> and
  \<open>aesd-circular-buffer.c\<close>. The structs are records, the array \<open>entry\<close> is a list of
  \<open>AESDCHAR_MAX_WRITE_OPERATIONS_SUPPORTED\<close> entries, the \<open>uint8_t\<close> offsets and the
  \<open>size_t\<close> sizes keep their widths. The abstraction \<open>cb_list\<close> reads the buffer as the
  list of its entries, oldest first; every operation is shown to be the evident list
  operation on it. The interface the char driver relies on is the locale
  \<open>entry_log\<close>, interpreted on these definitions at the end.
\<close>

section \<open>Data\<close>

abbreviation AESDCHAR_MAX_WRITE_OPERATIONS_SUPPORTED :: nat where
  "AESDCHAR_MAX_WRITE_OPERATIONS_SUPPORTED \<equiv> 10"

record aesd_buffer_entry =
  buffptr :: "addr option"
  esize :: size_t

record aesd_circular_buffer =
  entry :: "aesd_buffer_entry list"
  in_offs :: u8
  out_offs :: u8
  full :: bool

text \<open>A slot after \<open>memset\<close> with zeros.\<close>

definition null_entry :: aesd_buffer_entry where
  "null_entry = \<lparr>buffptr = None, esize = 0\<rparr>"

section \<open>Operations\<close>

text \<open>\<open>aesd_circular_buffer_init\<close>: every byte of the struct is set to zero.\<close>

definition aesd_circular_buffer_init :: aesd_circular_buffer where
  "aesd_circular_buffer_init =
     \<lparr>entry = replicate AESDCHAR_MAX_WRITE_OPERATIONS_SUPPORTED null_entry,
      in_offs = 0, out_offs = 0, full = False\<rparr>"

text \<open>
  \<open>aesd_circular_buffer_add_entry\<close>: the new buffer and the pointer that was overwritten.
  The array access at \<open>in_offs\<close> is not reduced modulo the array size in the code, so an
  offset beyond the array is a fault.
\<close>

definition aesd_circular_buffer_add_entry ::
  "aesd_circular_buffer \<Rightarrow> aesd_buffer_entry \<Rightarrow> (aesd_circular_buffer \<times> addr option) res" where
  "aesd_circular_buffer_add_entry b add_entry =
     (if unat (in_offs b) < length (entry b) then
        let old = entry b ! unat (in_offs b);
            removed_buffptr = (if buffptr old \<noteq> None then buffptr old else None);
            b1 = b\<lparr>entry := (entry b)[unat (in_offs b) := add_entry],
                   in_offs := in_offs b + 1\<rparr>;
            b2 = (if in_offs b1 = of_nat AESDCHAR_MAX_WRITE_OPERATIONS_SUPPORTED
                  then b1\<lparr>in_offs := 0, full := True\<rparr> else b1);
            b3 = (if full b2 then b2\<lparr>out_offs := in_offs b2\<rparr> else b2)
        in Inr (b3, removed_buffptr)
      else Inl OutOfBounds)"

text \<open>
  The loop of \<open>aesd_circular_buffer_find_entry_offset_for_fpos\<close>, over the values that its
  counter \<open>i\<close> has still to take, with the accumulator \<open>acc_length\<close>. The result is the
  slot the returned pointer points to and the value stored in
  \<open>*entry_offset_byte_rtn\<close>; \<open>None\<close> is the \<open>NULL\<close> return.
\<close>

fun find_loop ::
  "aesd_circular_buffer \<Rightarrow> size_t \<Rightarrow> size_t \<Rightarrow> nat list \<Rightarrow> (nat \<times> size_t) option" where
  "find_loop b char_offset acc_length [] = None"
| "find_loop b char_offset acc_length (i # is) =
     (let current_pos = (unat (out_offs b) + i) mod AESDCHAR_MAX_WRITE_OPERATIONS_SUPPORTED;
          sz = esize (entry b ! current_pos)
      in if char_offset < acc_length + sz then Some (current_pos, char_offset - acc_length)
         else find_loop b char_offset (acc_length + sz) is)"

definition aesd_circular_buffer_find_entry_offset_for_fpos ::
  "aesd_circular_buffer \<Rightarrow> size_t \<Rightarrow> (nat \<times> size_t) option" where
  "aesd_circular_buffer_find_entry_offset_for_fpos b char_offset =
     find_loop b char_offset 0 [0..<AESDCHAR_MAX_WRITE_OPERATIONS_SUPPORTED]"

text \<open>\<open>aesd_circular_buffer_size\<close>, with the accumulator \<open>buffer_size\<close>.\<close>

fun size_loop :: "aesd_circular_buffer \<Rightarrow> size_t \<Rightarrow> nat list \<Rightarrow> size_t" where
  "size_loop b buffer_size [] = buffer_size"
| "size_loop b buffer_size (i # is) =
     (let current_pos = (unat (out_offs b) + i) mod AESDCHAR_MAX_WRITE_OPERATIONS_SUPPORTED
      in size_loop b (buffer_size + esize (entry b ! current_pos)) is)"

definition aesd_circular_buffer_size :: "aesd_circular_buffer \<Rightarrow> size_t" where
  "aesd_circular_buffer_size b =
     size_loop b 0 [0..<AESDCHAR_MAX_WRITE_OPERATIONS_SUPPORTED]"

section \<open>Invariant and abstraction\<close>

definition cb_wf :: "aesd_circular_buffer \<Rightarrow> bool" where
  "cb_wf b \<longleftrightarrow>
     length (entry b) = AESDCHAR_MAX_WRITE_OPERATIONS_SUPPORTED \<and>
     unat (in_offs b) < AESDCHAR_MAX_WRITE_OPERATIONS_SUPPORTED \<and>
     (if full b then out_offs b = in_offs b
      else out_offs b = 0 \<and>
           (\<forall>e \<in> set (drop (unat (in_offs b)) (entry b)). e = null_entry))"

text \<open>The entries from the oldest to the newest, without the unused slots.\<close>

definition cb_list :: "aesd_circular_buffer \<Rightarrow> aesd_buffer_entry list" where
  "cb_list b = (if full b then rotate (unat (in_offs b)) (entry b)
                else take (unat (in_offs b)) (entry b))"

text \<open>All ten slots, in the order the loops visit them.\<close>

definition cb_slots :: "aesd_circular_buffer \<Rightarrow> aesd_buffer_entry list" where
  "cb_slots b = rotate (unat (out_offs b)) (entry b)"

definition cb_sizes :: "aesd_circular_buffer \<Rightarrow> nat list" where
  "cb_sizes b = map (\<lambda>e. unat (esize e)) (cb_list b)"

text \<open>No \<open>size_t\<close> sum over the entries wraps around.\<close>

definition cb_fits :: "aesd_circular_buffer \<Rightarrow> bool" where
  "cb_fits b \<longleftrightarrow> sum_list (cb_sizes b) < 2 ^ 64"

lemma length_cb_list:
  "cb_wf b \<Longrightarrow>
   length (cb_list b) = (if full b then AESDCHAR_MAX_WRITE_OPERATIONS_SUPPORTED else unat (in_offs b))"
  by (simp add: cb_list_def cb_wf_def)

lemma full_iff: "cb_wf b \<Longrightarrow> full b \<longleftrightarrow> length (cb_list b) = AESDCHAR_MAX_WRITE_OPERATIONS_SUPPORTED"
  by (auto simp: length_cb_list cb_wf_def)

lemma cb_list_bound: "cb_wf b \<Longrightarrow> length (cb_list b) \<le> AESDCHAR_MAX_WRITE_OPERATIONS_SUPPORTED"
  by (auto simp: length_cb_list cb_wf_def)

lemma cb_slots_eq:
  assumes "cb_wf b"
  shows "cb_slots b = cb_list b @
    replicate (AESDCHAR_MAX_WRITE_OPERATIONS_SUPPORTED - length (cb_list b)) null_entry"
proof (cases "full b")
  case True
  with assms show ?thesis
    by (simp add: length_cb_list) (simp add: cb_slots_def cb_list_def cb_wf_def)
next
  case False
  with assms have "drop (unat (in_offs b)) (entry b) =
      replicate (length (drop (unat (in_offs b)) (entry b))) null_entry"
    by (intro replicate_eqI) (simp_all add: cb_wf_def)
  with False assms show ?thesis
    by (simp add: length_cb_list)
      (simp add: cb_slots_def cb_list_def cb_wf_def, metis append_take_drop_id)
qed

lemma cb_slots_nth:
  "cb_wf b \<Longrightarrow> i < AESDCHAR_MAX_WRITE_OPERATIONS_SUPPORTED \<Longrightarrow>
   entry b ! ((unat (out_offs b) + i) mod AESDCHAR_MAX_WRITE_OPERATIONS_SUPPORTED) = cb_slots b ! i"
  by (simp add: cb_slots_def cb_wf_def nth_rotate)

lemma cb_list_nth:
  "cb_wf b \<Longrightarrow> i < length (cb_list b) \<Longrightarrow>
   entry b ! ((unat (out_offs b) + i) mod AESDCHAR_MAX_WRITE_OPERATIONS_SUPPORTED) = cb_list b ! i"
  using cb_list_bound [of b] by (simp add: cb_slots_nth cb_slots_eq nth_append)

lemma set_cb_list: "cb_wf b \<Longrightarrow> set (entry b) \<subseteq> insert null_entry (set (cb_list b))"
  using cb_slots_eq [of b] unfolding cb_slots_def
  by (metis set_rotate set_append set_replicate_conv_if Un_commute empty_subsetI
      insert_is_Un order_refl subset_insertI sup.idem sup_bot.left_neutral)

section \<open>Initialisation and insertion\<close>

lemma cb_init [simp]:
  "cb_wf aesd_circular_buffer_init" "cb_list aesd_circular_buffer_init = []"
  by (simp_all add: cb_wf_def cb_list_def aesd_circular_buffer_init_def)

lemma unat_suc_offs:
  fixes w :: u8
  assumes "unat w < 10"
  shows "unat (w + 1) = Suc (unat w)" and "w + 1 = 10 \<longleftrightarrow> unat w = 9"
proof -
  show *: "unat (w + 1) = Suc (unat w)"
    using assms by (subst unat_add_fits) simp_all
  show "w + 1 = 10 \<longleftrightarrow> unat w = 9"
    unfolding word_unat_eq_iff * by simp
qed

lemma drop_Suc_update: "set (drop (Suc i) (xs[i := x])) \<subseteq> set (drop i xs)"
  by (simp add: drop_update_cancel set_drop_subset_set_drop)

lemma add_entry_full:
  assumes wf: "cb_wf b" and f: "full b"
  obtains b' where
    "aesd_circular_buffer_add_entry b e = Inr (b', buffptr (hd (cb_list b)))"
    "cb_wf b'" "cb_list b' = tl (cb_list b) @ [e]"
proof -
  let ?i = "unat (in_offs b)"
  define w' :: u8 where "w' = (if ?i = 9 then 0 else in_offs b + 1)"
  define b' where "b' = b\<lparr>entry := (entry b)[?i := e], in_offs := w', out_offs := w'\<rparr>"
  have i: "?i < 10" and len: "length (entry b) = 10"
    using wf by (simp_all add: cb_wf_def)
  have w': "unat w' = Suc ?i mod 10"
    using i by (simp add: w'_def unat_suc_offs)
  have "aesd_circular_buffer_add_entry b e = Inr (b', buffptr (hd (cb_list b)))"
    using i len f
    by (simp add: aesd_circular_buffer_add_entry_def b'_def w'_def unat_suc_offs cb_list_def
      hd_rotate Let_def)
  moreover have "cb_wf b'"
    using len f w' by (simp add: cb_wf_def b'_def)
  moreover have "cb_list b' = tl (cb_list b) @ [e]"
    using rotate_update [of ?i "entry b" e] i len f w' by (simp add: cb_list_def b'_def)
  ultimately show ?thesis by (rule that)
qed

lemma add_entry_not_full:
  assumes wf: "cb_wf b" and f: "\<not> full b"
  obtains b' where "aesd_circular_buffer_add_entry b e = Inr (b', None)"
    "cb_wf b'" "cb_list b' = cb_list b @ [e]"
proof -
  let ?i = "unat (in_offs b)"
  define b' where "b' = (if ?i = 9
    then b\<lparr>entry := (entry b)[?i := e], in_offs := 0, out_offs := 0, full := True\<rparr>
    else b\<lparr>entry := (entry b)[?i := e], in_offs := in_offs b + 1\<rparr>)"
  have i: "?i < 10" and len: "length (entry b) = 10" and o: "out_offs b = 0"
    and z: "\<forall>e \<in> set (drop ?i (entry b)). e = null_entry"
    using wf f by (simp_all add: cb_wf_def)
  have "entry b ! ?i \<in> set (drop ?i (entry b))"
    using i len by (simp add: Cons_nth_drop_Suc [symmetric])
  then have "buffptr (entry b ! ?i) = None"
    using z by (auto simp: null_entry_def)
  then have "aesd_circular_buffer_add_entry b e = Inr (b', None)"
    using i len f
    by (simp add: aesd_circular_buffer_add_entry_def b'_def unat_suc_offs Let_def)
  moreover have "cb_wf b'"
    using i len f o z drop_Suc_update [of ?i "entry b" e]
    by (auto simp: cb_wf_def b'_def unat_suc_offs)
  moreover have "cb_list b' = cb_list b @ [e]"
    using i len f
    by (auto simp: cb_list_def b'_def unat_suc_offs take_Suc_conv_app_nth upd_conv_take_nth_drop)
  ultimately show ?thesis by (rule that)
qed

text \<open>Insertion on every branch, in terms of the abstract list.\<close>

lemma add_entry_ok:
  assumes "cb_wf b"
  shows "\<exists>b'. aesd_circular_buffer_add_entry b e =
      Inr (b', if length (cb_list b) = AESDCHAR_MAX_WRITE_OPERATIONS_SUPPORTED
               then buffptr (hd (cb_list b)) else None) \<and>
    cb_wf b' \<and>
    cb_list b' = keep_last AESDCHAR_MAX_WRITE_OPERATIONS_SUPPORTED (cb_list b @ [e])"
proof (cases "full b")
  case True
  obtain b' where b': "aesd_circular_buffer_add_entry b e = Inr (b', buffptr (hd (cb_list b)))"
    "cb_wf b'" "cb_list b' = tl (cb_list b) @ [e]"
    by (rule add_entry_full [OF assms True])
  have len: "length (cb_list b) = 10"
    using True assms by (simp add: length_cb_list)
  show ?thesis
    using b' len by (intro exI [of _ b']) (simp add: keep_last_snoc)
next
  case False
  obtain b' where b': "aesd_circular_buffer_add_entry b e = Inr (b', None)"
    "cb_wf b'" "cb_list b' = cb_list b @ [e]"
    by (rule add_entry_not_full [OF assms False])
  have len: "length (cb_list b) < 10"
    using False assms full_iff [of b] cb_list_bound [of b] by simp
  show ?thesis
    using b' len by (intro exI [of _ b']) simp
qed

section \<open>Total size\<close>

lemma size_loop_eq:
  "size_loop b acc is = acc +
    sum_list (map (\<lambda>i. esize (entry b ! ((unat (out_offs b) + i) mod 10))) is)"
  by (induction "is" arbitrary: acc) (simp_all add: Let_def add.assoc)

lemma cb_slots_map:
  assumes "cb_wf b"
  shows "map (\<lambda>i. f (entry b ! ((unat (out_offs b) + i) mod 10))) [0..<10] = map f (cb_slots b)"
proof (rule nth_equalityI)
  show "length (map (\<lambda>i. f (entry b ! ((unat (out_offs b) + i) mod 10))) [0..<10]) =
      length (map f (cb_slots b))"
    using assms by (simp add: cb_slots_def cb_wf_def del: upt_rec_numeral)
next
  fix i
  assume "i < length (map (\<lambda>i. f (entry b ! ((unat (out_offs b) + i) mod 10))) [0..<10])"
  then have i: "i < 10" by (simp del: upt_rec_numeral)
  moreover have "length (cb_slots b) = 10"
    using assms by (simp add: cb_slots_def cb_wf_def)
  ultimately show "map (\<lambda>i. f (entry b ! ((unat (out_offs b) + i) mod 10))) [0..<10] ! i =
      map f (cb_slots b) ! i"
    using cb_slots_nth [OF assms i] by (simp del: upt_rec_numeral)
qed

lemma cb_size_eq:
  assumes "cb_wf b"
  shows "aesd_circular_buffer_size b = sum_list (map esize (cb_list b))"
  unfolding aesd_circular_buffer_size_def size_loop_eq cb_slots_map [OF assms, of esize]
    cb_slots_eq [OF assms]
  by (simp add: sum_list_replicate null_entry_def)

lemma cb_sizes_unat: "cb_sizes b = map unat (map esize (cb_list b))"
  by (simp add: cb_sizes_def)

lemma unat_cb_size:
  assumes "cb_wf b" and "cb_fits b"
  shows "unat (aesd_circular_buffer_size b) = sum_list (cb_sizes b)"
  unfolding cb_size_eq [OF assms(1)] cb_sizes_unat
  by (rule unat_sum_list_fits) (use assms(2) in \<open>unfold cb_fits_def cb_sizes_unat len64\<close>)

section \<open>Lookup of a character offset\<close>

definition slot_pos :: "aesd_circular_buffer \<Rightarrow> nat \<Rightarrow> nat" where
  "slot_pos b i = (unat (out_offs b) + i) mod AESDCHAR_MAX_WRITE_OPERATIONS_SUPPORTED"

abbreviation slot_size :: "aesd_circular_buffer \<Rightarrow> nat \<Rightarrow> nat" where
  "slot_size b i \<equiv> unat (esize (entry b ! slot_pos b i))"

lemma find_loop_Cons:
  assumes le: "unat acc \<le> unat off" and fits: "unat acc + slot_size b i < 2 ^ LENGTH(64)"
  shows "find_loop b off acc (i # is) =
    (if unat off - unat acc < slot_size b i
     then Some (slot_pos b i, of_nat (unat off - unat acc))
     else find_loop b off (acc + esize (entry b ! slot_pos b i)) is)"
proof -
  have sum: "unat (acc + esize (entry b ! slot_pos b i)) = unat acc + slot_size b i"
    by (rule unat_add_fits [OF fits])
  have "off < acc + esize (entry b ! slot_pos b i) \<longleftrightarrow> unat off - unat acc < slot_size b i"
    unfolding word_less_nat_alt sum using le by linarith
  moreover have "off - acc = of_nat (unat off - unat acc)"
    using le by simp
  ultimately show ?thesis by (simp add: slot_pos_def Let_def)
qed

lemma find_loop_eq:
  assumes "unat acc \<le> unat off"
    and "unat acc + sum_list (map (slot_size b) is) < 2 ^ LENGTH(64)"
  shows "find_loop b off acc is =
    map_option (\<lambda>(k, j). (slot_pos b (is ! k), of_nat j))
      (locate (map (slot_size b) is) (unat off - unat acc))"
  using assms
proof (induction "is" arbitrary: acc)
  case Nil
  show ?case by simp
next
  case (Cons i "is")
  let ?sz = "slot_size b i" and ?acc' = "acc + esize (entry b ! slot_pos b i)"
  have fits: "unat acc + ?sz < 2 ^ LENGTH(64)"
    by (rule le_less_trans [OF _ Cons.prems(2)]) simp
  have acc': "unat ?acc' = unat acc + ?sz"
    by (rule unat_add_fits [OF fits])
  show ?case
  proof (cases "unat off - unat acc < ?sz")
    case True
    then show ?thesis
      by (simp only: find_loop_Cons [OF Cons.prems(1) fits]) simp
  next
    case False
    have "unat ?acc' \<le> unat off"
      unfolding acc' using False Cons.prems(1) by linarith
    moreover have "unat ?acc' + sum_list (map (slot_size b) is) < 2 ^ LENGTH(64)"
      unfolding acc' using Cons.prems(2) by (simp only: list.map sum_list.Cons add.assoc)
    ultimately have "find_loop b off ?acc' is =
        map_option (\<lambda>(k, j). (slot_pos b (is ! k), of_nat j))
          (locate (map (slot_size b) is) (unat off - unat ?acc'))"
      by (rule Cons.IH)
    then have IH: "find_loop b off ?acc' is =
        map_option (\<lambda>(k, j). (slot_pos b (is ! k), of_nat j))
          (locate (map (slot_size b) is) (unat off - unat acc - ?sz))"
      unfolding acc' by (simp only: diff_diff_left)
    show ?thesis
      using False
      by (simp only: find_loop_Cons [OF Cons.prems(1) fits] IH if_False)
        (simp add: option.map_comp o_def case_prod_beta')
  qed
qed

text \<open>The lookup is \<open>locate\<close> on the sizes of the stored entries.\<close>

lemma find_entry_eq:
  assumes wf: "cb_wf b" and fits: "cb_fits b"
  shows "aesd_circular_buffer_find_entry_offset_for_fpos b off =
    map_option (\<lambda>(k, j). (slot_pos b k, of_nat j)) (locate (cb_sizes b) (unat off))"
proof -
  let ?zs = "replicate (10 - length (cb_list b)) (0::nat)"
  have sizes: "map (slot_size b) [0..<10] = cb_sizes b @ ?zs"
    using cb_slots_map [OF wf, of "\<lambda>e. unat (esize e)"]
    unfolding slot_pos_def cb_slots_eq [OF wf] by (simp add: cb_sizes_def null_entry_def)
  have "unat (0::size_t) + sum_list (map (slot_size b) [0..<10]) < 2 ^ LENGTH(64)"
    using fits unfolding sizes cb_fits_def len64 by (simp add: sum_list_replicate)
  then have "aesd_circular_buffer_find_entry_offset_for_fpos b off =
      map_option (\<lambda>(k, j). (slot_pos b ([0..<10] ! k), of_nat j))
        (locate (cb_sizes b) (unat off))"
    unfolding aesd_circular_buffer_find_entry_offset_for_fpos_def
    by (subst find_loop_eq) (simp_all only: sizes locate_zeros unat_0 diff_zero le0)
  also have "\<dots> = map_option (\<lambda>(k, j). (slot_pos b k, of_nat j)) (locate (cb_sizes b) (unat off))"
    using cb_list_bound [OF wf]
    by (intro option.map_cong0)
      (auto simp: cb_sizes_def elim!: less_le_trans dest!: locate_SomeD simp del: upt_rec_numeral)
  finally show ?thesis .
qed

lemma entry_slot_pos:
  "cb_wf b \<Longrightarrow> k < length (cb_list b) \<Longrightarrow> entry b ! slot_pos b k = cb_list b ! k"
  by (simp add: slot_pos_def cb_list_nth)

section \<open>The interface the driver uses\<close>

text \<open>Inserting a list of entries one after the other, collecting the returned pointers.\<close>

primrec add_all ::
  "('b \<Rightarrow> 'e \<Rightarrow> ('b \<times> 'p) res) \<Rightarrow> 'b \<Rightarrow> 'e list \<Rightarrow> ('b \<times> 'p list) res" where
  "add_all add b [] = Inr (b, [])"
| "add_all add b (e # es) =
     bindR (add b e) (\<lambda>(b', p). bindR (add_all add b' es) (\<lambda>(b'', ps). Inr (b'', p # ps)))"

text \<open>
  A log of at most \<open>cap\<close> entries: insertion appends, drops the oldest entry of a full
  log and hands its pointer back, so that the caller can free it.
\<close>

locale entry_log =
  fixes inv :: "'b \<Rightarrow> bool" and log :: "'b \<Rightarrow> 'e list" and cap :: nat
    and add :: "'b \<Rightarrow> 'e \<Rightarrow> ('b \<times> addr option) res" and ptr :: "'e \<Rightarrow> addr option"
  assumes cap_pos: "0 < cap"
    and log_cap: "inv b \<Longrightarrow> length (log b) \<le> cap"
    and add_law: "inv b \<Longrightarrow> \<exists>b'. add b e =
        Inr (b', if length (log b) = cap then ptr (hd (log b)) else None) \<and>
      inv b' \<and> log b' = keep_last cap (log b @ [e])"
begin

lemma addE:
  assumes "inv b"
  obtains b' where "add b e = Inr (b', if length (log b) = cap then ptr (hd (log b)) else None)"
    "inv b'" "log b' = (if length (log b) = cap then tl (log b) else log b) @ [e]"
  using add_law [OF assms, of e] log_cap [OF assms] cap_pos by (auto simp: keep_last_snoc)

lemma add_all_law:
  assumes "inv b"
  shows "\<exists>b'. add_all add b es =
      Inr (b', replicate (min (length es) (cap - length (log b))) None @
        map ptr (take (length (log b) + length es - cap) (log b @ es))) \<and>
    inv b' \<and> log b' = keep_last cap (log b @ es)"
  using assms
proof (induction es arbitrary: b)
  case Nil
  then show ?case using log_cap [OF Nil] by simp
next
  case (Cons e es)
  obtain b' where b': "add b e = Inr (b', if length (log b) = cap then ptr (hd (log b)) else None)"
    "inv b'" "log b' = (if length (log b) = cap then tl (log b) else log b) @ [e]"
    by (rule addE [OF Cons.prems])
  obtain b'' where b'': "add_all add b' es =
      Inr (b'', replicate (min (length es) (cap - length (log b'))) None @
        map ptr (take (length (log b') + length es - cap) (log b' @ es)))"
    "inv b''" "log b'' = keep_last cap (log b' @ es)"
    using Cons.IH [OF b'(2)] by blast
  have le: "length (log b) \<le> cap" by (rule log_cap [OF Cons.prems])
  have last: "log b'' = keep_last cap (log b @ e # es)"
  proof -
    have "log b' = keep_last cap (log b @ [e])"
      using b'(3) le cap_pos by (simp add: keep_last_snoc)
    then show ?thesis
      using b''(3) keep_last_append [of cap "log b @ [e]" es] by simp
  qed
  show ?case
  proof (cases "length (log b) = cap")
    case True
    then obtain x xs where x: "log b = x # xs" using cap_pos by (cases "log b") auto
    with True b' b'' last show ?thesis by (auto simp: Suc_diff_le)
  next
    case False
    then have app: "log b' @ es = log b @ e # es"
      and len: "length (log b') + length es = length (log b) + length (e # es)"
      using b'(3) by simp_all
    have nones: "replicate (min (length (e # es)) (cap - length (log b))) None =
        None # replicate (min (length es) (cap - length (log b'))) None"
      using False le b'(3) by (cases "cap - length (log b)") auto
    show ?thesis
      unfolding nones using False b'(1) b'' last by (auto simp: app len simp del: take_append)
  qed
qed

end

text \<open>
  A log that is also read by character offset: \<open>find\<close> locates an offset of the
  concatenation of the entries, \<open>total\<close> is the length of that concatenation.
\<close>

locale indexed_log = entry_log +
  fixes len :: "'b \<Rightarrow> nat" and fits :: "'a \<Rightarrow> bool"
    and find :: "'a \<Rightarrow> size_t \<Rightarrow> (nat \<times> size_t) option"
    and get :: "'a \<Rightarrow> nat \<Rightarrow> 'b" and total :: "'a \<Rightarrow> size_t"
  assumes find_law: "inv b \<Longrightarrow> fits b \<Longrightarrow>
      (case locate (map len (log b)) (unat off) of
         None \<Rightarrow> find b off = None
       | Some (k, j) \<Rightarrow> \<exists>i. find b off = Some (i, of_nat j) \<and> get b i = log b ! k)"
    and total_law: "inv b \<Longrightarrow> fits b \<Longrightarrow> unat (total b) = sum_list (map len (log b))"
begin

lemma find_NoneD: "inv b \<Longrightarrow> fits b \<Longrightarrow> find b off = None \<Longrightarrow> unat (total b) \<le> unat off"
  using find_law [of b off]
  by (auto simp: total_law locate_None_iff [symmetric] split: option.splits)

lemma find_past_end: "inv b \<Longrightarrow> fits b \<Longrightarrow> unat (total b) \<le> unat off \<Longrightarrow> find b off = None"
  using find_law [of b off]
  by (auto simp: total_law locate_None_iff [symmetric] split: option.splits)

lemma findE:
  assumes "inv b" and "fits b" and "unat off < unat (total b)"
  obtains i k j where "find b off = Some (i, of_nat j)" "get b i = log b ! k"
    "locate (map len (log b)) (unat off) = Some (k, j)" "k < length (log b)" "j < len (log b ! k)"
proof -
  obtain k j where l: "locate (map len (log b)) (unat off) = Some (k, j)"
    using assms by (cases "locate (map len (log b)) (unat off)") (auto simp: locate_None_iff total_law)
  with find_law [OF assms(1,2), of off] locate_SomeD [OF l] show ?thesis
    using that by auto
qed

end

interpretation cb: indexed_log cb_wf cb_list AESDCHAR_MAX_WRITE_OPERATIONS_SUPPORTED
  aesd_circular_buffer_add_entry buffptr "\<lambda>e. unat (esize e)" cb_fits
  aesd_circular_buffer_find_entry_offset_for_fpos "\<lambda>b i. entry b ! i" aesd_circular_buffer_size
proof unfold_locales
  show "cb_wf b \<Longrightarrow> cb_fits b \<Longrightarrow>
      (case locate (map (\<lambda>e. unat (esize e)) (cb_list b)) (unat off) of
        None \<Rightarrow> aesd_circular_buffer_find_entry_offset_for_fpos b off = None
      | Some (k, j) \<Rightarrow> \<exists>i. aesd_circular_buffer_find_entry_offset_for_fpos b off = Some (i, of_nat j) \<and>
          entry b ! i = cb_list b ! k)" for b off
    by (auto simp: find_entry_eq cb_sizes_def entry_slot_pos dest!: locate_SomeD split: option.splits)
qed (simp_all add: cb_list_bound add_entry_ok unat_cb_size cb_sizes_def)

section \<open>Properties\<close>

text \<open>
  C13: \<open>aesd_circular_buffer_add_entry\<close> refines the bounded list. On a well-formed buffer it
  never faults, it appends the entry and keeps the ten newest ones in order, it preserves
  the invariant of the offsets and the flag \<open>full\<close>, and it returns the pointer of the entry
  it dropped, or \<open>NULL\<close> when the buffer was not full.
\<close>

theorem add_entry_refines:
  assumes "cb_wf b"
  shows "\<exists>b'. aesd_circular_buffer_add_entry b e =
      Inr (b', if length (cb_list b) = AESDCHAR_MAX_WRITE_OPERATIONS_SUPPORTED
               then buffptr (hd (cb_list b)) else None) \<and>
    cb_wf b' \<and>
    cb_list b' = keep_last AESDCHAR_MAX_WRITE_OPERATIONS_SUPPORTED (cb_list b @ [e])"
  by (rule cb.add_law [OF assms])

definition ring_example :: aesd_circular_buffer where
  "ring_example = \<lparr>entry = map (\<lambda>i. \<lparr>buffptr = Some i, esize = of_nat (i + 1)\<rparr>) [0..<10],
     in_offs = 3, out_offs = 3, full = True\<rparr>"

lemma ring_example_wf: "cb_wf ring_example"
  by (simp add: cb_wf_def ring_example_def)

lemma ring_example_sum: "sum_list (cb_sizes ring_example) = 55"
  by code_simp

theorem add_entry_refines_witness:
  "\<exists>b'. aesd_circular_buffer_add_entry ring_example null_entry = Inr (b', Some 3) \<and> cb_wf b' \<and>
     map buffptr (cb_list b') = map Some [4, 5, 6, 7, 8, 9, 0, 1, 2] @ [None]"
proof -
  have "length (cb_list ring_example) = 10" and "buffptr (hd (cb_list ring_example)) = Some 3"
    and "map buffptr (keep_last 10 (cb_list ring_example @ [null_entry])) =
      map Some [4, 5, 6, 7, 8, 9, 0, 1, 2] @ [None]"
    by code_simp+
  with add_entry_refines [OF ring_example_wf, of null_entry] show ?thesis by auto
qed

text \<open>
  Filling an initialised buffer with any list of entries leaves exactly the last ten in
  order, and the pointers handed back for freeing are those of all the others, oldest
  first, each once; the first ten insertions hand back \<open>NULL\<close>.
\<close>

theorem buffer_fifo:
  "\<exists>b'. add_all aesd_circular_buffer_add_entry aesd_circular_buffer_init es =
      Inr (b', replicate (min (length es) AESDCHAR_MAX_WRITE_OPERATIONS_SUPPORTED) None @
        map buffptr (take (length es - AESDCHAR_MAX_WRITE_OPERATIONS_SUPPORTED) es)) \<and>
    cb_wf b' \<and> cb_list b' = keep_last AESDCHAR_MAX_WRITE_OPERATIONS_SUPPORTED es"
  using cb.add_all_law [OF cb_init(1), of es] by simp

text \<open>
  C15: \<open>aesd_circular_buffer_find_entry_offset_for_fpos\<close> computes the position its comment
  describes. \<open>NULL\<close> is returned exactly when the offset is not below the total number of
  bytes; otherwise the returned slot holds the \<open>k\<close>-th oldest entry, the stored byte offset
  lies inside that entry, and the sizes of the older entries plus that offset add up to the
  offset asked for.
\<close>

theorem find_entry_char:
  assumes "cb_wf b" and "cb_fits b"
  shows "case aesd_circular_buffer_find_entry_offset_for_fpos b off of
      None \<Rightarrow> sum_list (cb_sizes b) \<le> unat off
    | Some (pos, byte_rtn) \<Rightarrow>
        (\<exists>k < length (cb_list b). entry b ! pos = cb_list b ! k \<and> pos < length (entry b) \<and>
          unat byte_rtn < cb_sizes b ! k \<and>
          unat off = sum_list (take k (cb_sizes b)) + unat byte_rtn)"
proof (cases "locate (cb_sizes b) (unat off)")
  case None
  then have "sum_list (cb_sizes b) \<le> unat off" by (simp only: locate_None_iff)
  with None assms show ?thesis by (simp add: find_entry_eq)
next
  case (Some kj)
  obtain k j where kj: "locate (cb_sizes b) (unat off) = Some (k, j)"
    using Some by (cases kj) simp
  then have k: "k < length (cb_list b)" "j < cb_sizes b ! k"
    "unat off = sum_list (take k (cb_sizes b)) + j"
    by (auto dest!: locate_SomeD simp: cb_sizes_def)
  from k(3) have "j \<le> unat off" by simp
  also have "\<dots> < 2 ^ LENGTH(64)" by (rule unsigned_less)
  finally have "j < 2 ^ LENGTH(64)" .
  then have "unat (of_nat j :: size_t) = j" by (rule unat_of_nat_fits)
  moreover have "slot_pos b k < length (entry b)"
    using assms by (simp add: slot_pos_def cb_wf_def)
  moreover have "aesd_circular_buffer_find_entry_offset_for_fpos b off =
      Some (slot_pos b k, of_nat j)"
    by (simp only: find_entry_eq [OF assms] kj option.map prod.case)
  ultimately show ?thesis
    using k entry_slot_pos [OF assms(1) k(1)] by (auto intro!: exI [of _ k])
qed

theorem find_entry_char_witness:
  "cb_wf ring_example \<and> cb_fits ring_example \<and>
   (case aesd_circular_buffer_find_entry_offset_for_fpos ring_example 10 of
      None \<Rightarrow> False
    | Some (pos, byte_rtn) \<Rightarrow> pos = 5 \<and> byte_rtn = 1 \<and>
        (\<exists>k < length (cb_list ring_example). entry ring_example ! pos = cb_list ring_example ! k))"
proof -
  have fits: "cb_fits ring_example"
    using ring_example_sum by (simp add: cb_fits_def)
  have "aesd_circular_buffer_find_entry_offset_for_fpos ring_example 10 = Some (5, 1)"
    by code_simp
  with find_entry_char [OF ring_example_wf fits, of 10] fits show ?thesis
    by (auto simp: ring_example_wf)
qed

text \<open>
  \<open>aesd_circular_buffer_size\<close> is the number of bytes the stored entries have together, as
  long as that number is below \<open>2 ^ 64\<close>.
\<close>

theorem buffer_size_total:
  assumes "cb_wf b" and "cb_fits b"
  shows "unat (aesd_circular_buffer_size b) = sum_list (cb_sizes b)"
  using cb.total_law [OF assms] by (simp add: cb_sizes_def)

theorem buffer_size_total_witness:
  "unat (aesd_circular_buffer_size ring_example) = 55"
proof -
  have "cb_fits ring_example"
    using ring_example_sum by (simp add: cb_fits_def)
  then show ?thesis
    using buffer_size_total [OF ring_example_wf] ring_example_sum by simp
qed

end
