(* ===== verification/Memory.thy ===== *)
theory Memory
  imports Prelude
begin

text \<open>
  Dynamic memory as the C code sees it. A heap maps the addresses of live blocks to their
  bytes; a pointer the code keeps is \<open>NULL\<close> or the start of a block, and an access names
  the pointer, an offset and a length. Reading, writing and freeing check what C leaves
  undefined: a null pointer, a block that is not live, bytes outside the block. The fresh
  block an allocation returns holds whatever bytes its allocator says (\<open>malloc\<close> and
  \<open>kmalloc\<close> do not clear memory), so facts proved here hold for every initial content.
\<close>

type_synonym heap = "addr \<rightharpoonup> byte list"

definition splice :: "nat \<Rightarrow> 'a list \<Rightarrow> 'a list \<Rightarrow> 'a list" where
  "splice i ys xs = take i xs @ ys @ drop (i + length ys) xs"

definition load :: "heap \<Rightarrow> addr option \<Rightarrow> nat \<Rightarrow> nat \<Rightarrow> byte list res" where
  "load h p off n =
     (case p of None \<Rightarrow> Inl NullDeref
      | Some a \<Rightarrow>
          (case h a of None \<Rightarrow> Inl UseAfterFree
           | Some blk \<Rightarrow>
               if off + n \<le> length blk then Inr (take n (drop off blk)) else Inl OutOfBounds))"

text \<open>The array a pointer to the start of a block points to.\<close>

definition block_at :: "heap \<Rightarrow> addr option \<Rightarrow> byte list res" where
  "block_at h p =
     (case p of None \<Rightarrow> Inl NullDeref
      | Some a \<Rightarrow> (case h a of None \<Rightarrow> Inl UseAfterFree | Some blk \<Rightarrow> Inr blk))"

definition store :: "heap \<Rightarrow> addr option \<Rightarrow> nat \<Rightarrow> byte list \<Rightarrow> heap res" where
  "store h p off bs =
     (case p of None \<Rightarrow> Inl NullDeref
      | Some a \<Rightarrow>
          (case h a of None \<Rightarrow> Inl UseAfterFree
           | Some blk \<Rightarrow>
               if off + length bs \<le> length blk then Inr (h(a \<mapsto> splice off bs blk))
               else Inl OutOfBounds))"

text \<open>Freeing: \<open>free(NULL)\<close> and \<open>kfree(NULL)\<close> do nothing.\<close>

definition free_block :: "heap \<Rightarrow> addr option \<Rightarrow> heap res" where
  "free_block h p =
     (case p of None \<Rightarrow> Inr h
      | Some a \<Rightarrow> (case h a of None \<Rightarrow> Inl DoubleFree | Some _ \<Rightarrow> Inr (h(a := None))))"

lemma length_splice [simp]:
  "i + length ys \<le> length xs \<Longrightarrow> length (splice i ys xs) = length xs"
  by (simp add: splice_def)

lemma take_splice:
  "n \<le> i \<Longrightarrow> i + length ys \<le> length xs \<Longrightarrow> take n (splice i ys xs) = take n xs"
  by (simp add: splice_def min_def)

lemma splice_append: "length a = i \<Longrightarrow> length m = length ys \<Longrightarrow> splice i ys (a @ m @ b) = a @ ys @ b"
  by (simp add: splice_def)

lemma load_ok [res_simps]:
  "h a = Some blk \<Longrightarrow> off + n \<le> length blk \<Longrightarrow> load h (Some a) off n = Inr (take n (drop off blk))"
  by (simp add: load_def)

lemma store_ok [res_simps]:
  "h a = Some blk \<Longrightarrow> off + length bs \<le> length blk \<Longrightarrow>
   store h (Some a) off bs = Inr (h(a \<mapsto> splice off bs blk))"
  by (simp add: store_def)

lemma load_out_of_bounds [res_simps]:
  "h a = Some blk \<Longrightarrow> length blk < off + n \<Longrightarrow> load h (Some a) off n = Inl OutOfBounds"
  by (simp add: load_def)

lemma store_out_of_bounds [res_simps]:
  "h a = Some blk \<Longrightarrow> length blk < off + length bs \<Longrightarrow> store h (Some a) off bs = Inl OutOfBounds"
  by (simp add: store_def)

lemma free_None [simp, res_simps]: "free_block h None = Inr h"
  by (simp add: free_block_def)

lemma free_ok [res_simps]: "h a \<noteq> None \<Longrightarrow> free_block h (Some a) = Inr (h(a := None))"
  by (auto simp: free_block_def)

text \<open>A block that was not there and has been freed again.\<close>

lemma free_fresh [simp]: "h a = None \<Longrightarrow> h(a := None) = h"
  by (rule fun_upd_idem)

lemma store_InrE:
  assumes "store h p off bs = Inr h'"
  obtains a blk blk' where "p = Some a" "h a = Some blk" "h' = h(a \<mapsto> blk')"
    "length blk' = length blk"
proof (cases p)
  case (Some a)
  with assms obtain blk where "h a = Some blk" "off + length bs \<le> length blk"
    "h' = h(a \<mapsto> splice off bs blk)"
    by (auto simp: store_def split: option.splits if_splits)
  with Some show ?thesis by (intro that [of a blk "splice off bs blk"]) simp_all
qed (use assms in \<open>simp add: store_def\<close>)

text \<open>What was stored is what is loaded.\<close>

lemma load_store_same:
  "store h p off bs = Inr h' \<Longrightarrow> load h' p off (length bs) = Inr bs"
  by (auto simp: store_def load_def splice_def split: option.splits if_splits)

lemma load_store_other:
  "store h (Some a) off bs = Inr h' \<Longrightarrow> p \<noteq> Some a \<Longrightarrow> load h' p i n = load h p i n"
  by (auto simp: store_def load_def split: option.splits if_splits)

end
