(* ===== verification/CharDriver.thy ===== *)
theory CharDriver
  imports CircularBuffer Memory
begin

text \<open>
  The character device of \<open>aesd-char-driver/main.c\<close> and \<open>aesdchar.h\<close>: the device state, the
  kernel services the file operations call, and the file operations.
\<close>

section \<open>Kernel services\<close>

text \<open>
  The kernel is not part of the repository: what one call of a file operation gets from it
  is a value of this record, an argument of the operation. \<open>mutex_lock_interruptible\<close> is
  the value that function returns (non-zero when the wait was interrupted); \<open>kmalloc\<close>
  gives, for a heap and a size, \<open>NULL\<close> or the address and the initial content of a block;
  \<open>copy_from_user\<close> and \<open>copy_to_user\<close> give the bytes that reached the destination and the
  number of bytes that could not be copied; \<open>copy_seekto\<close> is the same for a
  \<open>struct aesd_seekto\<close>; \<open>fixed_size_llseek\<close> maps the file position, the offset, \<open>whence\<close>
  and the size to its return value and the new file position.
\<close>

record aesd_seekto =
  write_cmd :: u32
  write_cmd_offset :: u32

record kenv =
  mutex_lock_interruptible :: s32
  kmalloc :: "heap \<Rightarrow> size_t \<Rightarrow> (addr \<times> byte list) option"
  copy_from_user :: "byte list \<Rightarrow> byte list \<times> size_t"
  copy_to_user :: "byte list \<Rightarrow> byte list \<times> size_t"
  copy_seekto :: "aesd_seekto \<Rightarrow> aesd_seekto \<times> size_t"
  fixed_size_llseek :: "loff_t \<Rightarrow> loff_t \<Rightarrow> s32 \<Rightarrow> loff_t \<Rightarrow> loff_t \<times> loff_t"

text \<open>
  The documented behaviour the driver relies on: an allocated block is fresh and has the
  size asked for; when no byte is reported missing the copy is complete, and a copy never
  writes more than was asked for.
\<close>

definition kenv_ok :: "kenv \<Rightarrow> bool" where
  "kenv_ok e \<longleftrightarrow>
     (\<forall>h n a blk. kmalloc e h n = Some (a, blk) \<longrightarrow> h a = None \<and> length blk = unat n) \<and>
     (\<forall>bs. length (fst (copy_from_user e bs)) = length bs) \<and>
     (\<forall>bs. snd (copy_from_user e bs) = 0 \<longrightarrow> fst (copy_from_user e bs) = bs) \<and>
     (\<forall>bs. snd (copy_to_user e bs) = 0 \<longrightarrow> fst (copy_to_user e bs) = bs)"

abbreviation EFAULT :: ssize_t where "EFAULT \<equiv> 14"
abbreviation ENOMEM :: ssize_t where "ENOMEM \<equiv> 12"
abbreviation EINVAL :: ssize_t where "EINVAL \<equiv> 22"
abbreviation ENOTTY :: ssize_t where "ENOTTY \<equiv> 25"
abbreviation ERESTARTSYS :: ssize_t where "ERESTARTSYS \<equiv> 512"

section \<open>Device state\<close>

text \<open>
  \<open>buffer\<close> is \<open>NULL\<close> or the struct that was allocated for it; \<open>lock\<close> says whether the mutex
  is held. An open file keeps its position and whether \<open>private_data\<close> points to the device.
\<close>

record aesd_dev =
  buffer :: "aesd_circular_buffer option"
  wip_entry :: aesd_buffer_entry
  lock :: bool

record drv =
  heap :: heap
  aesd_device :: aesd_dev

record open_file =
  f_pos :: loff_t
  private_data :: bool

definition set_lock :: "bool \<Rightarrow> drv \<Rightarrow> drv" where
  "set_lock l s = s\<lparr>aesd_device := (aesd_device s)\<lparr>lock := l\<rparr>\<rparr>"

section \<open>File operations\<close>

definition aesd_open :: "open_file \<Rightarrow> open_file \<times> s32" where
  "aesd_open filp = (filp\<lparr>private_data := True\<rparr>, 0)"

definition aesd_release :: "open_file \<Rightarrow> open_file \<times> s32" where
  "aesd_release filp = (filp, 0)"

text \<open>
  \<open>aesd_read\<close>: the driver state, the new \<open>*f_pos\<close>, the return value and the bytes that
  reached the user's buffer.
\<close>

definition aesd_read ::
  "kenv \<Rightarrow> drv \<Rightarrow> open_file \<Rightarrow> size_t \<Rightarrow> loff_t \<Rightarrow> (drv \<times> loff_t \<times> ssize_t \<times> byte list) res" where
  "aesd_read e s filp count pos =
     (if \<not> private_data filp then Inl NullDeref
      else if mutex_lock_interruptible e \<noteq> 0 then Inr (s, pos, - ERESTARTSYS, [])
      else
        let s = set_lock True s in
        case buffer (aesd_device s) of
          None \<Rightarrow> Inl NullDeref
        | Some b \<Rightarrow>
            (case aesd_circular_buffer_find_entry_offset_for_fpos b pos of
               None \<Rightarrow> Inr (set_lock False s, pos, 0, [])
             | Some (i, entry_pos) \<Rightarrow>
                 let en = entry b ! i;
                     count = (if esize en - entry_pos < count then esize en - entry_pos else count)
                 in bindR (load (heap s) (buffptr en) (unat entry_pos) (unat count)) (\<lambda>bs.
                    let (ubuf, left) = copy_to_user e bs in
                    if left \<noteq> 0 then Inr (set_lock False s, pos, - EFAULT, ubuf)
                    else Inr (set_lock False s, pos + count, count, ubuf))))"

text \<open>
  The tail of \<open>aesd_write\<close> that moves a finished working entry into the buffer: the last
  byte is read through the pointer, so a working entry of size 0 reads before its block.
\<close>

definition flush_wip ::
  "heap \<Rightarrow> aesd_circular_buffer option \<Rightarrow> aesd_buffer_entry \<Rightarrow>
   (heap \<times> aesd_circular_buffer option \<times> aesd_buffer_entry) res" where
  "flush_wip h buf wip =
     bindR (load h (buffptr wip) (unat (esize wip - 1)) 1) (\<lambda>last.
     if last = [newline] then
       (case buf of
          None \<Rightarrow> Inl NullDeref
        | Some b \<Rightarrow>
            bindR (aesd_circular_buffer_add_entry b wip) (\<lambda>(b', oldbuf).
            bindR (free_block h oldbuf) (\<lambda>h'.
            Inr (h', Some b', \<lparr>buffptr = None, esize = 0\<rparr>))))
     else Inr (h, buf, wip))"

text \<open>
  The writes of \<open>aesd_write\<close> into the block it has just allocated: the terminator, the bytes
  of the old working entry, and the \<open>bs\<close> that \<open>copy_from_user\<close> delivers behind them.
\<close>

definition fill_block ::
  "heap \<Rightarrow> addr \<Rightarrow> aesd_buffer_entry \<Rightarrow> size_t \<Rightarrow> byte list \<Rightarrow> heap res" where
  "fill_block h bptr wip count bs =
     bindR (store h (Some bptr) (unat (esize wip + count)) [nul]) (\<lambda>h1.
     bindR (if buffptr wip \<noteq> None
            then bindR (load h1 (buffptr wip) 0 (unat (esize wip))) (\<lambda>old.
                 store h1 (Some bptr) 0 old)
            else Inr h1) (\<lambda>h2.
     store h2 (Some bptr) (unat (esize wip)) bs))"

text \<open>
  \<open>aesd_write\<close>: the driver state, the new \<open>*f_pos\<close> and the return value. \<open>buf\<close> stands for
  the \<open>count\<close> bytes in the user's buffer.
\<close>

definition aesd_write ::
  "kenv \<Rightarrow> drv \<Rightarrow> open_file \<Rightarrow> byte list \<Rightarrow> size_t \<Rightarrow> loff_t \<Rightarrow> (drv \<times> loff_t \<times> ssize_t) res" where
  "aesd_write e s filp buf count pos =
     (if \<not> private_data filp then Inl NullDeref
      else if mutex_lock_interruptible e \<noteq> 0 then Inr (s, pos, - ERESTARTSYS)
      else
        let s = set_lock True s; wip = wip_entry (aesd_device s) in
        case kmalloc e (heap s) (esize wip + count + 1) of
          None \<Rightarrow> Inr (set_lock False s, pos, - ENOMEM)
        | Some (bptr, junk) \<Rightarrow>
            let (bs, left) = copy_from_user e buf in
            bindR (fill_block ((heap s)(bptr \<mapsto> junk)) bptr wip count bs) (\<lambda>h3.
            if left \<noteq> 0 then Inr (set_lock False (s\<lparr>heap := h3\<rparr>), pos, - EFAULT)
            else
              bindR (free_block h3 (buffptr wip)) (\<lambda>h4.
              bindR (flush_wip h4 (buffer (aesd_device s))
                       \<lparr>buffptr = Some bptr, esize = esize wip + count\<rparr>) (\<lambda>(h5, buf', wip').
              case buf' of
                None \<Rightarrow> Inl NullDeref
              | Some b' \<Rightarrow>
                  Inr (set_lock False (s\<lparr>heap := h5, aesd_device :=
                         (aesd_device s)\<lparr>buffer := buf', wip_entry := wip'\<rparr>\<rparr>),
                       aesd_circular_buffer_size b' - 1, count)))))"

definition aesd_llseek ::
  "kenv \<Rightarrow> drv \<Rightarrow> open_file \<Rightarrow> loff_t \<Rightarrow> s32 \<Rightarrow> (drv \<times> open_file \<times> loff_t) res" where
  "aesd_llseek e s filp off whence =
     (if \<not> private_data filp then Inl NullDeref
      else if mutex_lock_interruptible e \<noteq> 0 then Inr (s, filp, - ERESTARTSYS)
      else
        let s = set_lock True s in
        case buffer (aesd_device s) of
          None \<Rightarrow> Inl NullDeref
        | Some b \<Rightarrow>
            let buffer_size = aesd_circular_buffer_size b;
                (new_pos, pos') = fixed_size_llseek e (f_pos filp) off whence buffer_size
            in Inr (set_lock False s, filp\<lparr>f_pos := pos'\<rparr>, new_pos))"

text \<open>
  The loop of \<open>aesd_adjust_file_offset\<close>, over the values its counter \<open>index\<close> has still to
  take: the accumulated \<open>offset\<close>, or \<open>None\<close> for the jumps to \<open>finalize\<close> with \<open>-EINVAL\<close>.
\<close>

fun adjust_loop ::
  "aesd_circular_buffer \<Rightarrow> u32 \<Rightarrow> u32 \<Rightarrow> size_t \<Rightarrow> nat list \<Rightarrow> size_t option" where
  "adjust_loop b cmd cmd_offset offset [] = Some offset"
| "adjust_loop b cmd cmd_offset offset (index # is) =
     (let current_pos = (unat (out_offs b) + index) mod AESDCHAR_MAX_WRITE_OPERATIONS_SUPPORTED;
          en = entry b ! current_pos
      in if buffptr en = None then None
         else if index \<noteq> unat cmd then adjust_loop b cmd cmd_offset (offset + esize en) is
         else if esize en \<le> ucast cmd_offset then None
         else adjust_loop b cmd cmd_offset (offset + ucast cmd_offset) is)"

definition aesd_adjust_file_offset ::
  "kenv \<Rightarrow> drv \<Rightarrow> open_file \<Rightarrow> u32 \<Rightarrow> u32 \<Rightarrow> (drv \<times> open_file \<times> ssize_t) res" where
  "aesd_adjust_file_offset e s filp cmd cmd_offset =
     (if \<not> private_data filp then Inl NullDeref
      else if AESDCHAR_MAX_WRITE_OPERATIONS_SUPPORTED \<le> unat cmd then Inr (s, filp, - EINVAL)
      else if mutex_lock_interruptible e \<noteq> 0 then Inr (s, filp, - ERESTARTSYS)
      else
        let s = set_lock True s in
        case buffer (aesd_device s) of
          None \<Rightarrow> Inl NullDeref
        | Some b \<Rightarrow>
            (case adjust_loop b cmd cmd_offset 0 [0..<Suc (unat cmd)] of
               None \<Rightarrow> Inr (set_lock False s, filp, - EINVAL)
             | Some offset \<Rightarrow> Inr (set_lock False s, filp\<lparr>f_pos := offset\<rparr>, 0)))"

text \<open>
  \<open>_IOWR(AESD_IOC_MAGIC, 1, struct aesd_seekto)\<close> with the encoding of
  \<open>asm-generic/ioctl.h\<close>: direction in bits 30 and 31, size from bit 16, type from bit 8,
  number from bit 0. The struct has two 32-bit members.
\<close>

definition AESDCHAR_IOCSEEKTO :: u32 where
  "AESDCHAR_IOCSEEKTO = push_bit 30 3 + push_bit 16 8 + push_bit 8 0x16 + 1"

definition aesd_ioctl ::
  "kenv \<Rightarrow> drv \<Rightarrow> open_file \<Rightarrow> u32 \<Rightarrow> aesd_seekto \<Rightarrow> (drv \<times> open_file \<times> ssize_t) res" where
  "aesd_ioctl e s filp cmd arg =
     (if cmd = AESDCHAR_IOCSEEKTO then
        let (seekto, left) = copy_seekto e arg in
        if left \<noteq> 0 then Inr (s, filp, - EFAULT)
        else aesd_adjust_file_offset e s filp (write_cmd seekto) (write_cmd_offset seekto)
      else Inr (s, filp, - ENOTTY))"

end
