(* ===== verification/DriverInv.thy ===== *)
theory DriverInv
  imports CharDriver
begin

text \<open>
  What the char driver keeps true and what it stands for. \<open>dev_wf\<close> is the invariant of the
  device between two file operations: every stored entry and the working entry own a live
  block of their own, one byte longer than the entry and terminated by \<open>NUL\<close>; a stored
  command ends with a newline, the working entry does not; the mutex is free. \<open>dev_abs\<close>
  reads the device as the last ten complete commands and the bytes of the unfinished one.
\<close>

section \<open>Entries and the blocks they own\<close>

definition entry_bytes :: "heap \<Rightarrow> aesd_buffer_entry \<Rightarrow> byte list" where
  "entry_bytes h en =
     (case buffptr en of None \<Rightarrow> []
      | Some a \<Rightarrow> (case h a of None \<Rightarrow> [] | Some blk \<Rightarrow> take (unat (esize en)) blk))"

definition entry_ok :: "heap \<Rightarrow> aesd_buffer_entry \<Rightarrow> bool" where
  "entry_ok h en \<longleftrightarrow>
     (case buffptr en of None \<Rightarrow> False
      | Some a \<Rightarrow>
          (case h a of None \<Rightarrow> False
           | Some blk \<Rightarrow> length blk = Suc (unat (esize en)) \<and> 0 < unat (esize en) \<and>
               blk ! unat (esize en) = nul))"

definition cmd_ok :: "heap \<Rightarrow> aesd_buffer_entry \<Rightarrow> bool" where
  "cmd_ok h en \<longleftrightarrow> entry_ok h en \<and> last (entry_bytes h en) = newline"

definition wip_ok :: "heap \<Rightarrow> aesd_buffer_entry \<Rightarrow> bool" where
  "wip_ok h en \<longleftrightarrow> en = null_entry \<or> entry_ok h en \<and> last (entry_bytes h en) \<noteq> newline"

definition ptrs :: "aesd_buffer_entry list \<Rightarrow> addr list" where
  "ptrs ens = List.map_filter buffptr ens"

lemma ptrs_simps [simp]:
  "ptrs [] = []"
  "ptrs (en # ens) = (case buffptr en of None \<Rightarrow> [] | Some a \<Rightarrow> [a]) @ ptrs ens"
  "ptrs (ens @ ens') = ptrs ens @ ptrs ens'"
  by (simp_all add: ptrs_def map_filter_def split: option.splits)

lemma in_ptrs: "a \<in> set (ptrs ens) \<longleftrightarrow> (\<exists>en \<in> set ens. buffptr en = Some a)"
  by (induction ens) (auto split: option.splits)

lemma entry_okE:
  assumes "entry_ok h en"
  obtains a blk where "buffptr en = Some a" "h a = Some blk" "length blk = Suc (unat (esize en))"
    "0 < unat (esize en)" "blk ! unat (esize en) = nul"
    "entry_bytes h en = take (unat (esize en)) blk"
  using assms by (auto simp: entry_ok_def entry_bytes_def split: option.splits)

lemma length_entry_bytes: "entry_ok h en \<Longrightarrow> length (entry_bytes h en) = unat (esize en)"
  by (erule entry_okE) simp

lemma entry_ok_live: "entry_ok h en \<Longrightarrow> buffptr en = Some a \<Longrightarrow> \<exists>blk. h a = Some blk"
  by (erule entry_okE) simp

lemma entry_bytes_nonempty: "entry_ok h en \<Longrightarrow> entry_bytes h en \<noteq> []"
  by (erule entry_okE) auto

lemma null_entry_simps [simp]:
  "buffptr null_entry = None" "esize null_entry = 0" "entry_bytes h null_entry = []"
  "\<not> entry_ok h null_entry"
  by (simp_all add: null_entry_def entry_bytes_def entry_ok_def)

lemma wip_length: "wip_ok h w \<Longrightarrow> length (entry_bytes h w) = unat (esize w)"
  by (auto simp: wip_ok_def length_entry_bytes)

text \<open>Changing a block an entry does not own.\<close>

lemma entry_frame:
  assumes "buffptr en \<noteq> Some a"
  shows "entry_bytes (h(a := x)) en = entry_bytes h en" "entry_ok (h(a := x)) en = entry_ok h en"
    "cmd_ok (h(a := x)) en = cmd_ok h en" "wip_ok (h(a := x)) en = wip_ok h en"
  using assms by (auto simp: entry_bytes_def entry_ok_def cmd_ok_def wip_ok_def split: option.splits)

lemma cmds_frame:
  assumes "a \<notin> set (ptrs ens)"
  shows "map (entry_bytes (h(a := x))) ens = map (entry_bytes h) ens"
    "(\<forall>en \<in> set ens. cmd_ok (h(a := x)) en) = (\<forall>en \<in> set ens. cmd_ok h en)"
  using assms by (auto simp: in_ptrs entry_frame)

lemma fresh_not_owned:
  "h a = None \<Longrightarrow> entry_ok h en \<Longrightarrow> buffptr en \<noteq> Some a"
  "h a = None \<Longrightarrow> wip_ok h en \<Longrightarrow> buffptr en \<noteq> Some a"
  "h a = None \<Longrightarrow> \<forall>en \<in> set ens. cmd_ok h en \<Longrightarrow> a \<notin> set (ptrs ens)"
proof -
  show fresh: "h a = None \<Longrightarrow> entry_ok h en \<Longrightarrow> buffptr en \<noteq> Some a" for en
    by (auto elim: entry_okE)
  show "h a = None \<Longrightarrow> wip_ok h en \<Longrightarrow> buffptr en \<noteq> Some a"
    using fresh by (auto simp: wip_ok_def)
  show "h a = None \<Longrightarrow> \<forall>en \<in> set ens. cmd_ok h en \<Longrightarrow> a \<notin> set (ptrs ens)"
    using fresh by (auto simp: cmd_ok_def in_ptrs)
qed

section \<open>The device invariant and abstraction\<close>

definition buf_wf :: "heap \<Rightarrow> aesd_circular_buffer \<Rightarrow> aesd_buffer_entry \<Rightarrow> bool" where
  "buf_wf h b w \<longleftrightarrow>
     cb_wf b \<and> (\<forall>en \<in> set (cb_list b). cmd_ok h en) \<and> wip_ok h w \<and>
     distinct (ptrs (cb_list b @ [w])) \<and>
     sum_list (cb_sizes b) + unat (esize w) < 2 ^ 63"

definition dev_wf :: "drv \<Rightarrow> bool" where
  "dev_wf s \<longleftrightarrow> \<not> lock (aesd_device s) \<and>
     (case buffer (aesd_device s) of None \<Rightarrow> False
      | Some b \<Rightarrow> buf_wf (heap s) b (wip_entry (aesd_device s)))"

text \<open>Every live block is owned by an entry of the device.\<close>

definition leak_free :: "drv \<Rightarrow> bool" where
  "leak_free s \<longleftrightarrow>
     (case buffer (aesd_device s) of None \<Rightarrow> dom (heap s) = {}
      | Some b \<Rightarrow> dom (heap s) = set (ptrs (cb_list b @ [wip_entry (aesd_device s)])))"

record cmd_log =
  cmds :: "byte list list"
  partial_cmd :: "byte list"

definition buf_abs :: "heap \<Rightarrow> aesd_circular_buffer \<Rightarrow> aesd_buffer_entry \<Rightarrow> cmd_log" where
  "buf_abs h b w = \<lparr>cmds = map (entry_bytes h) (cb_list b), partial_cmd = entry_bytes h w\<rparr>"

definition dev_abs :: "drv \<Rightarrow> cmd_log" where
  "dev_abs s =
     (case buffer (aesd_device s) of None \<Rightarrow> \<lparr>cmds = [], partial_cmd = []\<rparr>
      | Some b \<Rightarrow> buf_abs (heap s) b (wip_entry (aesd_device s)))"

text \<open>The bytes a reader can see, and the number of all bytes the device holds.\<close>

definition content :: "cmd_log \<Rightarrow> byte list" where
  "content l = concat (cmds l)"

definition log_bytes :: "cmd_log \<Rightarrow> nat" where
  "log_bytes l = length (content l) + length (partial_cmd l)"

lemma dev_wfE:
  assumes "dev_wf s"
  obtains b where "buffer (aesd_device s) = Some b" "\<not> lock (aesd_device s)"
    "buf_wf (heap s) b (wip_entry (aesd_device s))"
    "dev_abs s = buf_abs (heap s) b (wip_entry (aesd_device s))"
  using assms by (auto simp: dev_wf_def dev_abs_def split: option.splits)

lemma cmd_lengths:
  "\<forall>en \<in> set ens. cmd_ok h en \<Longrightarrow>
   map length (map (entry_bytes h) ens) = map (\<lambda>en. unat (esize en)) ens"
  by (auto simp: cmd_ok_def length_entry_bytes)

lemma buf_wf_sizes:
  assumes "buf_wf h b w"
  shows "cb_sizes b = map length (cmds (buf_abs h b w))"
    and "sum_list (cb_sizes b) = length (content (buf_abs h b w))"
    and "log_bytes (buf_abs h b w) < 2 ^ 63"
    and "cb_fits b"
proof -
  have ok: "\<forall>en \<in> set (cb_list b). cmd_ok h en" "wip_ok h w"
    and bound: "sum_list (cb_sizes b) + unat (esize w) < 2 ^ 63"
    using assms by (simp_all add: buf_wf_def)
  show sizes: "cb_sizes b = map length (cmds (buf_abs h b w))"
    unfolding buf_abs_def cb_sizes_def cmd_log.simps by (rule cmd_lengths [OF ok(1), symmetric])
  show sum: "sum_list (cb_sizes b) = length (content (buf_abs h b w))"
    by (simp add: sizes content_def length_concat)
  show "log_bytes (buf_abs h b w) < 2 ^ 63"
    using bound wip_length [OF ok(2)] by (simp add: log_bytes_def sum buf_abs_def)
  show "cb_fits b"
    using bound by (simp add: cb_fits_def)
qed

lemma set_lock_simps [simp]:
  "heap (set_lock l s) = heap s" "buffer (aesd_device (set_lock l s)) = buffer (aesd_device s)"
  "wip_entry (aesd_device (set_lock l s)) = wip_entry (aesd_device s)"
  "lock (aesd_device (set_lock l s)) = l"
  "set_lock l (set_lock m s) = set_lock l s"
  "\<not> lock (aesd_device s) \<Longrightarrow> set_lock False s = s"
  by (simp_all add: set_lock_def)

section \<open>A concrete device and a concrete kernel\<close>

text \<open>
  An instance for the examples: an allocator that takes the first free of 64 addresses and
  hands out uncleared memory, copies that always succeed, and a \<open>fixed_size_llseek\<close> with
  the documented result.
\<close>

definition fixed_size_llseek_example :: "loff_t \<Rightarrow> loff_t \<Rightarrow> s32 \<Rightarrow> loff_t \<Rightarrow> loff_t \<times> loff_t" where
  "fixed_size_llseek_example pos off whence sz =
     (let np = (if whence = 0 then off else if whence = 1 then pos + off else sz + off)
      in if 0 \<le> sint np \<and> sint np \<le> sint sz then (np, np) else (- EINVAL, pos))"

definition kenv_example :: kenv where
  "kenv_example =
     \<lparr>mutex_lock_interruptible = 0,
      kmalloc = (\<lambda>h n. map_option (\<lambda>a. (a, replicate (unat n) 0xAA))
        (find (\<lambda>a. h a = None) [0..<64])),
      copy_from_user = (\<lambda>bs. (bs, 0)), copy_to_user = (\<lambda>bs. (bs, 0)),
      copy_seekto = (\<lambda>x. (x, 0)), fixed_size_llseek = fixed_size_llseek_example\<rparr>"

lemma kenv_example_simps [simp]:
  "mutex_lock_interruptible kenv_example = 0" "copy_from_user kenv_example = (\<lambda>bs. (bs, 0))"
  "copy_to_user kenv_example = (\<lambda>bs. (bs, 0))" "copy_seekto kenv_example = (\<lambda>x. (x, 0))"
  "fixed_size_llseek kenv_example = fixed_size_llseek_example"
  by (simp_all add: kenv_example_def)

lemma kenv_example_alloc:
  "h a = None \<Longrightarrow> \<forall>a' < a. h a' \<noteq> None \<Longrightarrow> a < 64 \<Longrightarrow>
   kmalloc kenv_example h n = Some (a, replicate (unat n) 0xAA)"
  by (auto simp: kenv_example_def find_Some_iff intro!: exI [of _ a] simp del: upt_rec_numeral)

lemma kenv_example_ok: "kenv_ok kenv_example"
  by (auto simp: kenv_ok_def kenv_example_def find_Some_iff simp del: upt_rec_numeral)

text \<open>Two complete commands, \<open>ab\<close> and \<open>c\<close>, and the start \<open>x\<close> of a third.\<close>

definition drv_example :: drv where
  "drv_example =
     \<lparr>heap = [0 \<mapsto> [97, 98, newline, nul], 1 \<mapsto> [99, newline, nul], 2 \<mapsto> [120, nul]],
      aesd_device =
        \<lparr>buffer = Some
           \<lparr>entry = [\<lparr>buffptr = Some 0, esize = 3\<rparr>, \<lparr>buffptr = Some 1, esize = 2\<rparr>] @
              replicate 8 null_entry,
            in_offs = 2, out_offs = 0, full = False\<rparr>,
         wip_entry = \<lparr>buffptr = Some 2, esize = 1\<rparr>, lock = False\<rparr>\<rparr>"

lemma drv_example_abs:
  "dev_abs drv_example = \<lparr>cmds = [[97, 98, newline], [99, newline]], partial_cmd = [120]\<rparr>"
  by (simp add: dev_abs_def buf_abs_def drv_example_def cb_list_def entry_bytes_def)

lemma drv_example_wf: "dev_wf drv_example" and drv_example_leak_free: "leak_free drv_example"
  by (auto simp: dev_wf_def buf_wf_def drv_example_def cb_list_def cb_wf_def cb_sizes_def
      entry_bytes_def wip_ok_def cmd_ok_def entry_ok_def leak_free_def null_entry_def)

definition file_example :: open_file where
  "file_example = \<lparr>f_pos = 1, private_data = True\<rparr>"

end
