(* ===== verification/DriverRead.thy ===== *)
theory DriverRead
  imports DriverInv
begin

text \<open>
  The file operations that do not change the stored commands: \<open>aesd_read\<close>, \<open>aesd_llseek\<close>,
  and the seek by command of \<open>aesd_ioctl\<close>. Each is rewritten into an equation over the
  abstract device; reading until the end is derived from the equation of one read through
  the locale \<open>chunked_reader\<close>.
\<close>

section \<open>Reading\<close>

text \<open>The bytes one read returns: at most \<open>n\<close>, and never past the end of a command.\<close>

definition chunk_at :: "byte list list \<Rightarrow> nat \<Rightarrow> nat \<Rightarrow> byte list" where
  "chunk_at cs p n =
     (case locate (map length cs) p of None \<Rightarrow> [] | Some (k, j) \<Rightarrow> take n (drop j (cs ! k)))"

lemma chunk_at_prefix: "\<exists>rest. drop p (concat cs) = chunk_at cs p n @ rest"
proof (cases "locate (map length cs) p")
  case (Some kj)
  obtain k j where kj: "locate (map length cs) p = Some (k, j)"
    using Some by (cases kj) simp
  show ?thesis
    unfolding chunk_at_def kj locate_concat(3) [OF kj]
    by (intro exI [of _ "drop n (drop j (cs ! k)) @ concat (drop (Suc k) cs)"]) (simp del: drop_drop)
qed (simp add: chunk_at_def)

lemma chunk_at_empty:
  "chunk_at cs p n = [] \<longleftrightarrow> n = 0 \<or> length (concat cs) \<le> p"
proof (cases "locate (map length cs) p")
  case None
  then show ?thesis
    using locate_None_iff [of "map length cs" p] by (simp add: chunk_at_def length_concat)
next
  case (Some kj)
  obtain k j where kj: "locate (map length cs) p = Some (k, j)"
    using Some by (cases kj) simp
  then show ?thesis
    using locate_SomeD [OF kj] locate_concat(2) [OF kj] by (auto simp: chunk_at_def)
qed

lemma length_chunk_at: "length (chunk_at cs p n) \<le> n"
  by (simp add: chunk_at_def split: option.splits prod.splits)

lemma unat_less_pow: "unat (w :: 64 word) < 2 ^ 64"
proof -
  have "unat w < 2 ^ LENGTH(64)" by (rule unsigned_less)
  then show ?thesis by simp
qed

text \<open>The block read of one entry, on the level of the entry's bytes.\<close>

lemma load_entry:
  assumes ok: "entry_ok h en" and j: "j < unat (esize en)"
    and c: "c = (if esize en - of_nat j < count then esize en - of_nat j else count)"
  shows "load h (buffptr en) (unat (of_nat j :: size_t)) (unat c) =
      Inr (take (unat count) (drop j (entry_bytes h en)))"
    and "c = of_nat (length (take (unat count) (drop j (entry_bytes h en))))"
proof -
  obtain a blk where a: "buffptr en = Some a" "h a = Some blk" "length blk = Suc (unat (esize en))"
    "entry_bytes h en = take (unat (esize en)) blk"
    using ok by (rule entry_okE)
  have uj: "unat (of_nat j :: size_t) = j"
    using j unat_less_pow [of "esize en"] by (intro unat_of_nat_fits) simp
  then have rest: "unat (esize en - of_nat j) = unat (esize en) - j"
    using j by (simp add: unat_sub_fits)
  then have uc: "unat c = min (unat count) (unat (esize en) - j)"
    unfolding c by (simp add: word_less_nat_alt min_def)
  have bytes: "take (unat count) (drop j (entry_bytes h en)) = take (unat c) (drop j blk)"
    unfolding a(4) uc by (simp add: drop_take min.commute)
  show "load h (buffptr en) (unat (of_nat j :: size_t)) (unat c) =
      Inr (take (unat count) (drop j (entry_bytes h en)))"
    unfolding uj bytes a(1) using a(2,3) j uc by (intro load_ok) auto
  have "length (take (unat c) (drop j blk)) = unat c"
    using a(3) uc j by simp
  then show "c = of_nat (length (take (unat count) (drop j (entry_bytes h en))))"
    by (simp add: bytes)
qed

lemma aesd_read_eq:
  assumes wf: "dev_wf s" and pd: "private_data filp" and intr: "mutex_lock_interruptible e = 0"
    and env: "kenv_ok e"
  shows "aesd_read e s filp count pos =
    (let l = dev_abs s; bs = chunk_at (cmds l) (unat pos) (unat count) in
     if length (content l) \<le> unat pos then Inr (s, pos, 0, [])
     else if snd (copy_to_user e bs) \<noteq> 0 then Inr (s, pos, - EFAULT, fst (copy_to_user e bs))
     else Inr (s, pos + of_nat (length bs), of_nat (length bs), bs))"
proof -
  obtain b where b: "buffer (aesd_device s) = Some b" "\<not> lock (aesd_device s)"
    and bwf: "buf_wf (heap s) b (wip_entry (aesd_device s))"
    and l: "dev_abs s = buf_abs (heap s) b (wip_entry (aesd_device s))"
    using wf by (rule dev_wfE)
  have cwf: "cb_wf b" and fits: "cb_fits b" and ok: "\<forall>en \<in> set (cb_list b). cmd_ok (heap s) en"
    using bwf buf_wf_sizes(4) [OF bwf] by (simp_all add: buf_wf_def)
  have total: "unat (aesd_circular_buffer_size b) = length (content (dev_abs s))"
    using unat_cb_size [OF cwf fits] buf_wf_sizes(2) [OF bwf] l by simp
  show ?thesis
  proof (cases "length (content (dev_abs s)) \<le> unat pos")
    case True
    then have "aesd_circular_buffer_find_entry_offset_for_fpos b pos = None"
      using cb.find_past_end [OF cwf fits] total by simp
    then show ?thesis
      using True b pd intr by (simp add: aesd_read_def Let_def)
  next
    case False
    then have "unat pos < unat (aesd_circular_buffer_size b)" using total by simp
    then obtain i k j where f: "aesd_circular_buffer_find_entry_offset_for_fpos b pos = Some (i, of_nat j)"
      and i: "entry b ! i = cb_list b ! k"
      and loc: "locate (map (\<lambda>e. unat (esize e)) (cb_list b)) (unat pos) = Some (k, j)"
      and k: "k < length (cb_list b)" "j < unat (esize (cb_list b ! k))"
      by (rule cb.findE [OF cwf fits])
    let ?en = "cb_list b ! k"
    define c where "c = (if esize ?en - of_nat j < count then esize ?en - of_nat j else count)"
    have en: "entry_ok (heap s) ?en"
      using ok k(1) by (simp add: cmd_ok_def)
    have "locate (map length (cmds (dev_abs s))) (unat pos) = Some (k, j)"
      using loc buf_wf_sizes(1) [OF bwf] by (simp add: l cb_sizes_def)
    then have chunk: "chunk_at (cmds (dev_abs s)) (unat pos) (unat count) =
        take (unat count) (drop j (entry_bytes (heap s) ?en))"
      using k(1) by (simp add: chunk_at_def l buf_abs_def)
    define bs where "bs = chunk_at (cmds (dev_abs s)) (unat pos) (unat count)"
    have ld: "load (heap s) (buffptr ?en) (unat (of_nat j :: size_t)) (unat c) = Inr bs"
      and c: "c = of_nat (length bs)"
      using load_entry [OF en k(2) c_def] by (simp_all only: bs_def chunk)
    have full: "snd (copy_to_user e bs) = 0 \<Longrightarrow> fst (copy_to_user e bs) = bs"
      using env by (simp add: kenv_ok_def)
    obtain ub left where cu: "copy_to_user e bs = (ub, left)" by (cases "copy_to_user e bs")
    consider "esize ?en - of_nat j < count" "c = esize ?en - of_nat j"
      | "\<not> esize ?en - of_nat j < count" "c = count"
      by (auto simp: c_def)
    then have "aesd_read e s filp count pos =
        (if snd (copy_to_user e bs) \<noteq> 0 then Inr (s, pos, - EFAULT, fst (copy_to_user e bs))
         else Inr (s, pos + c, c, bs))"
      using b pd intr full ld
      by cases (auto simp: aesd_read_def Let_def f i cu)
    then show ?thesis
      using False by (simp only: Let_def bs_def [symmetric] c [symmetric] if_False)
  qed
qed

section \<open>Seeking to a command\<close>

lemma unat_ucast64: "unat (ucast (w :: u32) :: size_t) = unat w"
  by transfer simp

lemma adjust_loop_eq:
  assumes wf: "cb_wf b" and some: "\<forall>en \<in> set (cb_list b). buffptr en \<noteq> None"
    and "i \<le> unat cmd" and w: "unat cmd < 10"
  shows "adjust_loop b cmd co acc [i..<Suc (unat cmd)] =
    (if unat cmd < length (cb_list b) \<and> unat co < unat (esize (cb_list b ! unat cmd))
     then Some (acc + sum_list (map esize (take (unat cmd - i) (drop i (cb_list b)))) + ucast co)
     else None)"
  using assms(3)
proof (induction "unat cmd - i" arbitrary: i acc)
  case 0
  then have i: "i = unat cmd" by simp
  show ?case
  proof (cases "i < length (cb_list b)")
    case True
    then have "buffptr (cb_list b ! i) \<noteq> None" using some by simp
    then show ?thesis
      using True cb_list_nth [OF wf True]
      by (auto simp: i Let_def upt_rec [of "unat cmd"] word_le_nat_alt unat_ucast64)
  next
    case False
    then have "entry b ! ((unat (out_offs b) + i) mod 10) = null_entry"
      using cb_slots_nth [OF wf] cb_slots_eq [OF wf] w i by (simp add: nth_append)
    then show ?thesis
      using False by (simp add: i Let_def upt_rec [of "unat cmd"] null_entry_def)
  qed
next
  case (Suc n)
  then have i: "i < unat cmd" by simp
  then have upt: "[i..<Suc (unat cmd)] = i # [Suc i..<Suc (unat cmd)]"
    by (simp add: upt_conv_Cons)
  show ?case
  proof (cases "i < length (cb_list b)")
    case True
    have n: "n = unat cmd - Suc i" "Suc i \<le> unat cmd" using Suc.hyps(2) i by simp_all
    obtain p where "buffptr (cb_list b ! i) = Some p" using some True by force
    then have "adjust_loop b cmd co acc [i..<Suc (unat cmd)] =
        adjust_loop b cmd co (acc + esize (cb_list b ! i)) [Suc i..<Suc (unat cmd)]"
      unfolding upt using i cb_list_nth [OF wf True] by (simp add: Let_def)
    also have "take (unat cmd - i) (drop i (cb_list b)) =
        cb_list b ! i # take (unat cmd - Suc i) (drop (Suc i) (cb_list b))"
      using i True by (simp add: Cons_nth_drop_Suc [symmetric] take_Cons' Suc_diff_Suc [symmetric])
    ultimately show ?thesis
      using Suc.hyps(1) [OF n] by (simp add: add.assoc)
  next
    case False
    then have "entry b ! ((unat (out_offs b) + i) mod 10) = null_entry"
      using cb_slots_nth [OF wf] cb_slots_eq [OF wf] w i by (simp add: nth_append)
    then show ?thesis
      unfolding upt using False i by (simp add: Let_def null_entry_def)
  qed
qed

text \<open>The whole seek, over the abstract device.\<close>

definition cmd_offset_pos :: "byte list list \<Rightarrow> nat \<Rightarrow> nat \<Rightarrow> nat" where
  "cmd_offset_pos cs k j = length (concat (take k cs)) + j"

lemma aesd_adjust_eq:
  assumes wf: "dev_wf s" and pd: "private_data filp" and intr: "mutex_lock_interruptible e = 0"
  shows "aesd_adjust_file_offset e s filp cmd co =
    (let cs = cmds (dev_abs s); k = unat cmd; j = unat co in
     if k < length cs \<and> j < length (cs ! k)
     then Inr (s, filp\<lparr>f_pos := of_nat (cmd_offset_pos cs k j)\<rparr>, 0)
     else Inr (s, filp, - EINVAL))"
proof -
  obtain b where b: "buffer (aesd_device s) = Some b" "\<not> lock (aesd_device s)"
    and bwf: "buf_wf (heap s) b (wip_entry (aesd_device s))"
    and l: "dev_abs s = buf_abs (heap s) b (wip_entry (aesd_device s))"
    using wf by (rule dev_wfE)
  let ?cs = "cmds (dev_abs s)" and ?k = "unat cmd"
  have cwf: "cb_wf b" and ok: "\<forall>en \<in> set (cb_list b). cmd_ok (heap s) en"
    using bwf by (simp_all add: buf_wf_def)
  have some: "\<forall>en \<in> set (cb_list b). buffptr en \<noteq> None"
    using ok by (auto simp: cmd_ok_def elim: entry_okE)
  have len: "length ?cs = length (cb_list b)"
    by (simp add: l buf_abs_def)
  have sizes: "map length ?cs = map (\<lambda>en. unat (esize en)) (cb_list b)"
    using buf_wf_sizes(1) [OF bwf] by (simp add: l cb_sizes_def)
  then have size: "length (?cs ! k) = unat (esize (cb_list b ! k))" if "k < length ?cs" for k
    using that len by (metis length_map nth_map)
  show ?thesis
  proof (cases "?k < 10")
    case False
    then have "\<not> ?k < length ?cs"
      using cb_list_bound [OF cwf] len by simp
    with False show ?thesis
      using pd by (simp add: aesd_adjust_file_offset_def Let_def)
  next
    case True
    have "sum_list (map esize (take ?k (cb_list b))) + ucast co =
        (of_nat (cmd_offset_pos ?cs ?k (unat co)) :: size_t)"
    proof -
      have "map length (take ?k ?cs) = map (\<lambda>en. unat (esize en)) (take ?k (cb_list b))"
        using arg_cong [OF sizes, of "take ?k"] by (simp add: take_map)
      then have "length (concat (take ?k ?cs)) =
          sum_list (map unat (map esize (take ?k (cb_list b))))"
        by (simp add: length_concat o_def)
      then show ?thesis
        by (simp only: cmd_offset_pos_def of_nat_add of_nat_sum_unat unat_ucast64 [symmetric]
          of_nat_unat64)
    qed
    then show ?thesis
      using adjust_loop_eq [OF cwf some le0 True, of co 0] b pd intr True size len
      by (auto simp: aesd_adjust_file_offset_def Let_def)
  qed
qed

lemma locate_cmd_offset:
  assumes "k < length cs" and "j < length (cs ! k)"
  shows "locate (map length cs) (cmd_offset_pos cs k j) = Some (k, j)"
  using locate_at [of k "map length cs" j] assms
  by (simp add: cmd_offset_pos_def length_concat take_map)

lemma cmd_offset_pos_bound:
  assumes "k < length cs" and "j < length (cs ! k)"
  shows "cmd_offset_pos cs k j < length (concat cs)"
  by (rule locate_concat(2) [OF locate_cmd_offset [OF assms]])

lemma chunk_at_last:
  assumes "cs = ds @ [p]" and "p \<noteq> []" and "0 < n"
  shows "chunk_at cs (length (concat cs) - 1) n = [last p]"
proof -
  have "locate (map length cs) (cmd_offset_pos cs (length ds) (length p - 1)) =
      Some (length ds, length p - 1)"
    using assms by (intro locate_cmd_offset) simp_all
  moreover have "cmd_offset_pos cs (length ds) (length p - 1) = length (concat cs) - 1"
    using assms by (cases p) (simp_all add: cmd_offset_pos_def)
  ultimately have "chunk_at cs (length (concat cs) - 1) n = take n (drop (length p - 1) p)"
    by (simp add: chunk_at_def assms(1))
  also have "drop (length p - 1) p = [last p]"
    using assms(2) by (metis append_butlast_last_id append_eq_conv_conj length_butlast)
  finally show ?thesis using assms(3) by (cases n) simp_all
qed

section \<open>Seeking by offset\<close>

lemma aesd_llseek_eq:
  assumes wf: "dev_wf s" and pd: "private_data filp" and intr: "mutex_lock_interruptible e = 0"
  shows "aesd_llseek e s filp off whence =
    (let (new_pos, pos') = fixed_size_llseek e (f_pos filp) off whence
       (of_nat (length (content (dev_abs s)))) in
     Inr (s, filp\<lparr>f_pos := pos'\<rparr>, new_pos))"
proof -
  obtain b where b: "buffer (aesd_device s) = Some b" "\<not> lock (aesd_device s)"
    and bwf: "buf_wf (heap s) b (wip_entry (aesd_device s))"
    and l: "dev_abs s = buf_abs (heap s) b (wip_entry (aesd_device s))"
    using wf by (rule dev_wfE)
  have "unat (aesd_circular_buffer_size b) = length (content (dev_abs s))"
    using unat_cb_size [OF _ buf_wf_sizes(4) [OF bwf]] bwf buf_wf_sizes(2) [OF bwf] l
    by (simp add: buf_wf_def)
  then have "aesd_circular_buffer_size b = of_nat (length (content (dev_abs s)))"
    by (simp flip: \<open>unat (aesd_circular_buffer_size b) = length (content (dev_abs s))\<close>)
  then show ?thesis
    using b pd intr by (simp add: aesd_llseek_def Let_def)
qed

section \<open>Properties\<close>

text \<open>
  C18: \<open>aesd_read\<close> on every branch. When the wait for the mutex is interrupted the result is
  \<open>-ERESTARTSYS\<close> and nothing changes. At or past the end of the stored commands it returns 0; a
  failed copy gives \<open>-EFAULT\<close> and leaves the position; otherwise it returns the next bytes of
  the concatenated commands, at most \<open>count\<close>, advances the position by their number and is
  empty only when \<open>count\<close> is 0. The driver state, the mutex included, is as before, and no
  access leaves its block.
\<close>

theorem aesd_read_correct:
  assumes "dev_wf s" and "private_data filp" and "kenv_ok e"
  shows "let l = dev_abs s; bs = chunk_at (cmds l) (unat pos) (unat count) in
    aesd_read e s filp count pos =
      (if mutex_lock_interruptible e \<noteq> 0 then Inr (s, pos, - ERESTARTSYS, [])
       else if length (content l) \<le> unat pos then Inr (s, pos, 0, [])
       else if snd (copy_to_user e bs) \<noteq> 0 then Inr (s, pos, - EFAULT, fst (copy_to_user e bs))
       else Inr (s, pos + of_nat (length bs), of_nat (length bs), bs)) \<and>
    bs = take (length bs) (drop (unat pos) (content l)) \<and> length bs \<le> unat count \<and>
    (bs = [] \<longleftrightarrow> unat count = 0 \<or> length (content l) \<le> unat pos)"
proof (cases "mutex_lock_interruptible e = 0")
  case True
  then show ?thesis
    using aesd_read_eq [OF assms(1,2) _ assms(3), of count pos] length_chunk_at
      chunk_at_prefix [of "unat pos" "cmds (dev_abs s)" "unat count"]
    by (auto simp: Let_def chunk_at_empty content_def)
next
  case False
  then show ?thesis
    using assms(2) length_chunk_at chunk_at_prefix [of "unat pos" "cmds (dev_abs s)" "unat count"]
    by (auto simp: aesd_read_def Let_def chunk_at_empty content_def)
qed

theorem aesd_read_correct_witness:
  "aesd_read kenv_example drv_example file_example 10 1 =
     Inr (drv_example, 3, 2, [98, newline])"
proof -
  have "chunk_at (cmds (dev_abs drv_example)) (unat (1::loff_t)) (unat (10::size_t)) = [98, newline]"
    by (simp add: drv_example_abs chunk_at_def)
  then show ?thesis
    using aesd_read_correct [OF drv_example_wf, of file_example kenv_example 1 10]
    by (simp add: kenv_example_ok file_example_def Let_def drv_example_abs content_def)
qed

text \<open>
  C19: \<open>aesd_ioctl\<close> on every branch. With \<open>AESDCHAR_IOCSEEKTO\<close> and a copied argument the position
  moves to byte \<open>write_cmd_offset\<close> of the \<open>write_cmd\<close>-th oldest command exactly when that command is
  stored and has that byte and the wait for the mutex is not interrupted, and the result is 0; a
  read from the new position returns the bytes of that command from there on. Otherwise the file
  is unchanged: \<open>-EINVAL\<close> for a command number that cannot exist, \<open>-ERESTARTSYS\<close> for an interrupted
  wait, \<open>-EINVAL\<close> for a command or a byte that is not stored, \<open>-EFAULT\<close> for a failed copy, and
  \<open>-ENOTTY\<close> for any other request.
\<close>

theorem aesd_ioctl_correct:
  assumes "dev_wf s" and "private_data filp"
  shows "let cs = cmds (dev_abs s); (seekto, left) = copy_seekto e arg;
      k = unat (write_cmd seekto); j = unat (write_cmd_offset seekto) in
    if cmd \<noteq> AESDCHAR_IOCSEEKTO then aesd_ioctl e s filp cmd arg = Inr (s, filp, - ENOTTY)
    else if left \<noteq> 0 then aesd_ioctl e s filp cmd arg = Inr (s, filp, - EFAULT)
    else if AESDCHAR_MAX_WRITE_OPERATIONS_SUPPORTED \<le> k then
      aesd_ioctl e s filp cmd arg = Inr (s, filp, - EINVAL)
    else if mutex_lock_interruptible e \<noteq> 0 then
      aesd_ioctl e s filp cmd arg = Inr (s, filp, - ERESTARTSYS)
    else if k < length cs \<and> j < length (cs ! k) then
      \<exists>pos'. aesd_ioctl e s filp cmd arg = Inr (s, filp\<lparr>f_pos := pos'\<rparr>, 0) \<and>
        (\<forall>n. chunk_at cs (unat pos') n = take n (drop j (cs ! k)))
    else aesd_ioctl e s filp cmd arg = Inr (s, filp, - EINVAL)"
proof -
  obtain seekto left where cu: "copy_seekto e arg = (seekto, left)" by (cases "copy_seekto e arg")
  let ?cs = "cmds (dev_abs s)" and ?k = "unat (write_cmd seekto)"
    and ?j = "unat (write_cmd_offset seekto)"
  have read: "chunk_at ?cs (unat (of_nat (cmd_offset_pos ?cs ?k ?j) :: loff_t)) n =
      take n (drop ?j (?cs ! ?k))" if kj: "?k < length ?cs" "?j < length (?cs ! ?k)" for n
  proof -
    have "length (content (dev_abs s)) < 2 ^ 63"
      using assms(1) buf_wf_sizes(3) by (auto simp: log_bytes_def elim!: dev_wfE) (metis add_lessD1)
    then have "cmd_offset_pos ?cs ?k ?j < 2 ^ LENGTH(64)"
      using cmd_offset_pos_bound [OF kj] by (simp add: content_def)
    then show ?thesis
      using locate_cmd_offset [OF kj] by (simp only: unat_of_nat_fits) (simp add: chunk_at_def)
  qed
  show ?thesis
  proof (cases "AESDCHAR_MAX_WRITE_OPERATIONS_SUPPORTED \<le> ?k \<or> mutex_lock_interruptible e \<noteq> 0")
    case True
    then show ?thesis
      using assms(2) by (auto simp: aesd_ioctl_def aesd_adjust_file_offset_def cu Let_def)
  next
    case False
    then show ?thesis
      using aesd_adjust_eq [OF assms, of e "write_cmd seekto" "write_cmd_offset seekto"] read
      by (auto simp: aesd_ioctl_def cu Let_def)
  qed
qed

theorem aesd_ioctl_correct_witness:
  "\<exists>pos'. aesd_ioctl kenv_example drv_example file_example 0xC0081601
       \<lparr>write_cmd = 1, write_cmd_offset = 1\<rparr> =
     Inr (drv_example, file_example\<lparr>f_pos := pos'\<rparr>, 0) \<and>
     chunk_at [[97, 98, newline], [99, newline]] (unat pos') 5 = [newline]"
  using aesd_ioctl_correct [OF drv_example_wf, of file_example kenv_example
      "\<lparr>write_cmd = 1, write_cmd_offset = 1\<rparr>" "0xC0081601"]
  by (auto simp: file_example_def drv_example_abs AESDCHAR_IOCSEEKTO_def push_bit_eq_mult
      simp del: upt_rec_numeral)

text \<open>
  What the kernel documents of \<open>fixed_size_llseek\<close>: either a position inside the device, stored
  and returned, or a negative error with the position unchanged.
\<close>

definition llseek_ok :: "kenv \<Rightarrow> bool" where
  "llseek_ok e \<longleftrightarrow> (\<forall>pos off whence sz. 0 \<le> sint sz \<longrightarrow>
     (case fixed_size_llseek e pos off whence sz of (ret, pos') \<Rightarrow>
        0 \<le> sint ret \<and> sint ret \<le> sint sz \<and> pos' = ret \<or> sint ret < 0 \<and> pos' = pos))"

text \<open>
  \<open>aesd_llseek\<close> hands the kernel the number of stored bytes as the size, so a successful
  seek ends between 0 and that number, and a failed or interrupted one leaves the position alone.
\<close>

theorem aesd_llseek_correct:
  assumes "dev_wf s" and "private_data filp" and "llseek_ok e"
  shows "\<exists>filp' ret. aesd_llseek e s filp off whence = Inr (s, filp', ret) \<and>
    (0 \<le> sint ret \<and> sint ret \<le> int (length (content (dev_abs s))) \<and> f_pos filp' = ret \<or>
     sint ret < 0 \<and> filp' = filp)"
proof -
  let ?n = "length (content (dev_abs s))"
  have "?n < 2 ^ 63"
    using assms(1) buf_wf_sizes(3) by (auto simp: log_bytes_def elim!: dev_wfE) (metis add_lessD1)
  then have n: "sint (of_nat ?n :: loff_t) = int ?n"
    by (simp add: sint_of_nat_fits)
  obtain ret pos' where fl: "fixed_size_llseek e (f_pos filp) off whence (of_nat ?n) = (ret, pos')"
    by (cases "fixed_size_llseek e (f_pos filp) off whence (of_nat ?n)")
  then have "0 \<le> sint ret \<and> sint ret \<le> int ?n \<and> pos' = ret \<or> sint ret < 0 \<and> pos' = f_pos filp"
    using assms(3) n unfolding llseek_ok_def by (metis (mono_tags, lifting) case_prod_conv of_nat_0_le_iff)
  then have called: ?thesis if "mutex_lock_interruptible e = 0"
    using aesd_llseek_eq [OF assms(1,2) that, of off whence] fl by auto
  have "sint (- ERESTARTSYS :: loff_t) < 0" by simp
  then show ?thesis using called assms(2) by (cases "mutex_lock_interruptible e = 0") (simp_all add: aesd_llseek_def)
qed

lemma llseek_example_ok: "llseek_ok kenv_example"
  by (auto simp: llseek_ok_def fixed_size_llseek_example_def Let_def)

theorem aesd_llseek_correct_witness:
  "\<exists>filp' ret. aesd_llseek kenv_example drv_example file_example (- 2) 2 =
       Inr (drv_example, filp', ret) \<and> f_pos filp' = 3 \<and> ret = 3"
proof -
  obtain filp' ret where
    "aesd_llseek kenv_example drv_example file_example (- 2) 2 = Inr (drv_example, filp', ret)"
    and "0 \<le> sint ret \<and> sint ret \<le> 5 \<and> f_pos filp' = ret \<or> sint ret < 0 \<and> filp' = file_example"
    using aesd_llseek_correct [OF drv_example_wf _ llseek_example_ok, of file_example "- 2" 2]
    by (auto simp: file_example_def drv_example_abs content_def)
  moreover have "aesd_llseek kenv_example drv_example file_example (- 2) 2 =
      Inr (drv_example, file_example\<lparr>f_pos := 3\<rparr>, 3)"
    using aesd_llseek_eq [OF drv_example_wf, of file_example kenv_example "- 2" 2]
    by (simp add: file_example_def drv_example_abs content_def fixed_size_llseek_example_def)
  ultimately show ?thesis by simp
qed

end
