(* ===== verification/DriverWrite.thy ===== *)
theory DriverWrite
  imports DriverInv
begin

text \<open>
  \<open>aesd_write\<close>: building the new working entry in a fresh block, moving a finished command
  into the circular buffer, and every early exit. The result is stated against
  \<open>write_log\<close>, the effect of a write on the abstract device.
\<close>

definition write_log :: "cmd_log \<Rightarrow> byte list \<Rightarrow> cmd_log" where
  "write_log l bs =
     (let p = partial_cmd l @ bs in
      if last p = newline
      then \<lparr>cmds = keep_last AESDCHAR_MAX_WRITE_OPERATIONS_SUPPORTED (cmds l @ [p]),
            partial_cmd = []\<rparr>
      else l\<lparr>partial_cmd := p\<rparr>)"

section \<open>Moving the working entry into the buffer\<close>

text \<open>The state in which the new working entry is complete, before it is inspected.\<close>

definition wip_ready :: "heap \<Rightarrow> aesd_circular_buffer \<Rightarrow> aesd_buffer_entry \<Rightarrow> bool" where
  "wip_ready h b w \<longleftrightarrow>
     cb_wf b \<and> (\<forall>en \<in> set (cb_list b). cmd_ok h en) \<and> entry_ok h w \<and>
     distinct (ptrs (cb_list b @ [w])) \<and>
     sum_list (cb_sizes b) + unat (esize w) < 2 ^ 63"

lemma load_last:
  assumes "entry_ok h w"
  shows "load h (buffptr w) (unat (esize w - 1)) (Suc 0) = Inr [last (entry_bytes h w)]"
proof -
  obtain a blk where a: "buffptr w = Some a" "h a = Some blk" "length blk = Suc (unat (esize w))"
    "0 < unat (esize w)" "entry_bytes h w = take (unat (esize w)) blk"
    using assms by (rule entry_okE)
  have "unat (esize w - 1) = unat (esize w) - 1"
    using a(4) by (subst unat_sub_fits) simp_all
  moreover have "take (unat (esize w)) blk \<noteq> []" using a(3,4) by auto
  then have "last (entry_bytes h w) = blk ! (unat (esize w) - 1)"
    unfolding a(5) using a(3) by (simp add: last_conv_nth)
  moreover have "take (Suc 0) (drop i blk) = [blk ! i]" if "i < length blk" for i
    using that by (simp add: Cons_nth_drop_Suc [symmetric])
  ultimately show ?thesis
    using a by (simp add: load_def)
qed

lemma flush_wip_keep:
  assumes ready: "wip_ready h b w" and last: "last (entry_bytes h w) \<noteq> newline"
  shows "flush_wip h (Some b) w = Inr (h, Some b, w)" "buf_wf h b w"
  using assms by (simp_all add: flush_wip_def wip_ready_def load_last buf_wf_def wip_ok_def)

text \<open>The buffer was full: the oldest command is dropped and its block freed.\<close>

lemma flush_wip_full:
  assumes ready: "wip_ready h b w" and last: "last (entry_bytes h w) = newline"
    and len: "length (cb_list b) = AESDCHAR_MAX_WRITE_OPERATIONS_SUPPORTED"
  shows "\<exists>h' b'. flush_wip h (Some b) w = Inr (h', Some b', null_entry) \<and> buf_wf h' b' null_entry \<and>
    cmds (buf_abs h' b' null_entry) = tl (map (entry_bytes h) (cb_list b)) @ [entry_bytes h w] \<and>
    dom h' = dom h - {hd (ptrs (cb_list b))} \<and> ptrs (cb_list b') = tl (ptrs (cb_list b @ [w]))"
proof -
  have cwf: "cb_wf b" and ok: "\<forall>en \<in> set (cb_list b). cmd_ok h en" and wok: "entry_ok h w"
    and dist: "distinct (ptrs (cb_list b @ [w]))"
    and bound: "sum_list (cb_sizes b) + unat (esize w) < 2 ^ 63"
    using ready by (simp_all add: wip_ready_def)
  obtain x xs where x: "cb_list b = x # xs" using len by (cases "cb_list b") auto
  obtain b' where b': "aesd_circular_buffer_add_entry b w = Inr (b', buffptr x)" "cb_wf b'"
    "cb_list b' = xs @ [w]"
    using cb.addE [OF cwf, of w] len x by auto
  obtain a where a: "buffptr x = Some a" "h a \<noteq> None"
    using ok x by (auto simp: cmd_ok_def elim: entry_okE)
  define h' where "h' = h(a := None)"
  have a': "a \<notin> set (ptrs (xs @ [w]))" "distinct (ptrs (xs @ [w]))"
    using dist by (simp_all add: x a(1))
  have "flush_wip h (Some b) w = Inr (h', Some b', null_entry)"
    using wok last a b'(1) by (simp add: flush_wip_def load_last free_ok h'_def null_entry_def)
  moreover have "buf_wf h' b' null_entry"
  proof -
    have "\<forall>en \<in> set (xs @ [w]). cmd_ok h en"
      using ok wok last x by (auto simp: cmd_ok_def)
    then have "\<forall>en \<in> set (xs @ [w]). cmd_ok h' en"
      unfolding h'_def cmds_frame(2) [OF a'(1)] .
    moreover have "sum_list (cb_sizes b') < 2 ^ 63"
      using bound by (simp add: cb_sizes_def b'(3) x)
    ultimately show ?thesis
      using b' a' by (simp add: buf_wf_def wip_ok_def)
  qed
  moreover have "cmds (buf_abs h' b' null_entry) =
      tl (map (entry_bytes h) (cb_list b)) @ [entry_bytes h w]"
    using cmds_frame(1) [OF a'(1), of h None] by (simp add: buf_abs_def b'(3) x h'_def)
  ultimately show ?thesis
    by (intro exI [of _ h'] exI [of _ b']) (auto simp: h'_def x a(1) b'(3))
qed

text \<open>The buffer had a free slot: nothing is dropped.\<close>

lemma flush_wip_append:
  assumes ready: "wip_ready h b w" and last: "last (entry_bytes h w) = newline"
    and len: "length (cb_list b) \<noteq> AESDCHAR_MAX_WRITE_OPERATIONS_SUPPORTED"
  shows "\<exists>b'. flush_wip h (Some b) w = Inr (h, Some b', null_entry) \<and> buf_wf h b' null_entry \<and>
    cmds (buf_abs h b' null_entry) = map (entry_bytes h) (cb_list b) @ [entry_bytes h w] \<and>
    ptrs (cb_list b') = ptrs (cb_list b @ [w])"
proof -
  have cwf: "cb_wf b" using ready by (simp add: wip_ready_def)
  obtain b' where b': "aesd_circular_buffer_add_entry b w = Inr (b', None)" "cb_wf b'"
    "cb_list b' = cb_list b @ [w]"
    using cb.addE [OF cwf, of w] len by auto
  then show ?thesis
    using ready last
    by (intro exI [of _ b'])
      (auto simp: flush_wip_def load_last wip_ready_def buf_wf_def wip_ok_def cmd_ok_def
        null_entry_def [symmetric] buf_abs_def cb_sizes_def)
qed

lemma flush_wip_ok:
  assumes ready: "wip_ready h b w"
  shows "\<exists>h' b' w'. flush_wip h (Some b) w = Inr (h', Some b', w') \<and> buf_wf h' b' w' \<and>
    buf_abs h' b' w' =
      write_log \<lparr>cmds = map (entry_bytes h) (cb_list b), partial_cmd = []\<rparr> (entry_bytes h w) \<and>
    (dom h = set (ptrs (cb_list b @ [w])) \<longrightarrow> dom h' = set (ptrs (cb_list b' @ [w'])))"
proof -
  let ?full = "length (cb_list b) = AESDCHAR_MAX_WRITE_OPERATIONS_SUPPORTED"
  have le: "length (cb_list b) \<le> AESDCHAR_MAX_WRITE_OPERATIONS_SUPPORTED"
    using ready cb_list_bound by (simp add: wip_ready_def)
  have dist: "distinct (ptrs (cb_list b @ [w]))" using ready by (simp add: wip_ready_def)
  consider (keep) "last (entry_bytes h w) \<noteq> newline" | (full) "last (entry_bytes h w) = newline" ?full
    | (append) "last (entry_bytes h w) = newline" "\<not> ?full"
    by blast
  then show ?thesis
  proof cases
    case keep
    then show ?thesis
      using flush_wip_keep [OF ready keep] by (simp add: write_log_def buf_abs_def)
  next
    case full
    obtain h' b' where h': "flush_wip h (Some b) w = Inr (h', Some b', null_entry)"
      "buf_wf h' b' null_entry"
      "cmds (buf_abs h' b' null_entry) = tl (map (entry_bytes h) (cb_list b)) @ [entry_bytes h w]"
      "dom h' = dom h - {hd (ptrs (cb_list b))}" "ptrs (cb_list b') = tl (ptrs (cb_list b @ [w]))"
      using flush_wip_full [OF ready full] by blast
    have "ptrs (cb_list b) \<noteq> []"
      using ready full(2) by (cases "cb_list b") (auto simp: wip_ready_def cmd_ok_def elim!: entry_okE)
    then have "set (tl (ptrs (cb_list b @ [w]))) = set (ptrs (cb_list b @ [w])) - {hd (ptrs (cb_list b))}"
      using dist by (cases "ptrs (cb_list b)") auto
    then show ?thesis
      using h' full
      by (intro exI [of _ h'] exI [of _ b'] exI [of _ null_entry])
        (auto simp: write_log_def keep_last_snoc buf_abs_def)
  next
    case append
    obtain b' where "flush_wip h (Some b) w = Inr (h, Some b', null_entry)"
      "buf_wf h b' null_entry"
      "cmds (buf_abs h b' null_entry) = map (entry_bytes h) (cb_list b) @ [entry_bytes h w]"
      "ptrs (cb_list b') = ptrs (cb_list b @ [w])"
      using flush_wip_append [OF ready append] by blast
    then show ?thesis
      using append le
      by (intro exI [of _ h] exI [of _ b'] exI [of _ null_entry])
        (auto simp: write_log_def keep_last_snoc buf_abs_def)
  qed
qed

section \<open>Building the new working entry\<close>

lemma splice_three:
  assumes "length junk = length old + length bs + 1"
  shows "splice (length old) bs (splice 0 old (splice (length old + length bs) [z] junk)) =
    old @ bs @ [z]"
  using assms by (simp add: splice_def)

text \<open>
  The writes into the fresh block, in the order of the code: the terminator, the bytes of
  the old working entry, the bytes from user space.
\<close>

lemma write_block:
  assumes wok: "wip_ok h w" and fresh: "h p = None"
    and len: "length junk = unat (esize w) + length bs + 1"
    and last: "unat (esize w + count) = unat (esize w) + length bs"
  shows "fill_block (h(p \<mapsto> junk)) p w count bs = Inr (h(p \<mapsto> entry_bytes h w @ bs @ [nul]))"
proof -
  let ?n = "unat (esize w)" and ?old = "entry_bytes h w"
  let ?h1 = "h(p \<mapsto> splice (?n + length bs) [nul] junk)"
  have old: "length ?old = ?n" by (rule wip_length [OF wok])
  have s1: "store (h(p \<mapsto> junk)) (Some p) (unat (esize w + count)) [nul] = Inr ?h1"
    unfolding last using len by (simp add: store_def)
  have s2: "(if buffptr w \<noteq> None
      then bindR (load ?h1 (buffptr w) 0 ?n) (\<lambda>old. store ?h1 (Some p) 0 old) else Inr ?h1) =
    Inr (h(p \<mapsto> splice 0 ?old (splice (?n + length bs) [nul] junk)))"
  proof (cases "buffptr w")
    case None
    then have "?old = []" by (simp add: entry_bytes_def)
    then show ?thesis using None by (simp add: splice_def)
  next
    case (Some a)
    then have "entry_ok h w" using wok by (auto simp: wip_ok_def)
    then obtain blk where "h a = Some blk" "length blk = Suc ?n" "?old = take ?n blk"
      using Some by (auto elim: entry_okE)
    moreover have "a \<noteq> p" using fresh calculation by auto
    ultimately show ?thesis
      using Some len by (simp add: load_def store_def)
  qed
  show ?thesis
    unfolding fill_block_def s1 bindR_Inr s2
    using len old splice_three [of junk ?old bs nul] by (simp add: store_def)
qed

section \<open>A whole write\<close>

text \<open>The bytes the device holds before and after fit comfortably into the integers.\<close>

definition write_fits :: "drv \<Rightarrow> byte list \<Rightarrow> size_t \<Rightarrow> bool" where
  "write_fits s buf count \<longleftrightarrow>
     unat count = length buf \<and> log_bytes (dev_abs s) + length buf < 2 ^ 63"

text \<open>The working entry after the copy, ready to be inspected.\<close>

lemma wip_ready_new:
  fixes s :: drv
  assumes bwf: "buf_wf h b w" and fresh: "h p = None"
    and size: "unat (esize w + count) = unat (esize w) + length bs"
    and bound: "sum_list (cb_sizes b) + unat (esize w) + length bs < 2 ^ 63"
    and ne: "entry_bytes h w @ bs \<noteq> []"
    and h': "h' = (case buffptr w of None \<Rightarrow> h(p \<mapsto> entry_bytes h w @ bs @ [nul])
                   | Some a \<Rightarrow> h(p \<mapsto> entry_bytes h w @ bs @ [nul], a := None))"
    and w': "w' = \<lparr>buffptr = Some p, esize = esize w + count\<rparr>"
  shows "wip_ready h' b w'" and "entry_bytes h' w' = entry_bytes h w @ bs"
    and "map (entry_bytes h') (cb_list b) = map (entry_bytes h) (cb_list b)"
    and "dom h = set (ptrs (cb_list b @ [w])) \<Longrightarrow> dom h' = set (ptrs (cb_list b @ [w']))"
proof -
  let ?blk = "entry_bytes h w @ bs @ [nul]"
  have cwf: "cb_wf b" and ok: "\<forall>en \<in> set (cb_list b). cmd_ok h en" and wok: "wip_ok h w"
    and dist: "distinct (ptrs (cb_list b @ [w]))"
    using bwf by (simp_all add: buf_wf_def)
  have old: "length (entry_bytes h w) = unat (esize w)" by (rule wip_length [OF wok])
  have p: "p \<notin> set (ptrs (cb_list b))" "buffptr w \<noteq> Some p"
    by (rule fresh_not_owned(3) [OF fresh ok]) (rule fresh_not_owned(2) [OF fresh wok])
  have wa: "a \<notin> set (ptrs (cb_list b))" if "buffptr w = Some a" for a
    using dist that by simp
  have h'p: "h' p = Some ?blk"
    using p(2) by (auto simp: h' split: option.splits)
  have frame: "map (entry_bytes h') (cb_list b) = map (entry_bytes h) (cb_list b) \<and>
      (\<forall>en \<in> set (cb_list b). cmd_ok h' en) = (\<forall>en \<in> set (cb_list b). cmd_ok h en)"
    using cmds_frame [OF p(1)] cmds_frame [OF wa] by (auto simp: h' split: option.splits)
  then show "map (entry_bytes h') (cb_list b) = map (entry_bytes h) (cb_list b)" by simp
  show bytes: "entry_bytes h' w' = entry_bytes h w @ bs"
    unfolding entry_bytes_def [of h' w'] using old by (simp add: w' h'p size)
  have "entry_ok h' w'"
    using ne old by (auto simp: entry_ok_def w' h'p size nth_append)
  then show "wip_ready h' b w'"
    using cwf ok frame dist p(1) bound by (simp add: wip_ready_def w' size)
  show "dom h' = set (ptrs (cb_list b @ [w']))" if "dom h = set (ptrs (cb_list b @ [w]))"
    using that p fresh wa by (auto simp: h' w' split: option.splits)
qed

lemma unat_wip_count:
  assumes bwf: "buf_wf (heap s) b (wip_entry (aesd_device s))"
    and l: "dev_abs s = buf_abs (heap s) b (wip_entry (aesd_device s))"
    and fits: "write_fits s buf count"
  shows "unat (esize (wip_entry (aesd_device s)) + count) =
      unat (esize (wip_entry (aesd_device s))) + length buf"
    and "unat (esize (wip_entry (aesd_device s)) + count + 1) =
      unat (esize (wip_entry (aesd_device s))) + length buf + 1"
    and "sum_list (cb_sizes b) + unat (esize (wip_entry (aesd_device s))) + length buf < 2 ^ 63"
proof -
  let ?w = "wip_entry (aesd_device s)"
  have w: "length (entry_bytes (heap s) ?w) = unat (esize ?w)"
    using bwf by (intro wip_length) (simp add: buf_wf_def)
  have c: "unat count = length buf" using fits by (simp add: write_fits_def)
  show b: "sum_list (cb_sizes b) + unat (esize ?w) + length buf < 2 ^ 63"
    using fits buf_wf_sizes(2) [OF bwf] w
    by (simp add: write_fits_def log_bytes_def l) (simp add: buf_abs_def)
  then show s1: "unat (esize ?w + count) = unat (esize ?w) + length buf"
    by (subst unat_add_fits) (simp_all add: c)
  show "unat (esize ?w + count + 1) = unat (esize ?w) + length buf + 1"
    using b by (subst unat_add_fits) (simp_all add: s1)
qed

lemma aesd_write_eq:
  assumes wf: "dev_wf s" and pd: "private_data filp" and intr: "mutex_lock_interruptible e = 0"
    and env: "kenv_ok e" and fits: "write_fits s buf count"
    and alloc: "kmalloc e (heap s) (esize (wip_entry (aesd_device s)) + count + 1) = Some (p, junk)"
    and copied: "snd (copy_from_user e buf) = 0"
    and ne: "partial_cmd (dev_abs s) @ buf \<noteq> []"
  shows "\<exists>s'. aesd_write e s filp buf count pos =
      Inr (s', of_nat (length (content (dev_abs s'))) - 1, count) \<and>
    dev_wf s' \<and> dev_abs s' = write_log (dev_abs s) buf \<and> (leak_free s \<longrightarrow> leak_free s')"
proof -
  obtain b where b: "buffer (aesd_device s) = Some b" "\<not> lock (aesd_device s)"
    and bwf: "buf_wf (heap s) b (wip_entry (aesd_device s))"
    and l: "dev_abs s = buf_abs (heap s) b (wip_entry (aesd_device s))"
    using wf by (rule dev_wfE)
  let ?w = "wip_entry (aesd_device s)"
  define w' where "w' = \<lparr>buffptr = Some p, esize = esize ?w + count\<rparr>"
  define h3 where "h3 = (heap s)(p \<mapsto> entry_bytes (heap s) ?w @ buf @ [nul])"
  define h4 where "h4 = (case buffptr ?w of None \<Rightarrow> h3 | Some a \<Rightarrow> h3(a := None))"
  note sizes = unat_wip_count [OF bwf l fits]
  have wok: "wip_ok (heap s) ?w" using bwf by (simp add: buf_wf_def)
  have fresh: "heap s p = None" and junk: "length junk = unat (esize ?w) + length buf + 1"
    using env alloc sizes(2) unfolding kenv_ok_def by metis+
  have from_user: "copy_from_user e buf = (buf, 0)"
    using env copied by (metis kenv_ok_def prod.collapse)
  have ne': "entry_bytes (heap s) ?w @ buf \<noteq> []" using ne by (simp add: l buf_abs_def)
  have "h4 = (case buffptr ?w of None \<Rightarrow> (heap s)(p \<mapsto> entry_bytes (heap s) ?w @ buf @ [nul])
      | Some a \<Rightarrow> (heap s)(p \<mapsto> entry_bytes (heap s) ?w @ buf @ [nul], a := None))"
    by (simp add: h4_def h3_def split: option.split)
  note new = wip_ready_new [OF bwf fresh sizes(1,3) ne' this w'_def]
  obtain h5 b' w'' where fl: "flush_wip h4 (Some b) w' = Inr (h5, Some b', w'')"
    and bwf': "buf_wf h5 b' w''"
    and abs': "buf_abs h5 b' w'' =
      write_log \<lparr>cmds = map (entry_bytes h4) (cb_list b), partial_cmd = []\<rparr> (entry_bytes h4 w')"
    and dom': "dom h4 = set (ptrs (cb_list b @ [w'])) \<longrightarrow> dom h5 = set (ptrs (cb_list b' @ [w'']))"
    using flush_wip_ok [OF new(1)] by blast
  define s' where "s' = s\<lparr>heap := h5, aesd_device :=
    (aesd_device s)\<lparr>buffer := Some b', wip_entry := w'', lock := False\<rparr>\<rparr>"
  have free: "free_block h3 (buffptr ?w) = Inr h4"
    using wok fresh by (auto simp: h4_def h3_def wip_ok_def entry_ok_def free_block_def
        split: option.splits)
  have "aesd_write e s filp buf count pos = Inr (s', aesd_circular_buffer_size b' - 1, count)"
    using b pd intr alloc write_block [OF wok fresh junk sizes(1)] fl free
    by (simp add: aesd_write_def Let_def from_user h3_def [symmetric] w'_def [symmetric])
      (simp add: s'_def set_lock_def)
  moreover have "dev_wf s'"
    using bwf' by (simp add: dev_wf_def s'_def)
  moreover have abs: "dev_abs s' = write_log (dev_abs s) buf"
    using abs' new(2,3) by (simp add: dev_abs_def s'_def b write_log_def Let_def) (simp add: buf_abs_def)
  moreover have "aesd_circular_buffer_size b' = of_nat (length (content (dev_abs s')))"
    using unat_cb_size [OF _ buf_wf_sizes(4) [OF bwf']] bwf' buf_wf_sizes(2) [OF bwf']
    by (simp add: buf_wf_def dev_abs_def s'_def) (metis of_nat_unat64)
  moreover have "leak_free s \<longrightarrow> leak_free s'"
    using dom' new(4) b by (simp add: leak_free_def s'_def)
  ultimately show ?thesis by auto
qed

section \<open>The early exits\<close>

lemma aesd_write_no_lock:
  "private_data filp \<Longrightarrow> mutex_lock_interruptible e \<noteq> 0 \<Longrightarrow>
   aesd_write e s filp buf count pos = Inr (s, pos, - ERESTARTSYS)"
  by (simp add: aesd_write_def)

lemma aesd_write_no_memory:
  assumes "dev_wf s" and "private_data filp" and "mutex_lock_interruptible e = 0"
    and "kmalloc e (heap s) (esize (wip_entry (aesd_device s)) + count + 1) = None"
  shows "aesd_write e s filp buf count pos = Inr (s, pos, - ENOMEM)"
  using assms by (auto simp: aesd_write_def Let_def elim: dev_wfE)

text \<open>The block of a write whose copy failed stays allocated and no entry points to it.\<close>

lemma aesd_write_efault:
  assumes wf: "dev_wf s" and pd: "private_data filp" and intr: "mutex_lock_interruptible e = 0"
    and env: "kenv_ok e" and fits: "write_fits s buf count"
    and alloc: "kmalloc e (heap s) (esize (wip_entry (aesd_device s)) + count + 1) = Some (p, junk)"
    and left: "snd (copy_from_user e buf) \<noteq> 0"
  shows "\<exists>blk. aesd_write e s filp buf count pos =
      Inr (s\<lparr>heap := (heap s)(p \<mapsto> blk)\<rparr>, pos, - EFAULT) \<and> heap s p = None \<and>
    dev_wf (s\<lparr>heap := (heap s)(p \<mapsto> blk)\<rparr>) \<and>
    dev_abs (s\<lparr>heap := (heap s)(p \<mapsto> blk)\<rparr>) = dev_abs s"
proof -
  obtain b where b: "buffer (aesd_device s) = Some b" "\<not> lock (aesd_device s)"
    and bwf: "buf_wf (heap s) b (wip_entry (aesd_device s))"
    and l: "dev_abs s = buf_abs (heap s) b (wip_entry (aesd_device s))"
    using wf by (rule dev_wfE)
  let ?w = "wip_entry (aesd_device s)"
  note sizes = unat_wip_count [OF bwf l fits]
  obtain bs rest where cu: "copy_from_user e buf = (bs, rest)" by (cases "copy_from_user e buf")
  have len: "length bs = length buf"
    using env cu unfolding kenv_ok_def by (metis fst_conv)
  let ?blk = "entry_bytes (heap s) ?w @ bs @ [nul]"
  let ?s = "s\<lparr>heap := (heap s)(p \<mapsto> ?blk)\<rparr>"
  have wok: "wip_ok (heap s) ?w" and ok: "\<forall>en \<in> set (cb_list b). cmd_ok (heap s) en"
    using bwf by (simp_all add: buf_wf_def)
  have fresh: "heap s p = None" and junk: "length junk = unat (esize ?w) + length bs + 1"
    using env alloc sizes(2) len unfolding kenv_ok_def by metis+
  have last: "unat (esize ?w + count) = unat (esize ?w) + length bs"
    using sizes(1) len by simp
  have p: "p \<notin> set (ptrs (cb_list b))" "buffptr ?w \<noteq> Some p"
    by (rule fresh_not_owned(3) [OF fresh ok]) (rule fresh_not_owned(2) [OF fresh wok])
  have "aesd_write e s filp buf count pos = Inr (?s, pos, - EFAULT)"
    using b pd intr alloc left write_block [OF wok fresh junk last]
    by (simp add: aesd_write_def Let_def cu set_lock_def)
  moreover have "dev_wf ?s"
    using bwf b by (simp add: dev_wf_def buf_wf_def cmds_frame(2) [OF p(1)] entry_frame(4) [OF p(2)])
  moreover have "dev_abs ?s = dev_abs s"
    by (simp add: dev_abs_def b buf_abs_def cmds_frame(1) [OF p(1)] entry_frame(1) [OF p(2)])
  ultimately show ?thesis using fresh by blast
qed

text \<open>
  A write of no bytes while no command is unfinished reads \<open>buffptr[size - 1]\<close> with
  \<open>size = 0\<close>.
\<close>

lemma aesd_write_empty:
  assumes wf: "dev_wf s" and pd: "private_data filp" and intr: "mutex_lock_interruptible e = 0"
    and env: "kenv_ok e"
    and alloc: "kmalloc e (heap s) (esize (wip_entry (aesd_device s)) + 0 + 1) = Some (p, junk)"
    and copied: "snd (copy_from_user e []) = 0"
    and none: "partial_cmd (dev_abs s) = []"
  shows "aesd_write e s filp [] 0 pos = Inl OutOfBounds"
proof -
  obtain b where b: "buffer (aesd_device s) = Some b" "\<not> lock (aesd_device s)"
    and bwf: "buf_wf (heap s) b (wip_entry (aesd_device s))"
    and l: "dev_abs s = buf_abs (heap s) b (wip_entry (aesd_device s))"
    using wf by (rule dev_wfE)
  let ?w = "wip_entry (aesd_device s)"
  have wok: "wip_ok (heap s) ?w" using bwf by (simp add: buf_wf_def)
  then have w: "?w = null_entry"
    using none l entry_bytes_nonempty by (auto simp: wip_ok_def buf_abs_def)
  have fresh: "heap s p = None" and junk: "length junk = 1"
    using env alloc w unfolding kenv_ok_def by fastforce+
  have from_user: "copy_from_user e [] = ([], 0)"
    using env copied by (metis kenv_ok_def prod.collapse)
  have "fill_block ((heap s)(p \<mapsto> junk)) p ?w 0 [] = Inr ((heap s)(p \<mapsto> [nul]))"
    using write_block [OF wok fresh, of junk "[]" 0] junk w by simp
  then show ?thesis
    using b pd intr alloc from_user w
    by (simp add: aesd_write_def Let_def flush_wip_def load_def unat_gt_0)
qed

text \<open>Every outcome of a write.\<close>

lemma aesd_write_cases:
  assumes wf: "dev_wf s" and pd: "private_data filp" and env: "kenv_ok e"
    and fits: "write_fits s buf count"
  shows "case aesd_write e s filp buf count pos of
      Inl f \<Rightarrow> f = OutOfBounds \<and> buf = [] \<and> partial_cmd (dev_abs s) = []
    | Inr (s', pos', ret) \<Rightarrow> dev_wf s' \<and>
        (ret = count \<and> pos' = of_nat (length (content (dev_abs s'))) - 1 \<and>
           dev_abs s' = write_log (dev_abs s) buf \<or>
         ret \<in> {- ERESTARTSYS, - ENOMEM, - EFAULT} \<and> pos' = pos \<and> dev_abs s' = dev_abs s)"
proof (cases "mutex_lock_interruptible e = 0")
  case False
  then show ?thesis using wf pd by (simp add: aesd_write_no_lock)
next
  case intr: True
  show ?thesis
  proof (cases "kmalloc e (heap s) (esize (wip_entry (aesd_device s)) + count + 1)")
    case None
    then show ?thesis using aesd_write_no_memory [OF wf pd intr None] wf by simp
  next
    case (Some pj)
    obtain p junk where alloc:
      "kmalloc e (heap s) (esize (wip_entry (aesd_device s)) + count + 1) = Some (p, junk)"
      using Some by (cases pj) simp
    consider "snd (copy_from_user e buf) \<noteq> 0"
      | "snd (copy_from_user e buf) = 0" "partial_cmd (dev_abs s) @ buf \<noteq> []"
      | "snd (copy_from_user e buf) = 0" "partial_cmd (dev_abs s) = []" "buf = []"
      by blast
    then show ?thesis
    proof cases
      case 1
      then obtain blk where
        "aesd_write e s filp buf count pos = Inr (s\<lparr>heap := (heap s)(p \<mapsto> blk)\<rparr>, pos, - EFAULT)"
        "dev_wf (s\<lparr>heap := (heap s)(p \<mapsto> blk)\<rparr>)"
        "dev_abs (s\<lparr>heap := (heap s)(p \<mapsto> blk)\<rparr>) = dev_abs s"
        using aesd_write_efault [OF wf pd intr env fits alloc] by blast
      then show ?thesis by simp
    next
      case 2
      then obtain s' where "aesd_write e s filp buf count pos =
          Inr (s', of_nat (length (content (dev_abs s'))) - 1, count)"
        "dev_wf s'" "dev_abs s' = write_log (dev_abs s) buf"
        using aesd_write_eq [OF wf pd intr env fits alloc] by blast
      then show ?thesis by simp
    next
      case 3
      then have "count = 0" using fits by (simp add: write_fits_def unat_eq_zero)
      then show ?thesis using aesd_write_empty [OF wf pd intr env] alloc 3 by simp
    qed
  qed
qed

section \<open>Properties\<close>

text \<open>
  C17: a successful \<open>aesd_write\<close> refines the append of the abstract device. For a write of at
  least one byte, or any write while a command is unfinished, with the mutex obtained, the
  block allocated and the bytes copied, no memory access faults, the bytes are appended to
  the unfinished command and, when the result ends with a newline, the command enters the
  buffer and the oldest of eleven leaves it; the invariant is kept, the dropped block is
  freed, and \<open>count\<close> is returned.
\<close>

theorem aesd_write_refines:
  assumes "dev_wf s" and "private_data filp" and "mutex_lock_interruptible e = 0"
    and "kenv_ok e" and "write_fits s buf count"
    and "kmalloc e (heap s) (esize (wip_entry (aesd_device s)) + count + 1) \<noteq> None"
    and "snd (copy_from_user e buf) = 0" and "partial_cmd (dev_abs s) @ buf \<noteq> []"
  shows "\<exists>s' pos'. aesd_write e s filp buf count pos = Inr (s', pos', count) \<and> dev_wf s' \<and>
    dev_abs s' = write_log (dev_abs s) buf \<and> (leak_free s \<longrightarrow> leak_free s')"
proof -
  obtain p junk where
    "kmalloc e (heap s) (esize (wip_entry (aesd_device s)) + count + 1) = Some (p, junk)"
    using assms(6) by auto
  from aesd_write_eq [OF assms(1-5) this assms(7,8)] show ?thesis by blast
qed

lemma drv_example_fits: "write_fits drv_example [121, newline] 2"
  by (simp add: write_fits_def drv_example_abs log_bytes_def content_def)

lemma drv_example_alloc: "kmalloc kenv_example (heap drv_example) n = Some (3, replicate (unat n) 0xAA)"
  by (rule kenv_example_alloc) (auto simp: drv_example_def less_Suc_eq numeral_eq_Suc)

theorem aesd_write_refines_witness:
  "\<exists>s' pos'. aesd_write kenv_example drv_example file_example [121, newline] 2 0 = Inr (s', pos', 2) \<and>
     dev_abs s' = \<lparr>cmds = [[97, 98, newline], [99, newline], [120, 121, newline]], partial_cmd = []\<rparr> \<and>
     leak_free s'"
  using aesd_write_refines [OF drv_example_wf _ _ kenv_example_ok drv_example_fits, of file_example 0]
  by (auto simp: file_example_def drv_example_alloc drv_example_abs drv_example_leak_free write_log_def)

text \<open>
  C26: every outcome of \<open>aesd_write\<close>. It faults only when no byte is written while no command is
  unfinished. Otherwise the invariant holds afterwards, with the mutex free, and either the
  write succeeded or the result is one of \<open>-ERESTARTSYS\<close>, \<open>-ENOMEM\<close>, \<open>-EFAULT\<close> and neither
  the commands nor the position have changed.
\<close>

theorem aesd_write_outcomes:
  assumes "dev_wf s" and "private_data filp" and "kenv_ok e" and "write_fits s buf count"
  shows "case aesd_write e s filp buf count pos of
      Inl f \<Rightarrow> f = OutOfBounds \<and> buf = [] \<and> partial_cmd (dev_abs s) = []
    | Inr (s', pos', ret) \<Rightarrow> dev_wf s' \<and>
        (ret = count \<and> dev_abs s' = write_log (dev_abs s) buf \<or>
         ret \<in> {- ERESTARTSYS, - ENOMEM, - EFAULT} \<and> pos' = pos \<and> dev_abs s' = dev_abs s)"
  using aesd_write_cases [OF assms, of pos] by (auto split: sum.splits prod.splits)

theorem aesd_write_outcomes_witness:
  "case aesd_write (kenv_example\<lparr>copy_from_user := \<lambda>bs. (bs, 1)\<rparr>) drv_example file_example
      [121, newline] 2 0 of
      Inl f \<Rightarrow> False
    | Inr (s', pos', ret) \<Rightarrow> dev_wf s'"
proof -
  let ?e = "kenv_example\<lparr>copy_from_user := \<lambda>bs. (bs, 1)\<rparr>"
  have "kenv_ok ?e" using kenv_example_ok by (simp add: kenv_ok_def)
  then show ?thesis
    using aesd_write_outcomes [OF drv_example_wf _ _ drv_example_fits, of file_example ?e 0]
    by (auto simp: file_example_def split: sum.splits)
qed

text \<open>
  A write whose \<open>copy_from_user\<close> fails loses memory. The block allocated for the new working
  entry stays allocated, no entry of the device owns it, and no later operation frees it.
\<close>

theorem aesd_write_efault_leaks:
  assumes "dev_wf s" and "private_data filp" and "mutex_lock_interruptible e = 0"
    and "kenv_ok e" and "write_fits s buf count"
    and "kmalloc e (heap s) (esize (wip_entry (aesd_device s)) + count + 1) = Some (p, junk)"
    and "snd (copy_from_user e buf) \<noteq> 0"
  shows "\<exists>s'. aesd_write e s filp buf count pos = Inr (s', pos, - EFAULT) \<and>
    dom (heap s') = insert p (dom (heap s)) \<and> p \<notin> dom (heap s) \<and>
    aesd_device s' = aesd_device s \<and> \<not> leak_free s'"
proof -
  obtain b where b: "buffer (aesd_device s) = Some b"
    "buf_wf (heap s) b (wip_entry (aesd_device s))"
    using assms(1) by (rule dev_wfE)
  obtain blk where
    w: "aesd_write e s filp buf count pos = Inr (s\<lparr>heap := (heap s)(p \<mapsto> blk)\<rparr>, pos, - EFAULT)"
    and p: "heap s p = None"
    using aesd_write_efault [OF assms] by blast
  have "p \<notin> set (ptrs (cb_list b @ [wip_entry (aesd_device s)]))"
    using fresh_not_owned(2) [of "heap s" p "wip_entry (aesd_device s)"]
      fresh_not_owned(3) [of "heap s" p "cb_list b"] p b(2)
    by (auto simp: buf_wf_def split: option.splits)
  then have "dom ((heap s)(p \<mapsto> blk)) \<noteq> set (ptrs (cb_list b @ [wip_entry (aesd_device s)]))"
    by auto
  then show ?thesis
    using w p b(1) by (auto simp: leak_free_def)
qed

theorem aesd_write_efault_leaks_witness:
  "\<exists>s'. aesd_write (kenv_example\<lparr>copy_from_user := \<lambda>bs. (bs, 1)\<rparr>) drv_example file_example
      [121, newline] 2 0 = Inr (s', 0, - EFAULT) \<and> leak_free drv_example \<and> \<not> leak_free s'"
proof -
  let ?e = "kenv_example\<lparr>copy_from_user := \<lambda>bs. (bs, 1)\<rparr>"
  have "kenv_ok ?e" using kenv_example_ok by (simp add: kenv_ok_def)
  moreover have "kmalloc ?e = kmalloc kenv_example" by simp
  ultimately show ?thesis
    using aesd_write_efault_leaks [OF drv_example_wf _ _ _ drv_example_fits, of file_example ?e 3 _ 0]
    by (auto simp: file_example_def drv_example_alloc drv_example_leak_free)
qed

text \<open>
  A write of no bytes while no command is unfinished is a read outside the block: with
  \<open>size = 0\<close> the check for the newline reads \<open>buffptr[size - 1]\<close>.
\<close>

theorem aesd_write_empty_faults:
  assumes "dev_wf s" and "private_data filp" and "mutex_lock_interruptible e = 0" and "kenv_ok e"
    and "kmalloc e (heap s) (esize (wip_entry (aesd_device s)) + 0 + 1) \<noteq> None"
    and "snd (copy_from_user e []) = 0" and "partial_cmd (dev_abs s) = []"
  shows "aesd_write e s filp [] 0 pos = Inl OutOfBounds"
  using assms(5) aesd_write_empty [OF assms(1-4) _ assms(6,7)] by auto

definition drv_empty :: drv where
  "drv_empty = \<lparr>heap = Map.empty, aesd_device =
     \<lparr>buffer = Some aesd_circular_buffer_init, wip_entry = null_entry, lock = False\<rparr>\<rparr>"

lemma drv_empty_ok:
  "dev_wf drv_empty" "dev_abs drv_empty = \<lparr>cmds = [], partial_cmd = []\<rparr>"
  "kmalloc kenv_example (heap drv_empty) n = Some (0, replicate (unat n) 0xAA)"
  by (simp_all add: drv_empty_def dev_wf_def buf_wf_def dev_abs_def buf_abs_def wip_ok_def
      cb_sizes_def kenv_example_alloc)

theorem aesd_write_empty_faults_witness:
  "aesd_write kenv_example drv_empty file_example [] 0 0 = Inl OutOfBounds"
  by (rule aesd_write_empty_faults)
    (simp_all add: drv_empty_ok file_example_def kenv_example_ok)

end
