(* ===== verification/ModuleInit.thy ===== *)
theory ModuleInit
  imports DriverInv
begin

text \<open>
  Loading and unloading of the module in \<open>aesd-char-driver/main.c\<close>: \<open>aesd_init_module\<close>,
  \<open>aesd_setup_cdev\<close> and \<open>aesd_cleanup_module\<close>. What the kernel answers is an argument; the
  registrations the module holds with the kernel are part of the state.
\<close>

section \<open>Model\<close>

text \<open>
  \<open>alloc_chrdev_region\<close> gives its return value and the major number it stored,
  \<open>kmalloc_buffer\<close> says whether \<open>kmalloc\<close> found room for the buffer struct, \<open>cdev_add\<close> is
  the return value of that function.
\<close>

record init_env =
  alloc_chrdev_region :: "s32 \<times> nat"
  kmalloc_buffer :: bool
  cdev_add :: s32

text \<open>
  \<open>region\<close> says whether the device region is registered, \<open>cdev_live\<close> whether the character
  device is. The field \<open>buffer\<close> of the device is \<open>Some\<close> exactly while the buffer struct is
  allocated.
\<close>

record module_state =
  driver :: drv
  aesd_major :: nat
  region :: bool
  cdev_live :: bool

definition module_unloaded :: module_state where
  "module_unloaded =
     \<lparr>driver = \<lparr>heap = Map.empty, aesd_device = \<lparr>buffer = None, wip_entry = null_entry, lock = False\<rparr>\<rparr>,
      aesd_major = 0, region = False, cdev_live = False\<rparr>"

definition aesd_setup_cdev :: "init_env \<Rightarrow> module_state \<Rightarrow> module_state \<times> s32" where
  "aesd_setup_cdev e m =
     (let err = cdev_add e in (if err \<noteq> 0 then m else m\<lparr>cdev_live := True\<rparr>, err))"

definition aesd_init_module :: "init_env \<Rightarrow> module_state \<Rightarrow> module_state \<times> s32" where
  "aesd_init_module e m =
     (let (result, major) = alloc_chrdev_region e;
          m = m\<lparr>aesd_major := major\<rparr>
      in if sint result < 0 then (m, result)
         else
           let m = m\<lparr>region := True\<rparr>;
               d = \<lparr>buffer = None, wip_entry = null_entry, lock = False\<rparr>
           in if \<not> kmalloc_buffer e
              then (m\<lparr>driver := (driver m)\<lparr>aesd_device := d\<rparr>\<rparr>, - 12)
              else
                let d = d\<lparr>buffer := Some aesd_circular_buffer_init, lock := False\<rparr>;
                    (m, result) = aesd_setup_cdev e (m\<lparr>driver := (driver m)\<lparr>aesd_device := d\<rparr>\<rparr>)
                in (if result \<noteq> 0 then m\<lparr>region := False\<rparr> else m, result))"

text \<open>The loop \<open>AESD_CIRCULAR_BUFFER_FOREACH\<close> of \<open>aesd_cleanup_module\<close>.\<close>

fun cleanup_loop :: "heap \<Rightarrow> aesd_buffer_entry list \<Rightarrow> heap res" where
  "cleanup_loop h [] = Inr h"
| "cleanup_loop h (en # ens) =
     bindR (if buffptr en \<noteq> None then free_block h (buffptr en) else Inr h) (\<lambda>h'.
     cleanup_loop h' ens)"

definition aesd_cleanup_module :: "module_state \<Rightarrow> module_state res" where
  "aesd_cleanup_module m =
     (let m = m\<lparr>cdev_live := False\<rparr>; s = driver m; d = aesd_device s in
      bindR (case buffer d of None \<Rightarrow> Inr (heap s)
             | Some b \<Rightarrow> cleanup_loop (heap s) (entry b)) (\<lambda>h.
      let d = d\<lparr>buffer := None\<rparr> in
      bindR (if buffptr (wip_entry d) \<noteq> None then free_block h (buffptr (wip_entry d)) else Inr h) (\<lambda>h'.
      Inr (m\<lparr>driver := \<lparr>heap = h', aesd_device = d\<rparr>, region := False\<rparr>))))"

section \<open>Loading\<close>

definition module_ready :: "module_state \<Rightarrow> bool" where
  "module_ready m \<longleftrightarrow> region m \<and> cdev_live m \<and> dev_wf (driver m) \<and> leak_free (driver m) \<and>
     dev_abs (driver m) = \<lparr>cmds = [], partial_cmd = []\<rparr>"

lemma init_module_cases:
  assumes "aesd_init_module e module_unloaded = (m, result)"
  shows "sint (fst (alloc_chrdev_region e)) < 0 \<Longrightarrow>
      result = fst (alloc_chrdev_region e) \<and> \<not> region m \<and> \<not> cdev_live m \<and>
      buffer (aesd_device (driver m)) = None"
    and "\<not> sint (fst (alloc_chrdev_region e)) < 0 \<Longrightarrow> \<not> kmalloc_buffer e \<Longrightarrow>
      result = - 12 \<and> region m \<and> \<not> cdev_live m \<and> buffer (aesd_device (driver m)) = None"
    and "\<not> sint (fst (alloc_chrdev_region e)) < 0 \<Longrightarrow> kmalloc_buffer e \<Longrightarrow> cdev_add e \<noteq> 0 \<Longrightarrow>
      result = cdev_add e \<and> \<not> region m \<and> \<not> cdev_live m \<and>
      buffer (aesd_device (driver m)) = Some aesd_circular_buffer_init"
    and "\<not> sint (fst (alloc_chrdev_region e)) < 0 \<Longrightarrow> kmalloc_buffer e \<Longrightarrow> cdev_add e = 0 \<Longrightarrow>
      result = 0 \<and> module_ready m"
  using assms
  by (auto simp: aesd_init_module_def aesd_setup_cdev_def module_unloaded_def module_ready_def
      Let_def dev_wf_def buf_wf_def wip_ok_def leak_free_def dev_abs_def buf_abs_def cb_sizes_def
      split: prod.splits)

section \<open>Unloading\<close>

lemma cleanup_loop_eq:
  assumes "distinct (ptrs ens)" and "set (ptrs ens) \<subseteq> dom h"
  shows "cleanup_loop h ens = Inr (h |` (- set (ptrs ens)))"
  using assms
proof (induction ens arbitrary: h)
  case Nil
  show ?case by (simp add: restrict_map_def)
next
  case (Cons en ens)
  show ?case
  proof (cases "buffptr en")
    case None
    with Cons show ?thesis by simp
  next
    case (Some a)
    then have "cleanup_loop (h(a := None)) ens = Inr ((h(a := None)) |` (- set (ptrs ens)))"
      using Cons.prems by (intro Cons.IH) auto
    moreover have "(h(a := None)) |` (- set (ptrs ens)) = h |` (- set (ptrs (en # ens)))"
      using Some by (auto simp: restrict_map_def fun_eq_iff)
    ultimately show ?thesis
      using Some Cons.prems by (auto simp: free_ok)
  qed
qed

lemma ptrs_entry:
  assumes "cb_wf b"
  shows "set (ptrs (entry b)) = set (ptrs (cb_list b))"
    and "distinct (ptrs (entry b)) = distinct (ptrs (cb_list b))"
proof -
  let ?k = "unat (out_offs b) mod length (entry b)"
  have zeros: "ptrs (replicate n null_entry) = []" for n
    by (induction n) simp_all
  have slots: "ptrs (cb_list b) = ptrs (drop ?k (entry b)) @ ptrs (take ?k (entry b))"
    using cb_slots_eq [OF assms] by (simp add: cb_slots_def rotate_drop_take zeros flip: ptrs_simps(3))
      (metis append_Nil2 ptrs_simps(3) zeros)
  have entries: "ptrs (entry b) = ptrs (take ?k (entry b)) @ ptrs (drop ?k (entry b))"
    by (simp flip: ptrs_simps(3))
  show "set (ptrs (entry b)) = set (ptrs (cb_list b))"
    unfolding slots entries by auto
  show "distinct (ptrs (entry b)) = distinct (ptrs (cb_list b))"
    unfolding slots entries by auto
qed

lemma cleanup_module_eq:
  assumes wf: "dev_wf (driver m)"
  shows "\<exists>m' b. buffer (aesd_device (driver m)) = Some b \<and> aesd_cleanup_module m = Inr m' \<and>
    heap (driver m') = heap (driver m) |`
      (- set (ptrs (cb_list b @ [wip_entry (aesd_device (driver m))]))) \<and>
    buffer (aesd_device (driver m')) = None \<and> \<not> region m' \<and> \<not> cdev_live m'"
proof -
  obtain b where b: "buffer (aesd_device (driver m)) = Some b"
    and bwf: "buf_wf (heap (driver m)) b (wip_entry (aesd_device (driver m)))"
    using wf by (rule dev_wfE)
  let ?h = "heap (driver m)" and ?w = "wip_entry (aesd_device (driver m))"
  have cwf: "cb_wf b" and ok: "\<forall>en \<in> set (cb_list b). cmd_ok ?h en" and wok: "wip_ok ?h ?w"
    and dist: "distinct (ptrs (cb_list b @ [?w]))"
    using bwf by (simp_all add: buf_wf_def)
  have "set (ptrs (cb_list b)) \<subseteq> dom ?h"
    using ok by (fastforce simp: in_ptrs cmd_ok_def dest: entry_ok_live)
  then have loop: "cleanup_loop ?h (entry b) = Inr (?h |` (- set (ptrs (cb_list b))))"
    using cleanup_loop_eq [of "entry b" ?h] ptrs_entry [OF cwf] dist by simp
  have wip: "(if buffptr ?w \<noteq> None then free_block (?h |` (- set (ptrs (cb_list b)))) (buffptr ?w)
      else Inr (?h |` (- set (ptrs (cb_list b))))) = Inr (?h |` (- set (ptrs (cb_list b @ [?w]))))"
  proof (cases "buffptr ?w")
    case (Some a)
    then have "?h a \<noteq> None" using wok by (auto simp: wip_ok_def elim: entry_okE)
    moreover have "a \<notin> set (ptrs (cb_list b))" using dist Some by simp
    ultimately show ?thesis
      using Some by (auto simp: free_block_def restrict_map_def fun_eq_iff)
  qed simp
  show ?thesis
    using b wip by (cases "buffptr ?w") (simp_all add: aesd_cleanup_module_def Let_def loop)
qed

section \<open>Properties\<close>

text \<open>
  Every way \<open>aesd_init_module\<close> can end. It returns 0 exactly when the region was
  registered, the buffer allocated and the device added, and then the module is ready: both
  registrations are held, the device is well-formed and empty, no memory is lost. Without a
  region nothing is kept. The other two failures leave something behind: without memory
  for the buffer the region stays registered, and when the device cannot be added the
  region is given back but the buffer struct stays allocated.
\<close>

theorem aesd_init_module_outcomes:
  assumes "aesd_init_module e module_unloaded = (m, result)"
  shows "let no_region = sint (fst (alloc_chrdev_region e)) < 0 in
    (no_region \<longrightarrow> result = fst (alloc_chrdev_region e) \<and> \<not> region m \<and>
       buffer (aesd_device (driver m)) = None) \<and>
    (\<not> no_region \<and> \<not> kmalloc_buffer e \<longrightarrow> sint result = - 12 \<and> region m \<and>
       buffer (aesd_device (driver m)) = None) \<and>
    (\<not> no_region \<and> kmalloc_buffer e \<and> cdev_add e \<noteq> 0 \<longrightarrow> result = cdev_add e \<and> \<not> region m \<and>
       buffer (aesd_device (driver m)) \<noteq> None) \<and>
    (\<not> no_region \<and> kmalloc_buffer e \<and> cdev_add e = 0 \<longrightarrow> result = 0 \<and> module_ready m)"
  using init_module_cases [OF assms] by (auto simp: Let_def)

theorem aesd_init_module_outcomes_witness:
  "\<exists>m. aesd_init_module \<lparr>alloc_chrdev_region = (0, 240), kmalloc_buffer = False, cdev_add = 0\<rparr>
     module_unloaded = (m, - 12) \<and> region m"
proof -
  let ?e = "\<lparr>alloc_chrdev_region = (0, 240), kmalloc_buffer = False, cdev_add = 0\<rparr> :: init_env"
  obtain m r where mr: "aesd_init_module ?e module_unloaded = (m, r)"
    by (cases "aesd_init_module ?e module_unloaded")
  moreover from mr have "r = - 12"
    by (simp add: aesd_init_module_def)
  ultimately show ?thesis
    using aesd_init_module_outcomes [OF mr] by (auto simp: Let_def)
qed

text \<open>
  \<open>aesd_cleanup_module\<close> never frees a block twice, frees every block an entry or the
  working entry owns and no other, frees the buffer struct and gives both registrations
  back. So when no memory was lost before, none is left.
\<close>

theorem aesd_cleanup_frees_all:
  assumes "dev_wf (driver m)"
  shows "\<exists>m'. aesd_cleanup_module m = Inr m' \<and> buffer (aesd_device (driver m')) = None \<and>
    \<not> region m' \<and> \<not> cdev_live m' \<and> heap (driver m') \<subseteq>\<^sub>m heap (driver m) \<and>
    (leak_free (driver m) \<longrightarrow> heap (driver m') = Map.empty)"
proof -
  obtain m' b where m': "buffer (aesd_device (driver m)) = Some b" "aesd_cleanup_module m = Inr m'"
    "heap (driver m') = heap (driver m) |`
      (- set (ptrs (cb_list b @ [wip_entry (aesd_device (driver m))])))"
    "buffer (aesd_device (driver m')) = None" "\<not> region m'" "\<not> cdev_live m'"
    using cleanup_module_eq [OF assms] by blast
  have "heap (driver m') = Map.empty" if "leak_free (driver m)"
    using that m'(1) unfolding m'(3)
    by (auto simp: leak_free_def restrict_map_def fun_eq_iff domIff set_eq_iff)
  then show ?thesis using m' by (auto simp: map_le_def restrict_map_def split: if_splits)
qed

theorem aesd_cleanup_frees_all_witness:
  "\<exists>m'. aesd_cleanup_module
       \<lparr>driver = drv_example, aesd_major = 240, region = True, cdev_live = True\<rparr> = Inr m' \<and>
     heap (driver m') = Map.empty"
  using aesd_cleanup_frees_all
    [of "\<lparr>driver = drv_example, aesd_major = 240, region = True, cdev_live = True\<rparr>"]
  by (auto simp: drv_example_wf drv_example_leak_free)

end
