(* ===== verification/DriverSystem.thy ===== *)
theory DriverSystem
  imports DriverRead DriverWrite ModuleInit
begin

text \<open>
  Many processes using the device at once. Every file operation does its work between
  \<open>mutex_lock_interruptible\<close> and \<open>mutex_unlock\<close>, so a concurrent execution is a sequence of
  whole operations in the order in which they obtain the mutex; which process comes next is
  not determined. \<open>sys_step\<close> is one such operation on one open file, \<open>sys_run\<close> a sequence of
  them from the loaded module, with a trace of what the writes did.
\<close>

section \<open>The system\<close>

record system =
  sdrv :: drv
  files :: "nat \<rightharpoonup> open_file"

datatype event = Quiet | Wrote "byte list" | WriteFault

text \<open>What the trace records of a write.\<close>

definition write_event :: "byte list \<Rightarrow> ssize_t \<Rightarrow> event" where
  "write_event buf ret =
     (if ret = - EFAULT then WriteFault
      else if ret = - ENOMEM \<or> ret = - ERESTARTSYS then Quiet else Wrote buf)"

definition system_init :: system where
  "system_init = \<lparr>sdrv = driver (fst (aesd_init_module
     \<lparr>alloc_chrdev_region = (0, 1), kmalloc_buffer = True, cdev_add = 0\<rparr> module_unloaded)),
     files = Map.empty\<rparr>"

inductive sys_step :: "system \<Rightarrow> event \<Rightarrow> system \<Rightarrow> bool" where
  step_open: "files s f = None \<Longrightarrow> aesd_open \<lparr>f_pos = 0, private_data = False\<rparr> = (filp, ret) \<Longrightarrow>
    sys_step s Quiet (s\<lparr>files := (files s)(f \<mapsto> filp)\<rparr>)"
| step_release: "files s f = Some filp \<Longrightarrow> aesd_release filp = (filp', ret) \<Longrightarrow>
    sys_step s Quiet (s\<lparr>files := (files s)(f := None)\<rparr>)"
| step_read: "files s f = Some filp \<Longrightarrow> kenv_ok e \<Longrightarrow>
    aesd_read e (sdrv s) filp count (f_pos filp) = Inr (d, pos', ret, bs) \<Longrightarrow>
    sys_step s Quiet \<lparr>sdrv = d, files = (files s)(f \<mapsto> filp\<lparr>f_pos := pos'\<rparr>)\<rparr>"
| step_write: "files s f = Some filp \<Longrightarrow> kenv_ok e \<Longrightarrow> write_fits (sdrv s) buf count \<Longrightarrow>
    aesd_write e (sdrv s) filp buf count (f_pos filp) = Inr (d, pos', ret) \<Longrightarrow>
    sys_step s (write_event buf ret) \<lparr>sdrv = d, files = (files s)(f \<mapsto> filp\<lparr>f_pos := pos'\<rparr>)\<rparr>"
| step_llseek: "files s f = Some filp \<Longrightarrow> kenv_ok e \<Longrightarrow>
    aesd_llseek e (sdrv s) filp off whence = Inr (d, filp', ret) \<Longrightarrow>
    sys_step s Quiet \<lparr>sdrv = d, files = (files s)(f \<mapsto> filp')\<rparr>"
| step_ioctl: "files s f = Some filp \<Longrightarrow> kenv_ok e \<Longrightarrow>
    aesd_ioctl e (sdrv s) filp cmd arg = Inr (d, filp', ret) \<Longrightarrow>
    sys_step s Quiet \<lparr>sdrv = d, files = (files s)(f \<mapsto> filp')\<rparr>"

inductive_cases sys_stepE: "sys_step s ev s'"

inductive sys_run :: "event list \<Rightarrow> system \<Rightarrow> bool" where
  run_init: "sys_run [] system_init"
| run_step: "sys_run tr s \<Longrightarrow> sys_step s ev s' \<Longrightarrow> sys_run (tr @ [ev]) s'"

text \<open>The successful writes of a trace, in the order in which they held the mutex.\<close>

fun writes :: "event list \<Rightarrow> byte list list" where
  "writes [] = []"
| "writes (Wrote bs # tr) = bs # writes tr"
| "writes (ev # tr) = writes tr"

lemma writes_append [simp]: "writes (tr @ tr') = writes tr @ writes tr'"
  by (induction tr rule: writes.induct) simp_all

section \<open>One step\<close>

definition sys_inv :: "system \<Rightarrow> bool" where
  "sys_inv s \<longleftrightarrow> dev_wf (sdrv s) \<and> (\<forall>filp \<in> ran (files s). private_data filp)"

definition apply_event :: "event \<Rightarrow> cmd_log \<Rightarrow> cmd_log" where
  "apply_event ev l = (case ev of Wrote bs \<Rightarrow> write_log l bs | _ \<Rightarrow> l)"

lemma aesd_read_keeps:
  assumes "dev_wf s" and "private_data filp" and "kenv_ok e"
    and "aesd_read e s filp count pos = Inr (s', pos', ret, bs)"
  shows "s' = s"
proof (cases "mutex_lock_interruptible e = 0")
  case True
  then show ?thesis
    using assms aesd_read_eq [OF assms(1,2) True assms(3), of count pos]
    by (auto simp: Let_def split: if_splits)
qed (use assms in \<open>simp add: aesd_read_def\<close>)

lemma aesd_llseek_keeps:
  assumes "dev_wf s" and "private_data filp"
    and "aesd_llseek e s filp off whence = Inr (s', filp', ret)"
  shows "s' = s \<and> private_data filp'"
proof (cases "mutex_lock_interruptible e = 0")
  case True
  then show ?thesis
    using assms aesd_llseek_eq [OF assms(1,2) True, of off whence]
    by (auto split: prod.splits)
qed (use assms in \<open>simp add: aesd_llseek_def\<close>)

lemma aesd_adjust_keeps:
  assumes "dev_wf s" and "private_data filp"
    and "aesd_adjust_file_offset e s filp cmd co = Inr (s', filp', ret)"
  shows "s' = s \<and> private_data filp'"
proof (cases "mutex_lock_interruptible e = 0")
  case True
  then show ?thesis
    using assms aesd_adjust_eq [OF assms(1,2) True, of cmd co]
    by (auto simp: Let_def split: if_splits)
qed (use assms in \<open>auto simp: aesd_adjust_file_offset_def split: if_splits\<close>)

lemma aesd_ioctl_keeps:
  assumes "dev_wf s" and "private_data filp"
    and "aesd_ioctl e s filp cmd arg = Inr (s', filp', ret)"
  shows "s' = s \<and> private_data filp'"
  using assms aesd_adjust_keeps [OF assms(1,2)]
  by (auto simp: aesd_ioctl_def Let_def split: if_splits prod.splits)

lemma writes_leak:
  assumes wf: "dev_wf s" and pd: "private_data filp" and env: "kenv_ok e"
    and fits: "write_fits s buf count"
    and w: "aesd_write e s filp buf count pos = Inr (s', pos', ret)"
    and ret: "ret \<noteq> - EFAULT" and lf: "leak_free s"
  shows "leak_free s'"
proof (cases "mutex_lock_interruptible e = 0")
  case False
  then show ?thesis using w pd lf by (simp add: aesd_write_no_lock)
next
  case intr: True
  show ?thesis
  proof (cases "kmalloc e (heap s) (esize (wip_entry (aesd_device s)) + count + 1)")
    case None
    then show ?thesis using aesd_write_no_memory [OF wf pd intr None] w lf by simp
  next
    case (Some pj)
    obtain p junk where alloc:
      "kmalloc e (heap s) (esize (wip_entry (aesd_device s)) + count + 1) = Some (p, junk)"
      using Some by (cases pj) simp
    have ok: "snd (copy_from_user e buf) = 0"
      using aesd_write_efault [OF wf pd intr env fits alloc, of pos] w ret by auto
    have "partial_cmd (dev_abs s) @ buf \<noteq> []"
    proof
      assume none: "partial_cmd (dev_abs s) @ buf = []"
      then have "count = 0" using fits by (simp add: write_fits_def unat_eq_zero)
      with none ok alloc w show False
        using aesd_write_empty [OF wf pd intr env, of p junk pos] by simp
    qed
    then show ?thesis
      using aesd_write_eq [OF wf pd intr env fits alloc ok, of pos] w lf by auto
  qed
qed

lemma write_event_cases:
  assumes fits: "write_fits s buf count"
  shows "write_event buf count = Wrote buf" "write_event buf (- ERESTARTSYS) = Quiet"
    "write_event buf (- ENOMEM) = Quiet" "write_event buf (- EFAULT) = WriteFault"
proof -
  have "unat count < 2 ^ 63" using fits by (simp add: write_fits_def)
  then have "count \<noteq> - EFAULT" "count \<noteq> - ENOMEM" "count \<noteq> - ERESTARTSYS"
    by (auto simp: word_unat_eq_iff)
  then show "write_event buf count = Wrote buf" by (simp add: write_event_def)
qed (simp_all add: write_event_def)

lemma sys_step_inv:
  assumes step: "sys_step s ev s'" and inv: "sys_inv s"
  shows "sys_inv s' \<and> dev_abs (sdrv s') = apply_event ev (dev_abs (sdrv s)) \<and>
    (ev \<noteq> WriteFault \<longrightarrow> leak_free (sdrv s) \<longrightarrow> leak_free (sdrv s'))"
proof -
  have pd: "private_data filp" if "files s f = Some filp" for f filp
    using inv that by (auto simp: sys_inv_def ran_def)
  have wf: "dev_wf (sdrv s)" using inv by (simp add: sys_inv_def)
  have upd: "\<forall>x \<in> ran ((files s)(f \<mapsto> filp)). private_data x" if "private_data filp" for f filp
    using inv that by (auto simp: sys_inv_def ran_def)
  have del: "\<forall>x \<in> ran ((files s)(f := None)). private_data x" for f
    using inv by (auto simp: sys_inv_def ran_def)
  from step show ?thesis
  proof (cases rule: sys_step.cases)
    case (step_open f filp ret)
    then show ?thesis
      using wf upd [of filp f] by (auto simp: sys_inv_def apply_event_def aesd_open_def)
  next
    case (step_release f filp filp' ret)
    then show ?thesis using wf del [of f] by (simp add: sys_inv_def apply_event_def)
  next
    case (step_read f filp e count d pos' ret bs)
    have "d = sdrv s" by (rule aesd_read_keeps [OF wf pd [OF step_read(3)] step_read(4,5)])
    then show ?thesis
      using step_read wf upd [of "filp\<lparr>f_pos := pos'\<rparr>" f] pd [OF step_read(3)]
      by (simp add: sys_inv_def apply_event_def)
  next
    case (step_write f filp e buf count d pos' ret)
    note p = pd [OF step_write(3)] and fits = step_write(5)
    have "dev_wf d \<and> (ret = count \<and> dev_abs d = write_log (dev_abs (sdrv s)) buf \<or>
        ret \<in> {- ERESTARTSYS, - ENOMEM, - EFAULT} \<and> dev_abs d = dev_abs (sdrv s))"
      using aesd_write_cases [OF wf p step_write(4,5), of "f_pos filp"] step_write(6) by auto
    then have d: "dev_wf d" "dev_abs d = apply_event (write_event buf ret) (dev_abs (sdrv s))"
      using write_event_cases [OF fits] by (auto simp: apply_event_def)
    have "leak_free d" if "write_event buf ret \<noteq> WriteFault" "leak_free (sdrv s)"
      using writes_leak [OF wf p step_write(4,5,6)] that by (auto simp: write_event_def split: if_splits)
    then show ?thesis
      using d step_write upd [of "filp\<lparr>f_pos := pos'\<rparr>" f] p by (simp add: sys_inv_def)
  next
    case (step_llseek f filp e off whence d filp' ret)
    have "d = sdrv s \<and> private_data filp'"
      by (rule aesd_llseek_keeps [OF wf pd [OF step_llseek(3)] step_llseek(5)])
    then show ?thesis
      using step_llseek wf upd [of filp' f] by (simp add: sys_inv_def apply_event_def)
  next
    case (step_ioctl f filp e cmd arg d filp' ret)
    have "d = sdrv s \<and> private_data filp'"
      by (rule aesd_ioctl_keeps [OF wf pd [OF step_ioctl(3)] step_ioctl(5)])
    then show ?thesis
      using step_ioctl wf upd [of filp' f] by (simp add: sys_inv_def apply_event_def)
  qed
qed

section \<open>Whole runs\<close>

lemma system_init_ok:
  "sys_inv system_init" "leak_free (sdrv system_init)"
  "dev_abs (sdrv system_init) = \<lparr>cmds = [], partial_cmd = []\<rparr>"
proof -
  let ?e = "\<lparr>alloc_chrdev_region = (0, 1), kmalloc_buffer = True, cdev_add = 0\<rparr>"
  have "module_ready (fst (aesd_init_module ?e module_unloaded))"
    using init_module_cases(4) [of ?e "fst (aesd_init_module ?e module_unloaded)"
        "snd (aesd_init_module ?e module_unloaded)"] by simp
  then show "sys_inv system_init" "leak_free (sdrv system_init)"
    "dev_abs (sdrv system_init) = \<lparr>cmds = [], partial_cmd = []\<rparr>"
    by (simp_all add: module_ready_def sys_inv_def system_init_def)
qed

lemma sys_run_inv:
  "sys_run tr s \<Longrightarrow> sys_inv s \<and>
     dev_abs (sdrv s) = foldl write_log \<lparr>cmds = [], partial_cmd = []\<rparr> (writes tr) \<and>
     (WriteFault \<notin> set tr \<longrightarrow> leak_free (sdrv s))"
proof (induction rule: sys_run.induct)
  case run_init
  show ?case using system_init_ok by simp
next
  case (run_step tr s ev s')
  have "sys_inv s' \<and> dev_abs (sdrv s') = apply_event ev (dev_abs (sdrv s)) \<and>
      (ev \<noteq> WriteFault \<longrightarrow> leak_free (sdrv s) \<longrightarrow> leak_free (sdrv s'))"
    using run_step by (intro sys_step_inv) simp_all
  then show ?case
    using run_step.IH by (cases ev) (auto simp: apply_event_def)
qed

text \<open>
  The commands a sequence of writes makes up: bytes are collected until a write ends with a
  newline. The second component is what is left over.
\<close>

fun split_cmds :: "byte list \<Rightarrow> byte list list \<Rightarrow> byte list list \<times> byte list" where
  "split_cmds p [] = ([], p)"
| "split_cmds p (w # ws) =
     (if last (p @ w) = newline then (let (cs, r) = split_cmds [] ws in ((p @ w) # cs, r))
      else split_cmds (p @ w) ws)"

lemma foldl_write_log:
  "length (cmds l) \<le> AESDCHAR_MAX_WRITE_OPERATIONS_SUPPORTED \<Longrightarrow>
   foldl write_log l ws =
     \<lparr>cmds = keep_last AESDCHAR_MAX_WRITE_OPERATIONS_SUPPORTED
        (cmds l @ fst (split_cmds (partial_cmd l) ws)),
      partial_cmd = snd (split_cmds (partial_cmd l) ws)\<rparr>"
proof (induction ws arbitrary: l)
  case Nil
  then show ?case by (cases l) simp
next
  case (Cons w ws)
  show ?case
  proof (cases "last (partial_cmd l @ w) = newline")
    case True
    then show ?thesis
      using Cons.IH [of "write_log l w"] keep_last_append [of 10 "cmds l @ [partial_cmd l @ w]"]
      by (simp add: write_log_def Let_def split: prod.splits)
  next
    case False
    then show ?thesis
      using Cons.IH [of "write_log l w"] Cons.prems by (simp add: write_log_def Let_def)
  qed
qed

lemma run_example: "\<exists>s. sys_run [Quiet, Wrote [97, newline]] s"
proof -
  let ?filp = "\<lparr>f_pos = 0, private_data = True\<rparr>" and ?d = "sdrv system_init"
  let ?s1 = "system_init\<lparr>files := [7 \<mapsto> ?filp]\<rparr>"
  have "sys_step system_init Quiet ?s1"
    using step_open [of system_init 7 ?filp 0] by (simp add: aesd_open_def system_init_def)
  then have run1: "sys_run [Quiet] ?s1"
    using run_step [OF run_init] by fastforce
  have empty: "dev_abs ?d = \<lparr>cmds = [], partial_cmd = []\<rparr>" and wf: "dev_wf ?d"
    using system_init_ok by (simp_all add: sys_inv_def)
  have fits: "write_fits ?d [97, newline] 2"
    by (simp add: write_fits_def empty log_bytes_def content_def)
  have "heap ?d = Map.empty"
    by (simp add: system_init_def aesd_init_module_def aesd_setup_cdev_def module_unloaded_def)
  then have alloc: "\<exists>p junk. kmalloc kenv_example (heap ?d)
      (esize (wip_entry (aesd_device ?d)) + 2 + 1) = Some (p, junk)"
    using kenv_example_alloc [of "heap ?d" 0] by simp
  obtain d pos' where w: "aesd_write kenv_example ?d ?filp [97, newline] 2 0 = Inr (d, pos', 2)"
    using alloc aesd_write_eq [OF wf _ _ kenv_example_ok fits, of ?filp _ _ 0] by (auto simp: empty)
  have "sys_step ?s1 (write_event [97, newline] 2)
      \<lparr>sdrv = d, files = (files ?s1)(7 \<mapsto> ?filp\<lparr>f_pos := pos'\<rparr>)\<rparr>"
    using step_write [of ?s1 7 ?filp kenv_example "[97, newline]" 2 d pos' 2] w fits kenv_example_ok
    by simp
  with run1 have run2: "sys_run [Quiet, Wrote [97, newline]]
      \<lparr>sdrv = d, files = (files ?s1)(7 \<mapsto> ?filp\<lparr>f_pos := pos'\<rparr>)\<rparr>"
    using run_step [of "[Quiet]"] write_event_cases(1) [OF fits] by fastforce
  then show ?thesis by blast
qed

section \<open>Properties\<close>

text \<open>
  C1: concurrent use of the device is linearizable. In every reachable state, whatever the
  interleaving of the operations of any number of open files, the device invariant holds
  and the device holds exactly the last ten complete commands and the unfinished rest that
  the successful writes make up, taken in the order in which they held the mutex; reads,
  seeks, failed and interrupted operations leave no mark. As long as no write failed with
  \<open>-EFAULT\<close> no block of memory is lost.
\<close>

theorem driver_linearizable:
  assumes "sys_run tr s"
  shows "dev_wf (sdrv s) \<and>
    cmds (dev_abs (sdrv s)) =
      keep_last AESDCHAR_MAX_WRITE_OPERATIONS_SUPPORTED (fst (split_cmds [] (writes tr))) \<and>
    partial_cmd (dev_abs (sdrv s)) = snd (split_cmds [] (writes tr)) \<and>
    (WriteFault \<notin> set tr \<longrightarrow> leak_free (sdrv s))"
  using sys_run_inv [OF assms] foldl_write_log [of "\<lparr>cmds = [], partial_cmd = []\<rparr>" "writes tr"]
  by (simp add: sys_inv_def)

theorem driver_linearizable_witness:
  "\<exists>tr s. sys_run tr s \<and> writes tr = [[97, newline]] \<and>
     cmds (dev_abs (sdrv s)) = [[97, newline]] \<and> leak_free (sdrv s)"
proof -
  obtain s where run: "sys_run [Quiet, Wrote [97, newline]] s" using run_example by blast
  then show ?thesis
    using driver_linearizable [OF run]
    by (intro exI [of _ "[Quiet, Wrote [97, newline]]"] exI [of _ s]) auto
qed


text \<open>
  C10: The life of the module. Whatever was done with the device between a successful load and
  the unload, \<open>aesd_cleanup_module\<close> frees no block twice, frees the buffer struct and gives back
  the region and the device; and if no write failed with \<open>-EFAULT\<close>, no memory is left.
\<close>

theorem module_life:
  assumes "aesd_init_module e module_unloaded = (m, 0)" and "sys_run tr s"
  shows "driver m = sdrv system_init \<and>
    (\<exists>m'. aesd_cleanup_module (m\<lparr>driver := sdrv s\<rparr>) = Inr m' \<and>
       buffer (aesd_device (driver m')) = None \<and> \<not> region m' \<and> \<not> cdev_live m' \<and>
       (WriteFault \<notin> set tr \<longrightarrow> heap (driver m') = Map.empty))"
proof -
  have "driver m = sdrv system_init"
    using assms(1)
    by (auto simp: aesd_init_module_def aesd_setup_cdev_def module_unloaded_def system_init_def Let_def
        split: prod.splits if_splits)
  moreover have "dev_wf (driver (m\<lparr>driver := sdrv s\<rparr>))"
      "WriteFault \<notin> set tr \<longrightarrow> leak_free (driver (m\<lparr>driver := sdrv s\<rparr>))"
    using sys_run_inv [OF assms(2)] by (simp_all add: sys_inv_def)
  ultimately show ?thesis using aesd_cleanup_frees_all by blast
qed

theorem module_life_witness:
  "\<exists>m s m'. aesd_init_module \<lparr>alloc_chrdev_region = (0, 240), kmalloc_buffer = True, cdev_add = 0\<rparr>
       module_unloaded = (m, 0) \<and> sys_run [Quiet, Wrote [97, newline]] s \<and>
     aesd_cleanup_module (m\<lparr>driver := sdrv s\<rparr>) = Inr m' \<and> heap (driver m') = Map.empty"
proof -
  let ?e = "\<lparr>alloc_chrdev_region = (0, 240), kmalloc_buffer = True, cdev_add = 0\<rparr> :: init_env"
  obtain m where m: "aesd_init_module ?e module_unloaded = (m, 0)"
    by (simp add: aesd_init_module_def aesd_setup_cdev_def)
  obtain s where run: "sys_run [Quiet, Wrote [97, newline]] s" using run_example by blast
  show ?thesis using module_life [OF m run] m run by auto
qed


text \<open>
  Where a successful write leaves the file position. It is one less than the number of
  stored bytes, not the end the comment speaks of: after a write that completes a command
  the next read returns that command's newline once more, and while no command is stored at
  all the position is \<open>-1\<close>.
\<close>

theorem aesd_write_position:
  assumes "dev_wf s" and "private_data filp" and "mutex_lock_interruptible e = 0"
    and "kenv_ok e" and "write_fits s buf count"
    and "kmalloc e (heap s) (esize (wip_entry (aesd_device s)) + count + 1) \<noteq> None"
    and "snd (copy_from_user e buf) = 0" and "partial_cmd (dev_abs s) @ buf \<noteq> []"
  shows "\<exists>s' pos'. aesd_write e s filp buf count pos = Inr (s', pos', count) \<and>
    (last (partial_cmd (dev_abs s) @ buf) = newline \<longrightarrow>
       (\<forall>n > 0. chunk_at (cmds (dev_abs s')) (unat pos') n = [newline])) \<and>
    (content (dev_abs s') = [] \<longrightarrow> pos' = - 1)"
proof -
  obtain p junk where
    "kmalloc e (heap s) (esize (wip_entry (aesd_device s)) + count + 1) = Some (p, junk)"
    using assms(6) by auto
  then obtain s' where w: "aesd_write e s filp buf count pos =
      Inr (s', of_nat (length (content (dev_abs s'))) - 1, count)"
    and wf: "dev_wf s'" and abs: "dev_abs s' = write_log (dev_abs s) buf"
    using aesd_write_eq [OF assms(1-5) _ assms(7,8)] by blast
  let ?cs = "cmds (dev_abs s')" and ?p = "partial_cmd (dev_abs s) @ buf"
  let ?size = "length (content (dev_abs s'))"
  have read: "chunk_at ?cs (unat (of_nat ?size - 1 :: loff_t)) n = [newline]"
    if nl: "last ?p = newline" and n: "0 < n" for n
  proof -
    obtain ds where ds: "?cs = ds @ [?p]"
      using abs nl keep_last_snoc_last [of 10 "cmds (dev_abs s)" ?p] by (auto simp: write_log_def)
    have "0 < ?size" using assms(8) by (simp add: content_def ds)
    moreover have "?size < 2 ^ 63"
      using wf buf_wf_sizes(3) by (auto simp: log_bytes_def elim!: dev_wfE) (metis add_lessD1)
    ultimately have "unat (of_nat ?size - 1 :: loff_t) = ?size - 1"
      by (subst unat_sub_fits) (simp_all add: unat_of_nat_fits Suc_le_eq)
    then show ?thesis
      using chunk_at_last [OF ds assms(8) n] nl by (simp add: content_def)
  qed
  show ?thesis
    using w read by (intro exI [of _ s'] exI [of _ "of_nat (length (content (dev_abs s'))) - 1"]) auto
qed

theorem aesd_write_position_witness:
  "\<exists>s'. aesd_write kenv_example drv_empty file_example [120] 1 0 = Inr (s', - 1, 1)"
proof -
  have fits: "write_fits drv_empty [120] 1"
    by (simp add: write_fits_def drv_empty_ok log_bytes_def content_def)
  obtain s' pos' where w: "aesd_write kenv_example drv_empty file_example [120] 1 0 = Inr (s', pos', 1)"
    and p: "content (dev_abs s') = [] \<longrightarrow> pos' = - 1"
    using aesd_write_position [OF drv_empty_ok(1) _ _ kenv_example_ok fits, of file_example 0]
    by (auto simp: file_example_def drv_empty_ok)
  moreover have "dev_abs s' = write_log (dev_abs drv_empty) [120]"
    using aesd_write_cases [OF drv_empty_ok(1) _ kenv_example_ok fits, of file_example 0] w
    by (auto simp: file_example_def)
  then have "content (dev_abs s') = []"
    by (simp add: write_log_def drv_empty_ok content_def)
  ultimately show ?thesis by blast
qed

end
