(* ===== verification/CString.thy ===== *)
theory CString
  imports Memory
begin

text \<open>
  The functions of the C library on NUL-terminated strings that the server calls, over byte
  lists that stand for the array from the argument to its end. An array without a NUL is
  read past its end, which is the fault \<open>OutOfBounds\<close>.
\<close>

text \<open>The characters before the terminating NUL; \<open>strlen\<close> is the length of the result.\<close>

definition c_chars :: "byte list \<Rightarrow> byte list res" where
  "c_chars bs = (if nul \<in> set bs then Inr (takeWhile (\<lambda>c. c \<noteq> nul) bs) else Inl OutOfBounds)"

text \<open>\<open>strchr\<close>: the index of the first \<open>c\<close> in the string, or \<open>None\<close> for \<open>NULL\<close>.\<close>

definition strchr :: "byte list \<Rightarrow> byte \<Rightarrow> nat option res" where
  "strchr bs c =
     (let i = length (takeWhile (\<lambda>x. x \<noteq> c \<and> x \<noteq> nul) bs)
      in if length bs \<le> i then Inl OutOfBounds else Inr (if bs ! i = c then Some i else None))"

text \<open>\<open>strcpy\<close> of the string in the array \<open>src\<close> to the offset \<open>off\<close> of the block at \<open>p\<close>.\<close>

definition strcpy :: "heap \<Rightarrow> addr option \<Rightarrow> nat \<Rightarrow> byte list \<Rightarrow> heap res" where
  "strcpy h p off src = bindR (c_chars src) (\<lambda>s. store h p off (s @ [nul]))"

text \<open>\<open>strncmp (bs, lit, length lit) = 0\<close> for a literal \<open>lit\<close>, stopping at the first difference.\<close>

fun strncmp_eq :: "byte list \<Rightarrow> byte list \<Rightarrow> bool res" where
  "strncmp_eq bs [] = Inr True"
| "strncmp_eq [] (c # cs) = Inl OutOfBounds"
| "strncmp_eq (b # bs) (c # cs) = (if b = c then strncmp_eq bs cs else Inr False)"

text \<open>
  \<open>strtoul\<close> with base 10: white space, a sign, digits. The value is \<open>ULONG_MAX\<close> when the
  number does not fit, and negated for a minus sign; the second result is the index \<open>*end\<close>
  points to, 0 when there is no digit.
\<close>

definition isspace :: "byte \<Rightarrow> bool" where "isspace c \<longleftrightarrow> c = 32 \<or> 9 \<le> c \<and> c \<le> 13"

definition isdigit :: "byte \<Rightarrow> bool" where "isdigit c \<longleftrightarrow> 48 \<le> c \<and> c \<le> 57"

definition digits_value :: "byte list \<Rightarrow> nat" where
  "digits_value ds = foldl (\<lambda>v d. 10 * v + (unat d - 48)) 0 ds"

abbreviation ULONG_MAX :: "64 word" where "ULONG_MAX \<equiv> - 1"

definition strtoul :: "byte list \<Rightarrow> (64 word \<times> nat) res" where
  "strtoul bs =
     bindR (c_chars bs) (\<lambda>s.
       let white = takeWhile isspace s; rest = drop (length white) s;
           sign = (case rest of c # _ \<Rightarrow> c = 43 \<or> c = 45 | [] \<Rightarrow> False);
           minus = (case rest of c # _ \<Rightarrow> c = 45 | [] \<Rightarrow> False);
           ds = takeWhile isdigit (if sign then tl rest else rest); v = digits_value ds
       in Inr (if ds = [] then (0, 0)
          else (if 2 ^ 64 \<le> v then ULONG_MAX else if minus then - of_nat v else of_nat v,
                length white + (if sign then 1 else 0) + length ds)))"

lemma c_chars_terminated: "nul \<notin> set s \<Longrightarrow> c_chars (s @ nul # t) = Inr s"
  by (auto simp: c_chars_def intro!: trans [OF takeWhile_append2])

lemma c_charsE:
  assumes "c_chars bs = Inr s"
  obtains t where "bs = s @ nul # t" "nul \<notin> set s"
proof -
  from assms have "nul \<in> set bs" by (auto simp: c_chars_def split: if_splits)
  then obtain a t where bs: "bs = a @ nul # t" "nul \<notin> set a" by (metis split_list_first)
  with assms have "s = a" by (simp add: c_chars_terminated)
  with bs that show ?thesis by simp
qed

lemma strchr_total:
  assumes "nul \<in> set bs"
  obtains (absent) "strchr bs c = Inr None"
    | (found) i where "strchr bs c = Inr (Some i)" "i < length bs" "bs ! i = c"
proof -
  let ?i = "length (takeWhile (\<lambda>x. x \<noteq> c \<and> x \<noteq> nul) bs)"
  from assms obtain a t where "bs = a @ nul # t" by (metis split_list)
  then have "\<not> length bs \<le> ?i"
    by (auto simp: takeWhile_append not_le intro: le_less_trans [OF length_takeWhile_le])
  with that show ?thesis by (cases "bs ! ?i = c") (simp_all add: strchr_def)
qed

lemma strchr_found: "nul \<notin> set s \<Longrightarrow> c \<notin> set s \<Longrightarrow> strchr (s @ c # t) c = Inr (Some (length s))"
proof -
  assume "nul \<notin> set s" "c \<notin> set s"
  then have "takeWhile (\<lambda>x. x \<noteq> c \<and> x \<noteq> nul) (s @ c # t) = s"
    by (subst takeWhile_append2) auto
  then show ?thesis by (simp add: strchr_def)
qed

lemma strchr_absent:
  "nul \<notin> set s \<Longrightarrow> c \<notin> set s \<Longrightarrow> c \<noteq> nul \<Longrightarrow> strchr (s @ nul # t) c = Inr None"
proof -
  assume "nul \<notin> set s" "c \<notin> set s" and c: "c \<noteq> nul"
  then have "takeWhile (\<lambda>x. x \<noteq> c \<and> x \<noteq> nul) (s @ nul # t) = s"
    by (subst takeWhile_append2) auto
  then show ?thesis using c by (simp add: strchr_def)
qed

lemma strcpy_ok:
  "nul \<notin> set s \<Longrightarrow> h a = Some blk \<Longrightarrow> off + length s + 1 \<le> length blk \<Longrightarrow>
   strcpy h (Some a) off (s @ nul # t) = Inr (h(a \<mapsto> splice off (s @ [nul]) blk))"
  by (simp add: strcpy_def c_chars_terminated store_ok)

lemma strcpy_overflow:
  "nul \<notin> set s \<Longrightarrow> h a = Some blk \<Longrightarrow> length blk < off + length s + 1 \<Longrightarrow>
   strcpy h (Some a) off (s @ nul # t) = Inl OutOfBounds"
  by (simp add: strcpy_def c_chars_terminated store_out_of_bounds)

lemma strcpy_fault:
  "nul \<in> set src \<Longrightarrow> strcpy h p off src = Inl f \<Longrightarrow>
   f = NullDeref \<and> p = None \<or> f = OutOfBounds \<or> f = UseAfterFree \<and> (\<exists>a. p = Some a \<and> h a = None)"
  by (auto simp: strcpy_def c_chars_def store_def split: option.splits if_splits)

lemma strcpy_store:
  assumes "strcpy h p off src = Inr h'"
  obtains a blk blk' where "p = Some a" "h a = Some blk" "h' = h(a \<mapsto> blk')"
    "length blk' = length blk"
proof -
  from assms obtain s where "store h p off (s @ [nul]) = Inr h'"
    by (auto simp: strcpy_def bindR_eq_Inr)
  then show ?thesis using that by (elim store_InrE)
qed

lemma strncmp_string:
  "nul \<notin> set pre \<Longrightarrow> strncmp_eq (s @ nul # t) pre = Inr (take (length pre) s = pre)"
proof (induction s arbitrary: pre)
  case Nil
  then show ?case by (cases pre) auto
next
  case (Cons c s)
  then show ?case by (cases pre) auto
qed

text \<open>Decimal numerals.\<close>

lemma isdigit_simps:
  "isdigit c \<Longrightarrow> \<not> isspace c \<and> c \<noteq> 43 \<and> c \<noteq> 45 \<and> c \<noteq> nul"
  by (auto simp: isdigit_def isspace_def word_le_nat_alt)

lemma strtoul_decimal:
  assumes "ds \<noteq> []" and "\<forall>c \<in> set ds. isdigit c" and "\<not> isdigit c" and "nul \<in> set (c # rest)"
  shows "strtoul (ds @ c # rest) =
    Inr (if 2 ^ 64 \<le> digits_value ds then ULONG_MAX else of_nat (digits_value ds), length ds)"
proof -
  let ?w = "takeWhile (\<lambda>c. c \<noteq> nul) (c # rest)"
  have s: "c_chars (ds @ c # rest) = Inr (ds @ ?w)"
    using assms(2,4) isdigit_simps by (auto simp: c_chars_def takeWhile_append)
  obtain d ds' where ds: "ds = d # ds'" using assms(1) by (cases ds) auto
  then have d: "\<not> isspace d" "d \<noteq> 43" "d \<noteq> 45" using assms(2) isdigit_simps by auto
  have "takeWhile isdigit (ds @ ?w) = ds"
    using assms(2,3) by (simp add: takeWhile_append)
  then show ?thesis
    unfolding strtoul_def s using ds d by (simp add: Let_def)
qed

lemma strtoul_no_digits:
  assumes "nul \<in> set (c # rest)" and "\<not> isspace c" and "\<not> isdigit c" and "c \<noteq> 43" and "c \<noteq> 45"
  shows "strtoul (c # rest) = Inr (0, 0)"
proof -
  have "c_chars (c # rest) = Inr (takeWhile (\<lambda>c. c \<noteq> nul) (c # rest))"
    using assms(1) by (simp add: c_chars_def)
  then show ?thesis using assms(2-5) by (auto simp: strtoul_def Let_def)
qed

end
