(* ===== verification/GetLine.thy ===== *)
theory GetLine
  imports CString
begin

text \<open>
  \<open>sock_getline\<close> of \<open>server/src/socket.c\<close>: one packet is read from a connection, up to a
  newline, into a block that grows. The socket, the allocator and the uninitialised contents
  of the stack buffer are arguments.
\<close>

section \<open>Environment\<close>

text \<open>
  What the \<open>k\<close>-th \<open>recv\<close> on the connection returns: an error or the bytes received (none at
  the end of the stream). \<open>malloc\<close> and \<open>realloc\<close> give, for the heap and a size, \<open>NULL\<close> or
  the address and the whole content of the block. \<open>stack_junk\<close> is what the first
  \<open>SOCK_READBUFSIZE\<close> bytes of the array \<open>buffer\<close> hold when the function is entered.
\<close>

datatype recv_result = RecvError | Received "byte list"

record sockenv =
  recv :: "nat \<Rightarrow> recv_result"
  malloc :: "heap \<Rightarrow> size_t \<Rightarrow> (addr \<times> byte list) option"
  realloc :: "heap \<Rightarrow> addr option \<Rightarrow> size_t \<Rightarrow> (addr \<times> byte list) option"
  stack_junk :: "byte list"

definition SOCK_READBUFSIZE :: nat where "SOCK_READBUFSIZE = 64"

text \<open>
  Documented behaviour: \<open>recv\<close> returns at most as many bytes as it was asked for; \<open>malloc\<close>
  returns a fresh block of the size asked for; \<open>realloc\<close> returns the same or a fresh
  address, a block of the new size, and keeps the contents up to the smaller size.
\<close>

definition sockenv_ok :: "sockenv \<Rightarrow> bool" where
  "sockenv_ok e \<longleftrightarrow>
     (\<forall>k bs. recv e k = Received bs \<longrightarrow> length bs \<le> SOCK_READBUFSIZE) \<and>
     (\<forall>h n a blk. malloc e h n = Some (a, blk) \<longrightarrow> h a = None \<and> length blk = unat n) \<and>
     (\<forall>h n a blk. realloc e h None n = Some (a, blk) \<longrightarrow> h a = None \<and> length blk = unat n) \<and>
     (\<forall>h p old n a blk. h p = Some old \<longrightarrow> realloc e h (Some p) n = Some (a, blk) \<longrightarrow>
        (a = p \<or> h a = None) \<and> length blk = unat n \<and>
        take (min (length old) (unat n)) blk = take (min (length old) (unat n)) old) \<and>
     length (stack_junk e) = SOCK_READBUFSIZE"

section \<open>Model\<close>

text \<open>The locals of the loop: \<open>gl_heap\<close> is the heap, \<open>rbuf\<close> the array \<open>buffer\<close>.\<close>

record getline_state =
  gl_heap :: heap
  rbuf :: "byte list"
  string_ptr :: "addr option"
  str_length :: size_t
  capacity :: size_t

datatype getline_out =
    Again getline_state
  | Found getline_state
  | Aborted getline_state

text \<open>The reallocation; \<open>None\<close> when it fails, which leaves the old block in place.\<close>

definition grow_string :: "sockenv \<Rightarrow> getline_state \<Rightarrow> getline_state option" where
  "grow_string e s =
     (let new_capacity = 2 * capacity s
      in case realloc e (gl_heap s) (string_ptr s) new_capacity of
           None \<Rightarrow> None
         | Some (a, blk) \<Rightarrow>
             let h = (case string_ptr s of None \<Rightarrow> gl_heap s | Some p \<Rightarrow> (gl_heap s)(p := None))
             in Some (s\<lparr>gl_heap := h(a \<mapsto> blk), string_ptr := Some a, capacity := new_capacity\<rparr>))"

text \<open>
  The part of the body after the reallocation: the newline is looked for in the whole
  array, not only in the bytes just received, and \<open>strcpy\<close> copies up to the first NUL.
\<close>

definition append_chunk :: "getline_state \<Rightarrow> size_t \<Rightarrow> getline_out res" where
  "append_chunk s new_length =
     bindR (strchr (rbuf s) newline) (\<lambda>newline_pos.
     case newline_pos of
       Some i \<Rightarrow>
         if length (rbuf s) \<le> i + 1 then Inl OutOfBounds
         else
           let buf = (rbuf s)[i + 1 := nul]
           in bindR (strcpy (gl_heap s) (string_ptr s) (unat (str_length s)) buf) (\<lambda>h.
              Inr (Found (s\<lparr>gl_heap := h, rbuf := buf, str_length := new_length\<rparr>)))
     | None \<Rightarrow>
         bindR (strcpy (gl_heap s) (string_ptr s) (unat (str_length s)) (rbuf s)) (\<lambda>h.
         Inr (Again (s\<lparr>gl_heap := h, str_length := new_length\<rparr>))))"

text \<open>One iteration, which makes the \<open>k\<close>-th call of \<open>recv\<close>.\<close>

definition getline_step :: "sockenv \<Rightarrow> nat \<Rightarrow> getline_state \<Rightarrow> getline_out res" where
  "getline_step e k s =
     (case recv e k of
        RecvError \<Rightarrow> Inr (Aborted s)
      | Received bs \<Rightarrow>
          let s = s\<lparr>rbuf := splice 0 bs (rbuf s)\<rparr>;
              new_length = str_length s + of_nat (length bs)
          in case (if capacity s < new_length then grow_string e s else Some s) of
               None \<Rightarrow> Inr (Aborted s)
             | Some s' \<Rightarrow> append_chunk s' new_length)"

text \<open>The loop over fuel, which bounds the calls of \<open>recv\<close>; \<open>None\<close> means it ran out.\<close>

primrec getline_loop ::
  "sockenv \<Rightarrow> nat \<Rightarrow> nat \<Rightarrow> getline_state \<Rightarrow> (bool \<times> getline_state \<times> nat) res option" where
  "getline_loop e 0 k s = None"
| "getline_loop e (Suc fuel) k s =
     (case getline_step e k s of
        Inl f \<Rightarrow> Some (Inl f)
      | Inr out \<Rightarrow>
          (case out of
             Again s' \<Rightarrow> getline_loop e fuel (Suc k) s'
           | Found s' \<Rightarrow> Some (Inr (False, s', Suc k))
           | Aborted s' \<Rightarrow> Some (Inr (True, s', Suc k))))"

definition getline_start :: "sockenv \<Rightarrow> heap \<Rightarrow> getline_state" where
  "getline_start e h =
     (let buflen = of_nat (SOCK_READBUFSIZE + 1) :: size_t;
          hp = (case malloc e h buflen of
                  None \<Rightarrow> (h, None)
                | Some (a, blk) \<Rightarrow> (h(a \<mapsto> blk), Some a))
      in \<lparr>gl_heap = fst hp, rbuf = stack_junk e @ [nul], string_ptr = snd hp, str_length = 0,
           capacity = buflen - 1\<rparr>)"

text \<open>
  \<open>sock_getline\<close>: the heap, the pointer returned, the new value of \<open>*out_length\<close> (\<open>None\<close>
  when it is not written) and the number of \<open>recv\<close> calls.
\<close>

definition sock_getline ::
  "sockenv \<Rightarrow> nat \<Rightarrow> heap \<Rightarrow> (heap \<times> addr option \<times> size_t option \<times> nat) res option" where
  "sock_getline e fuel h =
     map_option (\<lambda>r. bindR r (\<lambda>(abort, s, k).
         if abort then bindR (free_block (gl_heap s) (string_ptr s)) (\<lambda>h'. Inr (h', None, None, k))
         else Inr (gl_heap s, string_ptr s, Some (str_length s), k)))
       (getline_loop e fuel 0 (getline_start e h))"

section \<open>Ownership of the block\<close>

text \<open>
  Whatever arrives, the function owns one block at a time: the heap is the one it was called
  with, plus the block \<open>string\<close> points to.
\<close>

definition getline_owns :: "sockenv \<Rightarrow> heap \<Rightarrow> getline_state \<Rightarrow> bool" where
  "getline_owns e h s \<longleftrightarrow>
     length (rbuf s) = SOCK_READBUFSIZE + 1 \<and> rbuf s ! SOCK_READBUFSIZE = nul \<and>
     (case string_ptr s of
        None \<Rightarrow> gl_heap s = h \<and> malloc e h 65 = None
      | Some a \<Rightarrow> h a = None \<and> (\<exists>blk. gl_heap s = h(a \<mapsto> blk)))"

lemma SOCK_READBUFSIZE_eq: "SOCK_READBUFSIZE = 64" "SOCK_READBUFSIZE + 1 = 65"
  by (simp_all add: SOCK_READBUFSIZE_def)

lemma getline_start_owns: "sockenv_ok e \<Longrightarrow> getline_owns e h (getline_start e h)"
  by (cases "malloc e h 65")
     (auto simp: getline_owns_def getline_start_def sockenv_ok_def SOCK_READBUFSIZE_eq nth_append
       split: option.splits)

lemma append_chunk_owns:
  assumes owns: "getline_owns e h s"
  shows "case append_chunk s n of
      Inl f \<Rightarrow> f = OutOfBounds \<or> f = NullDeref \<and> malloc e h 65 = None
    | Inr (Again s') \<Rightarrow> getline_owns e h s'
    | Inr (Found s') \<Rightarrow> getline_owns e h s' \<and> string_ptr s' \<noteq> None
    | Inr (Aborted s') \<Rightarrow> False"
proof -
  have len: "length (rbuf s) = 65" and last: "rbuf s ! 64 = nul"
    using owns by (simp_all add: getline_owns_def SOCK_READBUFSIZE_eq)
  have nul: "nul \<in> set (rbuf s)" using nth_mem [of 64 "rbuf s"] by (simp add: len last)
  have copy: "case strcpy (gl_heap s) (string_ptr s) off buf of
      Inl f \<Rightarrow> f = OutOfBounds \<or> f = NullDeref \<and> malloc e h 65 = None
    | Inr h' \<Rightarrow> \<exists>a blk'. string_ptr s = Some a \<and> h a = None \<and> h' = h(a \<mapsto> blk')"
    if "nul \<in> set buf" for off buf
  proof (cases "strcpy (gl_heap s) (string_ptr s) off buf")
    case (Inl f)
    with strcpy_fault [OF that Inl] owns show ?thesis
      by (auto simp: getline_owns_def split: option.splits)
  next
    case (Inr h')
    then obtain a blk blk' where "string_ptr s = Some a" "h' = (gl_heap s)(a \<mapsto> blk')"
      by (rule strcpy_store)
    with Inr owns show ?thesis by (auto simp: getline_owns_def)
  qed
  show ?thesis
    using nul
  proof (cases rule: strchr_total [where c = newline])
    case absent
    with copy [OF nul, of "unat (str_length s)"] owns show ?thesis
      by (auto simp: append_chunk_def getline_owns_def split: sum.splits)
  next
    case (found i)
    then have i: "i < 64" using len last by (cases "i = 64") auto
    let ?buf = "(rbuf s)[i + 1 := nul]"
    have "nul \<in> set ?buf" using i len by (simp add: set_update_memI)
    with copy [OF this, of "unat (str_length s)"] found i owns len last show ?thesis
      by (auto simp: append_chunk_def getline_owns_def nth_list_update SOCK_READBUFSIZE_eq
          split: sum.splits)
  qed
qed

lemma realloc_laws:
  assumes "sockenv_ok e" and "realloc e h (Some p) n = Some (a, blk)" and "h p = Some old"
  shows "a = p \<or> h a = None" and "length blk = unat n"
    and "m \<le> length old \<Longrightarrow> m \<le> unat n \<Longrightarrow> take m blk = take m old"
proof -
  have laws: "(a = p \<or> h a = None) \<and> length blk = unat n \<and>
      take (min (length old) (unat n)) blk = take (min (length old) (unat n)) old"
    using assms by (simp add: sockenv_ok_def)
  then show "a = p \<or> h a = None" "length blk = unat n" by auto
  let ?m = "min (length old) (unat n)"
  assume "m \<le> length old" "m \<le> unat n"
  then have "take m blk = take m (take ?m blk)" "take m (take ?m old) = take m old"
    by (simp_all add: min_def)
  then show "take m blk = take m old" using laws by simp
qed

lemma grow_string_owns:
  assumes ok: "sockenv_ok e" and owns: "getline_owns e h s" and grow: "grow_string e s = Some s'"
  shows "getline_owns e h s'"
proof (cases "string_ptr s")
  case None
  with assms show ?thesis
    by (auto simp: getline_owns_def grow_string_def sockenv_ok_def Let_def split: option.splits)
next
  case (Some a)
  with owns obtain blk where a: "h a = None" "gl_heap s = h(a \<mapsto> blk)"
    by (auto simp: getline_owns_def)
  with Some grow obtain p new where
    new: "realloc e (h(a \<mapsto> blk)) (Some a) (2 * capacity s) = Some (p, new)"
    and s': "s' = s\<lparr>gl_heap := h(p \<mapsto> new), string_ptr := Some p, capacity := 2 * capacity s\<rparr>"
    by (auto simp: grow_string_def Let_def split: option.splits)
  have "p = a \<or> (h(a \<mapsto> blk)) p = None" by (rule realloc_laws [OF ok new]) simp
  with a owns s' show ?thesis by (auto simp: getline_owns_def split: if_splits)
qed

lemma getline_step_owns:
  assumes ok: "sockenv_ok e" and owns: "getline_owns e h s"
  shows "case getline_step e k s of
      Inl f \<Rightarrow> f = OutOfBounds \<or> f = NullDeref \<and> malloc e h 65 = None
    | Inr (Again s') \<Rightarrow> getline_owns e h s'
    | Inr (Found s') \<Rightarrow> getline_owns e h s' \<and> string_ptr s' \<noteq> None
    | Inr (Aborted s') \<Rightarrow> getline_owns e h s'"
proof (cases "recv e k")
  case RecvError
  with owns show ?thesis by (simp add: getline_step_def)
next
  case (Received bs)
  then have bs: "length bs \<le> 64" using ok by (auto simp: sockenv_ok_def SOCK_READBUFSIZE_eq)
  define s1 where "s1 = s\<lparr>rbuf := splice 0 bs (rbuf s)\<rparr>"
  let ?n = "str_length s1 + of_nat (length bs)"
  have s1: "getline_owns e h s1"
    using owns bs
    by (cases "string_ptr s")
       (auto simp: getline_owns_def s1_def splice_def nth_append SOCK_READBUFSIZE_eq)
  have step: "getline_step e k s = (case (if capacity s1 < ?n then grow_string e s1 else Some s1) of
      None \<Rightarrow> Inr (Aborted s1) | Some s' \<Rightarrow> append_chunk s' ?n)"
    unfolding getline_step_def s1_def Received by (simp only: recv_result.case Let_def)
  show ?thesis
  proof (cases "if capacity s1 < ?n then grow_string e s1 else Some s1")
    case None
    then show ?thesis unfolding step by (simp add: s1)
  next
    case (Some s2)
    then have s2: "getline_owns e h s2"
      using s1 grow_string_owns [OF ok s1] by (auto split: if_splits)
    show ?thesis
      using append_chunk_owns [OF s2, of ?n] unfolding step Some by (auto split: sum.splits getline_out.splits)
  qed
qed

lemma getline_loop_owns:
  assumes ok: "sockenv_ok e" and "getline_owns e h s" and "getline_loop e fuel k s = Some r"
  shows "case r of
      Inl f \<Rightarrow> f = OutOfBounds \<or> f = NullDeref \<and> malloc e h 65 = None
    | Inr (abort, s', k') \<Rightarrow> getline_owns e h s' \<and> (\<not> abort \<longrightarrow> string_ptr s' \<noteq> None)"
  using assms(2,3)
proof (induction fuel arbitrary: k s)
  case (Suc fuel)
  show ?case
    using getline_step_owns [OF ok Suc.prems(1), of k] Suc.prems(2) Suc.IH
    by (auto split: sum.splits getline_out.splits)
qed simp

section \<open>What is returned\<close>

text \<open>
  The lengths alone decide whether the block is large enough. \<open>junk_len J M\<close> is the length of
  the string in the array \<open>buffer\<close> when its first \<open>M\<close> bytes have been received and the others
  are still \<open>J\<close>. \<open>chunks_fit\<close> goes through the chunks before the newline: \<open>len\<close> bytes
  were stored, \<open>cap\<close> is \<open>capacity\<close>, \<open>B\<close> the size of the block, \<open>M\<close> the longest chunk so far;
  the last chunk has \<open>c\<close> bytes, the first \<open>n\<close> of them up to the newline.
\<close>

definition junk_len :: "byte list \<Rightarrow> nat \<Rightarrow> nat" where
  "junk_len J M = M + length (takeWhile (\<lambda>c. c \<noteq> nul) (drop M J))"

primrec chunks_fit ::
  "byte list \<Rightarrow> nat list \<Rightarrow> nat \<Rightarrow> nat \<Rightarrow> nat \<Rightarrow> nat \<Rightarrow> nat \<Rightarrow> nat \<Rightarrow> bool" where
  "chunks_fit J [] c n len cap B M =
     (len + n + 1 \<le> (if cap < len + c then 2 * cap else B))"
| "chunks_fit J (x # xs) c n len cap B M =
     (let M' = max M x; B' = (if cap < len + x then 2 * cap else B);
          cap' = (if cap < len + x then 2 * cap else cap)
      in len + junk_len J M' + 1 \<le> B' \<and> chunks_fit J xs c n (len + x) cap' B' M')"

definition str_inv :: "heap \<Rightarrow> getline_state \<Rightarrow> byte list \<Rightarrow> nat \<Rightarrow> nat \<Rightarrow> bool" where
  "str_inv h s got cap B \<longleftrightarrow>
     (\<exists>a blk. string_ptr s = Some a \<and> h a = None \<and> gl_heap s = h(a \<mapsto> blk) \<and> length blk = B \<and>
        take (length got) blk = got) \<and>
     unat (str_length s) = length got \<and> unat (capacity s) = cap \<and>
     length got \<le> cap \<and> cap \<le> B \<and> 64 \<le> cap \<and> cap < 2 ^ 61"

definition buf_inv :: "byte list \<Rightarrow> getline_state \<Rightarrow> nat \<Rightarrow> bool" where
  "buf_inv J s M \<longleftrightarrow>
     (\<exists>pre. rbuf s = pre @ drop M J \<and> length pre = M \<and> M \<le> 64 \<and>
        nul \<notin> set pre \<and> newline \<notin> set pre)"

text \<open>\<open>h'\<close> is \<open>h\<close> with a new block at \<open>p\<close> that begins with the string \<open>s\<close> and its NUL.\<close>

definition packet_block :: "heap \<Rightarrow> heap \<Rightarrow> addr option \<Rightarrow> byte list \<Rightarrow> bool" where
  "packet_block h h' p s \<longleftrightarrow>
     (\<exists>a blk. p = Some a \<and> h a = None \<and> h' = h(a \<mapsto> blk) \<and> take (length s) blk = s \<and>
        length s < length blk \<and> blk ! length s = nul)"

lemma packet_blockI:
  "p = Some a \<Longrightarrow> h a = None \<Longrightarrow> h' = h(a \<mapsto> blk) \<Longrightarrow> take (length s) blk = s \<Longrightarrow>
   length s < length blk \<Longrightarrow> blk ! length s = nul \<Longrightarrow> packet_block h h' p s"
  unfolding packet_block_def by blast

text \<open>The allocator does not refuse the block, nor a larger one in its place.\<close>

definition alloc_succeeds :: "sockenv \<Rightarrow> heap \<Rightarrow> bool" where
  "alloc_succeeds e h \<longleftrightarrow>
     malloc e h 65 \<noteq> None \<and>
     (\<forall>a blk n. h a = None \<longrightarrow> realloc e (h(a \<mapsto> blk)) (Some a) n \<noteq> None)"

lemma recv_len: "sockenv_ok e \<Longrightarrow> recv e k = Received bs \<Longrightarrow> length bs \<le> 64"
  by (auto simp: sockenv_ok_def SOCK_READBUFSIZE_eq)

lemma make_room:
  assumes ok: "sockenv_ok e" and succ: "alloc_succeeds e h" and inv: "str_inv h s got cap B"
    and c: "c \<le> 64" and small: "length got + c < 2 ^ 60"
  obtains s' where
    "(if capacity s < str_length s + of_nat c then grow_string e s else Some s) = Some s'"
    "rbuf s' = rbuf s"
    "str_inv h s' got (if cap < length got + c then 2 * cap else cap)
       (if cap < length got + c then 2 * cap else B)"
    "length got + c \<le> (if cap < length got + c then 2 * cap else cap)"
proof (cases "cap < length got + c")
  case room: False
  have "unat (str_length s + of_nat c) = length got + c"
    using inv c small by (simp add: str_inv_def unat_add_fits unat_of_nat_fits)
  with room inv show ?thesis
    by (intro that [of s]) (simp_all add: word_less_nat_alt str_inv_def)
next
  case grow: True
  obtain a blk where s: "string_ptr s = Some a" "h a = None" "gl_heap s = h(a \<mapsto> blk)"
    "length blk = B" "take (length got) blk = got"
    and w: "unat (str_length s) = length got" "unat (capacity s) = cap"
    and cap: "length got \<le> cap" "cap \<le> B" "64 \<le> cap" "cap < 2 ^ 61"
    using inv unfolding str_inv_def by blast
  have n: "unat (str_length s + of_nat c) = length got + c"
    using w c small by (simp add: unat_add_fits unat_of_nat_fits)
  have cap2: "unat (2 * capacity s) = 2 * cap"
  proof -
    have "unat (capacity s) + unat (capacity s) < 2 ^ LENGTH(64)" using w(2) cap(4) by simp
    then have "unat (capacity s + capacity s) = cap + cap" using w(2) by (simp only: unat_add_fits)
    then show ?thesis by (simp only: mult_2)
  qed
  obtain p new where new: "realloc e (h(a \<mapsto> blk)) (Some a) (2 * capacity s) = Some (p, new)"
    using succ s(2) unfolding alloc_succeeds_def by (metis not_None_eq surj_pair)
  let ?s = "s\<lparr>gl_heap := h(p \<mapsto> new), string_ptr := Some p, capacity := 2 * capacity s\<rparr>"
  have p: "p = a \<or> (h(a \<mapsto> blk)) p = None" and len: "length new = 2 * cap"
    and keep: "take (length got) new = take (length got) blk"
    using realloc_laws [OF ok new, of blk] cap s(4) cap2 by simp_all
  have "(if capacity s < str_length s + of_nat c then grow_string e s else Some s) = Some ?s"
    using n w(2) grow new s by (simp add: word_less_nat_alt grow_string_def Let_def)
  moreover have "str_inv h ?s got (2 * cap) (2 * cap)"
    using p s keep len w(1) cap cap2 grow small
    by (auto simp: str_inv_def split: if_splits)
  ultimately show ?thesis
    using grow cap c by (intro that [of ?s]) simp_all
qed

text \<open>Receiving into the array.\<close>

lemma buf_received:
  assumes "buf_inv J s M" and "length J = 65" and "length bs \<le> 64"
    and "nul \<notin> set bs" and "newline \<notin> set bs"
  shows "\<exists>w. splice 0 bs (rbuf s) = bs @ w @ drop (max M (length bs)) J \<and>
    length w = max M (length bs) - length bs \<and> nul \<notin> set w \<and> newline \<notin> set w"
proof -
  obtain pre where pre: "rbuf s = pre @ drop M J" "length pre = M" "M \<le> 64"
    "nul \<notin> set pre" "newline \<notin> set pre"
    using assms(1) by (auto simp: buf_inv_def)
  have "M + (length bs - M) = max M (length bs)" by simp
  then have "splice 0 bs (rbuf s) = bs @ drop (length bs) pre @ drop (max M (length bs)) J"
    using pre by (simp add: splice_def drop_drop add.commute)
  moreover have "length (drop (length bs) pre) = max M (length bs) - length bs"
    using pre by simp
  ultimately show ?thesis using pre(4,5) by (metis in_set_dropD)
qed

lemma append_text:
  assumes inv: "str_inv h s got cap B" and fits: "length got + length (bs @ w) + 1 \<le> B"
    and "nul \<notin> set (bs @ w)"
  shows "\<exists>a blk. string_ptr s = Some a \<and> h a = None \<and> length blk = B \<and>
    take (length got + length bs) blk = got @ bs \<and>
    (w = [] \<longrightarrow> blk ! (length got + length bs) = nul) \<and>
    strcpy (gl_heap s) (string_ptr s) (unat (str_length s)) (bs @ w @ nul # t) =
      Inr (h(a \<mapsto> blk))"
proof -
  obtain a blk where s: "string_ptr s = Some a" "h a = None" "gl_heap s = h(a \<mapsto> blk)"
    "length blk = B" "take (length got) blk = got" "unat (str_length s) = length got"
    using inv unfolding str_inv_def by blast
  let ?new = "splice (length got) ((bs @ w) @ [nul]) blk"
  have new: "?new = (got @ bs) @ w @ [nul] @ drop (length got + length (bs @ w) + 1) blk"
    using s(5) by (simp add: splice_def)
  have "strcpy (gl_heap s) (string_ptr s) (unat (str_length s)) ((bs @ w) @ nul # t) =
      Inr (h(a \<mapsto> ?new))"
    using strcpy_ok [of "bs @ w" "gl_heap s" a blk "length got" t] assms(3) fits s by simp
  moreover have "length ?new = B" using fits s(4) by simp
  moreover have "take (length got + length bs) ?new = got @ bs"
    unfolding new by (subst take_append) simp
  moreover have "w = [] \<longrightarrow> ?new ! (length got + length bs) = nul"
    unfolding new by (simp add: nth_append)
  ultimately show ?thesis using s(1,2) by (intro exI [of _ a] exI [of _ ?new]) simp
qed

lemma append_overflow:
  assumes inv: "str_inv h s got cap B" and "B < length got + length u + 1" and "nul \<notin> set u"
  shows "strcpy (gl_heap s) (string_ptr s) (unat (str_length s)) (u @ nul # t) = Inl OutOfBounds"
  using assms by (auto simp: str_inv_def intro!: strcpy_overflow)

text \<open>One iteration, without and with a newline in the bytes received.\<close>

lemma junk_split:
  assumes "nul \<in> set (drop M J)"
  obtains u t where "drop M J = u @ nul # t" "nul \<notin> set u" "junk_len J M = M + length u"
proof -
  obtain u t where "drop M J = u @ nul # t" "nul \<notin> set u"
    using assms by (metis split_list_first)
  then show ?thesis
    using that by (auto simp: junk_len_def takeWhile_append)
qed

text \<open>A chunk has been received, and the string has room for it.\<close>

lemma chunk_stored:
  assumes ok: "sockenv_ok e" "alloc_succeeds e h" and inv: "str_inv h s got cap B"
    and recv: "recv e k = Received bs" and small: "length got + length bs < 2 ^ 60"
  obtains s2 where "getline_step e k s = append_chunk s2 (str_length s + of_nat (length bs))"
    and "rbuf s2 = splice 0 bs (rbuf s)"
    and "str_inv h s2 got (if cap < length got + length bs then 2 * cap else cap)
       (if cap < length got + length bs then 2 * cap else B)"
    and "length got + length bs \<le> (if cap < length got + length bs then 2 * cap else cap)"
    and "unat (str_length s + of_nat (length bs)) = length got + length bs" and "length bs \<le> 64"
proof -
  have len: "length bs \<le> 64" using ok(1) recv by (auto simp: sockenv_ok_def SOCK_READBUFSIZE_eq)
  let ?s1 = "s\<lparr>rbuf := splice 0 bs (rbuf s)\<rparr>"
  have inv1: "str_inv h ?s1 got cap B" using inv by (simp add: str_inv_def)
  obtain s2 where s2: "(if capacity ?s1 < str_length ?s1 + of_nat (length bs)
      then grow_string e ?s1 else Some ?s1) = Some s2" "rbuf s2 = rbuf ?s1"
    "str_inv h s2 got (if cap < length got + length bs then 2 * cap else cap)
       (if cap < length got + length bs then 2 * cap else B)"
    "length got + length bs \<le> (if cap < length got + length bs then 2 * cap else cap)"
    by (rule make_room [OF ok inv1 len small])
  have "getline_step e k s = append_chunk s2 (str_length ?s1 + of_nat (length bs))"
    unfolding getline_step_def recv recv_result.case Let_def s2(1) option.case ..
  moreover have "unat (str_length s + of_nat (length bs)) = length got + length bs"
    using inv small by (simp add: str_inv_def unat_add_fits unat_of_nat_fits)
  ultimately show thesis using that s2(2-4) len by simp
qed

lemma step_again:
  assumes ok: "sockenv_ok e" "alloc_succeeds e h" and J: "length J = 65" "J ! 64 = nul" "newline \<notin> set J"
    and inv: "str_inv h s got cap B" "buf_inv J s M" and recv: "recv e k = Received bs"
    and bs: "nul \<notin> set bs" "newline \<notin> set bs" and small: "length got + length bs < 2 ^ 60"
    and M': "M' = max M (length bs)"
    and cap': "cap' = (if cap < length got + length bs then 2 * cap else cap)"
    and B': "B' = (if cap < length got + length bs then 2 * cap else B)"
  shows "if length got + junk_len J M' + 1 \<le> B'
    then \<exists>s'. getline_step e k s = Inr (Again s') \<and> str_inv h s' (got @ bs) cap' B' \<and> buf_inv J s' M'
    else getline_step e k s = Inl OutOfBounds"
proof -
  let ?n = "str_length s + of_nat (length bs)"
  obtain s2 where step: "getline_step e k s = append_chunk s2 ?n" and buf2: "rbuf s2 = splice 0 bs (rbuf s)"
    and inv2: "str_inv h s2 got cap' B'" "length got + length bs \<le> cap'"
    and n: "unat ?n = length got + length bs" and len: "length bs \<le> 64"
    unfolding cap' B' by (rule chunk_stored [OF ok inv(1) recv small])
  have M64: "M' \<le> 64" using len inv(2) M' by (auto simp: buf_inv_def)
  obtain w where w: "splice 0 bs (rbuf s) = bs @ w @ drop M' J" "length w = M' - length bs"
    "nul \<notin> set w" "newline \<notin> set w"
    using buf_received [OF inv(2) J(1) len bs] M' by auto
  have "drop M' J ! (64 - M') = nul" using J M64 by simp
  then have "nul \<in> set (drop M' J)" using nth_mem [of "64 - M'" "drop M' J"] J M64 by simp
  then obtain u t where u: "drop M' J = u @ nul # t" "nul \<notin> set u" "junk_len J M' = M' + length u"
    by (rule junk_split)
  have nlu: "newline \<notin> set u" using J(3) u(1) by (metis Un_iff in_set_dropD set_append)
  have buf: "rbuf s2 = bs @ (w @ u) @ nul # t" using buf2 w(1) u(1) by simp
  have none: "strchr (rbuf s2) newline = Inr None"
    using strchr_absent [of "bs @ w @ u" newline t] buf bs w(3,4) u(2) nlu by simp
  show ?thesis
  proof (cases "length got + junk_len J M' + 1 \<le> B'")
    case True
    obtain a blk where blk: "string_ptr s2 = Some a" "h a = None" "length blk = B'"
      "take (length got + length bs) blk = got @ bs"
      "strcpy (gl_heap s2) (string_ptr s2) (unat (str_length s2)) (rbuf s2) = Inr (h(a \<mapsto> blk))"
    proof -
      have "length got + length (bs @ (w @ u)) + 1 \<le> B'" using True u(3) w(2) M' by simp
      moreover have "nul \<notin> set (bs @ (w @ u))" using bs w u by simp
      ultimately show ?thesis
        using append_text [OF inv2(1), of bs "w @ u" t] that unfolding buf by blast
    qed
    let ?s = "s2\<lparr>gl_heap := h(a \<mapsto> blk), str_length := ?n\<rparr>"
    have "str_inv h ?s (got @ bs) cap' B'"
      using inv2 n blk(1-4) by (auto simp: str_inv_def)
    moreover have "buf_inv J ?s M'"
      using buf u(1) w bs M' M64 by (auto simp: buf_inv_def intro!: exI [of _ "bs @ w"])
    ultimately show ?thesis
      using True step blk(5) none by (simp add: append_chunk_def)
  next
    case False
    have "length got + length (bs @ w @ u) + 1 > B'" using False u(3) w(2) M' by simp
    then show ?thesis
      using append_overflow [OF inv2(1), of "bs @ w @ u" t] False step none buf bs(1) w(3) u(2)
      by (simp add: append_chunk_def)
  qed
qed

lemma step_found:
  assumes ok: "sockenv_ok e" "alloc_succeeds e h" and J: "length J = 65"
    and inv: "str_inv h s got cap B" "buf_inv J s M"
    and recv: "recv e k = Received (l @ newline # extra)"
    and l: "nul \<notin> set l" "newline \<notin> set l" and small: "length got + length l + length extra < 2 ^ 59"
    and B': "B' = (if cap < length got + Suc (length l + length extra) then 2 * cap else B)"
  shows "if length got + length l + 2 \<le> B'
    then \<exists>s'. getline_step e k s = Inr (Found s') \<and>
      packet_block h (gl_heap s') (string_ptr s') (got @ l @ [newline]) \<and>
      unat (str_length s') = length got + length l + 1 + length extra
    else getline_step e k s = Inl OutOfBounds"
proof -
  let ?bs = "l @ newline # extra"
  let ?n = "str_length s + of_nat (length ?bs)"
  have small1: "length got + length ?bs < 2 ^ 60" using small by simp
  obtain s2 where step: "getline_step e k s = append_chunk s2 ?n" and buf2: "rbuf s2 = splice 0 ?bs (rbuf s)"
    and grown: "str_inv h s2 got (if cap < length got + length ?bs then 2 * cap else cap)
       (if cap < length got + length ?bs then 2 * cap else B)"
    and n': "unat ?n = length got + length ?bs" and len: "length ?bs \<le> 64"
    by (rule chunk_stored [OF ok inv(1) recv small1])
  obtain cap' where inv2: "str_inv h s2 got cap' B'" using grown B' by auto
  have n: "unat ?n = length got + length l + 1 + length extra" using n' by simp
  obtain pre where pre: "rbuf s = pre @ drop M J" "length pre = M" "M \<le> 64"
    using inv(2) by (auto simp: buf_inv_def)
  define rest where "rest = drop (length ?bs) (rbuf s)"
  have rest: "splice 0 ?bs (rbuf s) = ?bs @ rest" by (simp add: splice_def rest_def)
  have lrest: "length ?bs + length rest = 65" using pre J len by (simp add: rest_def)
  have buf: "rbuf s2 = l @ newline # extra @ rest" using buf2 rest by simp
  have found: "strchr (rbuf s2) newline = Inr (Some (length l))"
    using strchr_found [OF l] buf by simp
  obtain t where buf': "(rbuf s2)[length l + 1 := nul] = (l @ [newline]) @ [] @ nul # t"
    and long: "length l + 1 < length (rbuf s2)"
  proof (cases "extra @ rest")
    case (Cons x xs)
    show ?thesis
    proof (rule that [of xs])
      show "(rbuf s2)[length l + 1 := nul] = (l @ [newline]) @ [] @ nul # xs"
        unfolding buf Cons by (simp add: list_update_append)
    qed (simp add: buf Cons)
  qed (use len lrest in \<open>simp\<close>)
  have nul: "nul \<notin> set ((l @ [newline]) @ [])" using l by simp
  show ?thesis
  proof (cases "length got + length l + 2 \<le> B'")
    case True
    obtain a blk where blk: "string_ptr s2 = Some a" "h a = None" "length blk = B'"
      "take (length got + length (l @ [newline])) blk = got @ l @ [newline]"
      "blk ! (length got + length (l @ [newline])) = nul"
      "strcpy (gl_heap s2) (string_ptr s2) (unat (str_length s2))
         ((rbuf s2)[length l + 1 := nul]) = Inr (h(a \<mapsto> blk))"
      using append_text [OF inv2 _ nul, of t] True unfolding buf' by auto
    have "packet_block h (h(a \<mapsto> blk)) (string_ptr s2) (got @ l @ [newline])"
      using blk True by (intro packet_blockI [of _ a _ _ blk]) simp_all
    then show ?thesis
      using True step found long n blk(6) by (simp add: append_chunk_def)
  next
    case False
    then show ?thesis
      using append_overflow [OF inv2, of "l @ [newline]" t] nul buf' step found long
      by (simp add: append_chunk_def)
  qed
qed

text \<open>The whole loop, when the newline comes in the chunk after \<open>cs\<close>.\<close>

lemma loop_result:
  assumes ok: "sockenv_ok e" "alloc_succeeds e h" and J: "length J = 65" "J ! 64 = nul" "newline \<notin> set J"
    and inv: "str_inv h s got cap B" "buf_inv J s M"
    and recvs: "\<forall>i < length cs. recv e (k + i) = Received (cs ! i)"
      "recv e (k + length cs) = Received (l @ newline # extra)"
    and cs: "\<forall>bs \<in> set cs. nul \<notin> set bs \<and> newline \<notin> set bs" and l: "nul \<notin> set l" "newline \<notin> set l"
    and small: "length got + length (concat cs) + length l + length extra < 2 ^ 59"
    and fuel: "length cs < fuel"
  shows "if chunks_fit J (map length cs) (Suc (length l + length extra)) (Suc (length l))
        (length got) cap B M
    then \<exists>s'. getline_loop e fuel k s = Some (Inr (False, s', k + length cs + 1)) \<and>
      packet_block h (gl_heap s') (string_ptr s') (got @ concat cs @ l @ [newline]) \<and>
      unat (str_length s') = length got + length (concat cs) + length l + 1 + length extra
    else getline_loop e fuel k s = Some (Inl OutOfBounds)"
  using inv recvs cs small fuel
proof (induction cs arbitrary: fuel k s got cap B M)
  case Nil
  obtain f where f: "fuel = Suc f" using Nil.prems(7) by (cases fuel) auto
  have "length got + length l + length extra < 2 ^ 59" using Nil.prems(6) by simp
  from step_found [OF ok J(1) Nil.prems(1,2) _ l this refl, of k] Nil.prems(4) show ?case
    by (auto simp: f split: if_splits)
next
  case (Cons bs cs)
  obtain f where f: "fuel = Suc f" using Cons.prems(7) by (cases fuel) auto
  have recv: "recv e k = Received bs" using Cons.prems(3) by force
  have bs: "nul \<notin> set bs" "newline \<notin> set bs" using Cons.prems(5) by auto
  have small: "length got + length bs < 2 ^ 60" using Cons.prems(6) by simp
  define M' where "M' = max M (length bs)"
  define cap' where "cap' = (if cap < length got + length bs then 2 * cap else cap)"
  define B' where "B' = (if cap < length got + length bs then 2 * cap else B)"
  note step = step_again [OF ok J Cons.prems(1,2) recv bs small M'_def cap'_def B'_def]
  have fit: "chunks_fit J (map length (bs # cs)) c n (length got) cap B M \<longleftrightarrow>
      length got + junk_len J M' + 1 \<le> B' \<and>
      chunks_fit J (map length cs) c n (length (got @ bs)) cap' B' M'" for c n
    by (simp add: M'_def cap'_def B'_def Let_def)
  show ?case
  proof (cases "length got + junk_len J M' + 1 \<le> B'")
    case True
    with step obtain s' where s': "getline_step e k s = Inr (Again s')"
      "str_inv h s' (got @ bs) cap' B'" "buf_inv J s' M'" by auto
    have loop: "getline_loop e fuel k s = getline_loop e f (Suc k) s'" using s'(1) by (simp add: f)
    have recvs: "\<forall>i < length cs. recv e (Suc k + i) = Received (cs ! i)"
      "recv e (Suc k + length cs) = Received (l @ newline # extra)"
      using Cons.prems(3,4) by fastforce+
    have rest: "\<forall>bs \<in> set cs. nul \<notin> set bs \<and> newline \<notin> set bs"
      "length (got @ bs) + length (concat cs) + length l + length extra < 2 ^ 59" "length cs < f"
      using Cons.prems(5-7) f by simp_all
    show ?thesis
      using Cons.IH [OF s'(2,3) recvs rest] True unfolding fit loop
      by (simp add: add.assoc split: if_splits)
  next
    case False
    with step have "getline_step e k s = Inl OutOfBounds" by auto
    with False show ?thesis unfolding fit by (simp add: f)
  qed
qed


lemma start_inv:
  assumes "sockenv_ok e" and "alloc_succeeds e h"
  shows "str_inv h (getline_start e h) [] 64 65" and "buf_inv (stack_junk e @ [nul]) (getline_start e h) 0"
proof -
  have "malloc e h 65 \<noteq> None" using assms(2) by (simp add: alloc_succeeds_def)
  then obtain a blk where "malloc e h 65 = Some (a, blk)" by auto
  moreover from this have "h a = None \<and> length blk = 65" using assms(1) by (simp add: sockenv_ok_def)
  ultimately show "str_inv h (getline_start e h) [] 64 65"
    by (auto simp: str_inv_def getline_start_def SOCK_READBUFSIZE_eq simp del: fun_upd_apply)
  show "buf_inv (stack_junk e @ [nul]) (getline_start e h) 0"
    by (simp add: buf_inv_def getline_start_def Let_def)
qed

text \<open>
  A packet arrives: chunks \<open>cs\<close> without a newline, then a chunk with the newline, which may be
  followed by the \<open>extra\<close> bytes of what the client sends next. There are no NUL bytes.
\<close>

definition packet_arrives ::
  "sockenv \<Rightarrow> byte list list \<Rightarrow> byte list \<Rightarrow> byte list \<Rightarrow> bool" where
  "packet_arrives e cs l extra \<longleftrightarrow>
     (\<forall>i < length cs. recv e i = Received (cs ! i)) \<and>
     recv e (length cs) = Received (l @ newline # extra) \<and>
     (\<forall>bs \<in> set (l # cs). nul \<notin> set bs \<and> newline \<notin> set bs) \<and>
     length (concat cs) + length l + length extra < 2 ^ 59"

lemma getline_run:
  assumes ok: "sockenv_ok e" "alloc_succeeds e h" and J: "newline \<notin> set (stack_junk e)"
    and pk: "packet_arrives e cs l extra" and fuel: "length cs < fuel"
  shows "if chunks_fit (stack_junk e @ [nul]) (map length cs) (Suc (length l + length extra))
        (Suc (length l)) 0 64 65 0
    then \<exists>h' p. packet_block h h' p (concat cs @ l @ [newline]) \<and>
      sock_getline e fuel h = Some (Inr (h', p,
        Some (of_nat (length (concat cs @ l @ [newline]) + length extra)), length cs + 1))
    else sock_getline e fuel h = Some (Inl OutOfBounds)"
proof -
  have J': "length (stack_junk e @ [nul]) = 65" "(stack_junk e @ [nul]) ! 64 = nul"
    "newline \<notin> set (stack_junk e @ [nul])"
    using ok(1) J by (simp_all add: sockenv_ok_def SOCK_READBUFSIZE_eq nth_append)
  have n: "w = of_nat n" if "unat w = n" for w :: size_t and n using that by auto
  show ?thesis
    using loop_result [OF ok J' start_inv [OF ok], of cs 0 l extra fuel] pk fuel
    by (auto simp: packet_arrives_def sock_getline_def add.assoc dest!: n split: if_splits)
qed

lemma junk_len_bounds:
  assumes "M \<le> length J"
  shows "M \<le> junk_len (J @ [nul]) M" and "junk_len (J @ [nul]) M \<le> length J"
proof -
  have "length (takeWhile (\<lambda>c. c \<noteq> nul) (drop M J @ [nul])) \<le> length (drop M J)"
    using length_takeWhile_le [of _ "drop M J"] by (simp add: takeWhile_tail)
  then show "junk_len (J @ [nul]) M \<le> length J"
    using assms by (simp add: junk_len_def)
qed (simp add: junk_len_def)

lemma getline_memory:
  assumes "sockenv_ok e" and "sock_getline e fuel h = Some r"
  shows "case r of
      Inl f \<Rightarrow> f = OutOfBounds \<or> f = NullDeref \<and> malloc e h 65 = None
    | Inr (h', None, out_length, k) \<Rightarrow> h' = h \<and> out_length = None
    | Inr (h', Some a, out_length, k) \<Rightarrow>
        h a = None \<and> (\<exists>blk. h' = h(a \<mapsto> blk)) \<and> out_length \<noteq> None"
proof -
  obtain r' where loop: "getline_loop e fuel 0 (getline_start e h) = Some r'"
    using assms(2) by (auto simp: sock_getline_def)
  note inv = getline_loop_owns [OF assms(1) getline_start_owns [OF assms(1)] loop]
  show ?thesis
  proof (cases r')
    case (Inl f)
    with inv loop assms(2) show ?thesis by (auto simp: sock_getline_def)
  next
    case (Inr x)
    obtain abort s k where r': "r' = Inr (abort, s, k)" using Inr by (cases x) auto
    with inv have owns: "getline_owns e h s" "\<not> abort \<Longrightarrow> string_ptr s \<noteq> None" by auto
    show ?thesis
    proof (cases "string_ptr s")
      case None
      then have "abort" using owns(2) by auto
      with None owns(1) loop r' assms(2) show ?thesis
        by (auto simp: sock_getline_def getline_owns_def)
    next
      case (Some a)
      with owns(1) obtain blk where a: "h a = None" "gl_heap s = h(a \<mapsto> blk)"
        by (auto simp: getline_owns_def)
      with Some loop r' assms(2) show ?thesis
        by (cases abort) (auto simp: sock_getline_def free_ok)
    qed
  qed
qed

lemma getline_two_chunks:
  assumes "sockenv_ok e" and "alloc_succeeds e h" and "newline \<notin> set (stack_junk e)"
    and "packet_arrives e cs l extra" and "length cs \<le> 1" and "length (concat cs) + length l \<le> 126"
    and "length cs < fuel"
  shows "\<exists>h' p. packet_block h h' p (concat cs @ l @ [newline]) \<and>
    sock_getline e fuel h = Some (Inr (h', p,
      Some (of_nat (length (concat cs @ l @ [newline]) + length extra)), length cs + 1))"
proof -
  have J: "length (stack_junk e) = 64" using assms(1) by (simp add: sockenv_ok_def SOCK_READBUFSIZE_eq)
  have last: "length l + length extra < 64"
    using recv_len [OF assms(1), of "length cs" "l @ newline # extra"] assms(4)
    by (simp add: packet_arrives_def)
  have "chunks_fit (stack_junk e @ [nul]) (map length cs) (Suc (length l + length extra))
      (Suc (length l)) 0 64 65 0"
  proof (cases cs)
    case Nil
    with last show ?thesis by simp
  next
    case (Cons a cs')
    then have "length a \<le> 64"
      using recv_len [OF assms(1), of 0 a] assms(4) by (simp add: packet_arrives_def)
    with Cons junk_len_bounds [of "length a" "stack_junk e"] J assms(5,6) last show ?thesis
      by (simp add: Let_def)
  qed
  then show ?thesis
    using getline_run [OF assms(1-4,7)] by simp
qed

section \<open>Properties\<close>

text \<open>
  C29: Ownership of memory in \<open>sock_getline\<close>, for every sequence of answers of \<open>recv\<close>, \<open>malloc\<close>
  and \<open>realloc\<close>. When the function returns \<open>NULL\<close> the heap is as it found it; when it returns
  a string, that is one new block and every other block is untouched: nothing leaks and
  nothing is freed twice. The faults it can run into are a write past the end of the block
  and, when \<open>malloc\<close> failed, a write through \<open>NULL\<close>.
\<close>

theorem sock_getline_memory:
  assumes "sockenv_ok e" and "sock_getline e fuel h = Some r"
  shows "case r of
      Inl f \<Rightarrow> f = OutOfBounds \<or> f = NullDeref \<and> malloc e h 65 = None
    | Inr (h', None, out_length, k) \<Rightarrow> h' = h \<and> out_length = None
    | Inr (h', Some a, out_length, k) \<Rightarrow>
        h a = None \<and> (\<exists>blk. h' = h(a \<mapsto> blk)) \<and> out_length \<noteq> None"
  by (rule getline_memory [OF assms])


text \<open>
  A packet of at most 127 bytes, newline included, that arrives in one or two chunks is
  returned, whatever the uninitialised part of the array holds, newlines apart.
\<close>

theorem sock_getline_two_chunks:
  assumes "sockenv_ok e" and "alloc_succeeds e h" and "newline \<notin> set (stack_junk e)"
    and "packet_arrives e cs l extra" and "length cs \<le> 1" and "length (concat cs) + length l \<le> 126"
    and "length cs < fuel"
  shows "\<exists>h' p. packet_block h h' p (concat cs @ l @ [newline]) \<and>
    sock_getline e fuel h = Some (Inr (h', p,
      Some (of_nat (length (concat cs @ l @ [newline]) + length extra)), length cs + 1))"
  by (rule getline_two_chunks [OF assms])

text \<open>
  Packets that overflow the block. A packet whose first chunk fills the array overflows
  unless the next chunk ends it with at most 63 bytes: \<open>realloc\<close> drops the extra byte
  that \<open>malloc\<close> reserved for the NUL. And because \<open>strcpy\<close> copies what earlier chunks left in
  the array, a packet as short as 35 bytes overflows when its first chunk has more than 32
  bytes and a short second chunk does not end it.
\<close>

theorem sock_getline_overflow:
  assumes "sockenv_ok e" and "alloc_succeeds e h" and "newline \<notin> set (stack_junk e)"
    and "packet_arrives e (a # cs) l extra" and "length (a # cs) < fuel"
    and "length a = 64 \<and> (cs \<noteq> [] \<or> length l = 63) \<or>
      32 < length a \<and> cs \<noteq> [] \<and> length a + length (hd cs) \<le> 64"
  shows "sock_getline e fuel h = Some (Inl OutOfBounds)"
proof -
  have J: "length (stack_junk e) = 64" using assms(1) by (simp add: sockenv_ok_def SOCK_READBUFSIZE_eq)
  have a: "length a \<le> 64"
    using recv_len [OF assms(1), of 0 a] assms(4) by (auto simp: packet_arrives_def)
  have b: "length b \<le> 64" if "cs = b # cs'" for b cs'
    using recv_len [OF assms(1), of 1 b] assms(4) that by (auto simp: packet_arrives_def)
  have "\<not> chunks_fit (stack_junk e @ [nul]) (map length (a # cs)) (Suc (length l + length extra))
      (Suc (length l)) 0 64 65 0"
  proof (cases cs)
    case Nil
    with assms(6) show ?thesis by (simp add: Let_def)
  next
    case (Cons b cs')
    let ?M = "max (length a) (length b)"
    have "?M \<le> junk_len (stack_junk e @ [nul]) ?M"
      using junk_len_bounds [of ?M "stack_junk e"] a b [OF Cons] J by simp
    with assms(6) a Cons show ?thesis by (auto simp: Let_def)
  qed
  then show ?thesis
    using getline_run [OF assms(1-5)] by simp
qed


section \<open>Witnesses\<close>

text \<open>
  A connection that delivers the given chunks and then the end of the stream, with an
  allocator that uses the address 0 and stack contents without NUL.
\<close>

definition sockenv_example :: "byte list list \<Rightarrow> sockenv" where
  "sockenv_example bss =
     \<lparr>recv = (\<lambda>k. Received (if k < length bss then take 64 (bss ! k) else [])),
      malloc = (\<lambda>h n. if h 0 = None then Some (0, replicate (unat n) 0xAA) else None),
      realloc = (\<lambda>h p n. case p of
          None \<Rightarrow> if h 0 = None then Some (0, replicate (unat n) 0xAA) else None
        | Some a \<Rightarrow> map_option (\<lambda>old. (a, take (unat n) old @ replicate (unat n - length old) 0xAA)) (h a)),
      stack_junk = replicate 64 0xAA\<rparr>"

lemma sockenv_example_simps [simp]:
  "stack_junk (sockenv_example bss) = replicate 64 0xAA"
  "recv (sockenv_example bss) k = Received (if k < length bss then take 64 (bss ! k) else [])"
  by (simp_all add: sockenv_example_def)

lemma sockenv_example_ok: "sockenv_ok (sockenv_example bss)"
  unfolding sockenv_ok_def sockenv_example_def SOCK_READBUFSIZE_def by (auto simp: min_def)

lemma sockenv_example_alloc: "alloc_succeeds (sockenv_example bss) Map.empty"
  by (simp add: alloc_succeeds_def sockenv_example_def)

theorem sock_getline_memory_witness:
  "\<exists>k. sock_getline (sockenv_example []\<lparr>recv := \<lambda>_. RecvError\<rparr>) 1 Map.empty =
     Some (Inr (Map.empty, None, None, k))"
proof -
  let ?e = "sockenv_example []\<lparr>recv := \<lambda>_. RecvError\<rparr>"
  have ok: "sockenv_ok ?e" using sockenv_example_ok [of "[]"] by (simp add: sockenv_ok_def)
  obtain h' k where run: "sock_getline ?e 1 Map.empty = Some (Inr (h', None, None, k))"
    by (simp add: sock_getline_def getline_step_def getline_start_def sockenv_example_def free_ok Let_def)
  from sock_getline_memory [OF ok run] run show ?thesis by simp
qed

text \<open>The packet \<open>hi\<close>, in two chunks, with the first byte of the next packet behind it.\<close>

lemma example_arrives:
  "packet_arrives (sockenv_example [[104], [105, newline, 120]]) [[104]] [105] [120]"
  by (simp add: packet_arrives_def)


theorem sock_getline_two_chunks_witness:
  "\<exists>h' p n. packet_block Map.empty h' p [104, 105, newline] \<and>
     sock_getline (sockenv_example [[104], [105, newline, 120]]) 9 Map.empty =
       Some (Inr (h', p, Some n, 2))"
  using sock_getline_two_chunks [OF sockenv_example_ok sockenv_example_alloc _ example_arrives, of 9]
  by (simp flip: numeral_2_eq_2) blast

text \<open>Thirty-three letters, one letter, the newline: 35 bytes.\<close>

theorem sock_getline_overflow_witness:
  "sock_getline (sockenv_example [replicate 33 97, [98], [newline]]) 3 Map.empty =
     Some (Inl OutOfBounds)"
proof (rule sock_getline_overflow [where a = "replicate 33 97" and cs = "[[98]]" and l = "[]" and extra = "[]",
      OF sockenv_example_ok sockenv_example_alloc])
  show "packet_arrives (sockenv_example [replicate 33 97, [98], [newline]]) [replicate 33 97, [98]] [] []"
    by (auto simp: packet_arrives_def less_Suc_eq)
qed simp_all


end
