(* ===== verification/PutLoops.thy ===== *)
theory PutLoops
  imports Prelude
begin

text \<open>
  The three loops that push a buffer through a call that may take only part of it:
  \<open>putchars\<close> (\<open>server/src/utils.c\<close>), \<open>sock_putchars\<close> (\<open>server/src/socket.c\<close>) and \<open>main\<close> of
  \<open>finder-app/writer.c\<close>. Their common contract is the locale \<open>put_loop\<close>: its lemmas are
  proved once and hold for the three by interpretation.
\<close>

section \<open>Model\<close>

text \<open>
  The call that takes the bytes, \<open>write\<close> or \<open>send\<close>, is a function on the state behind the
  descriptor: from the bytes offered to the new state and the return value. It may end in a
  fault, since the kernel side of a write to the character device is modelled, too.
\<close>

type_synonym 's sink = "'s \<Rightarrow> byte list \<Rightarrow> ('s \<times> ssize_t) res"

text \<open>
  The loops over fuel, which bounds the number of calls; \<open>None\<close> means it ran out. \<open>head\<close> is
  the offset of \<open>buf_head\<close> in the buffer. The result is the state and the return value;
  offering bytes beyond the end of the buffer is a fault.
\<close>

primrec putchars_loop ::
  "'s sink \<Rightarrow> nat \<Rightarrow> 's \<Rightarrow> byte list \<Rightarrow> nat \<Rightarrow> size_t \<Rightarrow> ('s \<times> s32) res option" where
  "putchars_loop w 0 s buf head bytes_left = None"
| "putchars_loop w (Suc fuel) s buf head bytes_left =
     (if 0 < bytes_left then
        if length buf < head + unat bytes_left then Some (Inl OutOfBounds)
        else
          (case w s (take (unat bytes_left) (drop head buf)) of
             Inl f \<Rightarrow> Some (Inl f)
           | Inr (s', bytes_sent) \<Rightarrow>
               if sint bytes_sent < 0 then Some (Inr (s', - 1))
               else putchars_loop w fuel s' buf (head + unat bytes_sent) (bytes_left - bytes_sent))
      else Some (Inr (s, 0)))"

definition putchars :: "'s sink \<Rightarrow> nat \<Rightarrow> 's \<Rightarrow> byte list \<Rightarrow> size_t \<Rightarrow> ('s \<times> s32) res option" where
  "putchars w fuel s buffer bufsize = putchars_loop w fuel s buffer 0 bufsize"

text \<open>\<open>sock_putchars\<close>; the flag \<open>sig_exit\<close> decides only whether an error is logged.\<close>

primrec sock_putchars_loop ::
  "'s sink \<Rightarrow> nat \<Rightarrow> 's \<Rightarrow> byte list \<Rightarrow> nat \<Rightarrow> size_t \<Rightarrow> ('s \<times> s32) res option" where
  "sock_putchars_loop w 0 s buf head bytes_left = None"
| "sock_putchars_loop w (Suc fuel) s buf head bytes_left =
     (if 0 < bytes_left then
        if length buf < head + unat bytes_left then Some (Inl OutOfBounds)
        else
          (case w s (take (unat bytes_left) (drop head buf)) of
             Inl f \<Rightarrow> Some (Inl f)
           | Inr (s', bytes_sent) \<Rightarrow>
               if sint bytes_sent < 0 then Some (Inr (s', - 1))
               else sock_putchars_loop w fuel s' buf (head + unat bytes_sent)
                      (bytes_left - bytes_sent))
      else Some (Inr (s, 0)))"

definition sock_putchars ::
  "'s sink \<Rightarrow> nat \<Rightarrow> 's \<Rightarrow> byte list \<Rightarrow> size_t \<Rightarrow> ('s \<times> s32) res option" where
  "sock_putchars w fuel s buffer bufsize = sock_putchars_loop w fuel s buffer 0 bufsize"



section \<open>The contract of the loops\<close>

text \<open>
  A descriptor as its documentation describes it: \<open>taken\<close> are the bytes it has accepted so
  far; a call fails with \<open>-1\<close> or accepts a prefix of what it is offered. \<open>sink_progress\<close>: a
  call that is offered bytes accepts at least one of them or fails.
\<close>

definition sink_ok :: "('s \<Rightarrow> byte list) \<Rightarrow> 's sink \<Rightarrow> bool" where
  "sink_ok taken w \<longleftrightarrow>
     (\<forall>s bs. \<exists>s' n. w s bs = Inr (s', n) \<and>
        (n = - 1 \<and> taken s' = taken s \<or>
         0 \<le> sint n \<and> unat n \<le> length bs \<and> taken s' = taken s @ take (unat n) bs))"

definition sink_progress :: "'s sink \<Rightarrow> bool" where
  "sink_progress w \<longleftrightarrow> (\<forall>s bs s'. bs \<noteq> [] \<longrightarrow> w s bs \<noteq> Inr (s', 0))"

text \<open>No call fails.\<close>

definition sink_total :: "'s sink \<Rightarrow> bool" where
  "sink_total w \<longleftrightarrow> (\<forall>s bs s'. w s bs \<noteq> Inr (s', - 1))"

locale put_loop =
  fixes put :: "'s sink \<Rightarrow> nat \<Rightarrow> 's \<Rightarrow> byte list \<Rightarrow> nat \<Rightarrow> size_t \<Rightarrow> ('s \<times> s32) res option"
    and failed :: "ssize_t \<Rightarrow> bool" and fail_ret :: s32
  assumes no_fuel: "put w 0 s buf head left = None"
    and step: "put w (Suc fuel) s buf head left =
      (if 0 < left then
         if length buf < head + unat left then Some (Inl OutOfBounds)
         else
           (case w s (take (unat left) (drop head buf)) of
              Inl f \<Rightarrow> Some (Inl f)
            | Inr (s', n) \<Rightarrow>
                if failed n then Some (Inr (s', fail_ret))
                else put w fuel s' buf (head + unat n) (left - n))
       else Some (Inr (s, 0)))"
    and failed_minus: "failed (- 1)"
    and not_failed: "0 \<le> sint n \<Longrightarrow> \<not> failed n"
    and fail_ret: "fail_ret \<noteq> 0"
begin

text \<open>One call, under the documented answers of the kernel.\<close>

lemma stepE:
  assumes "sink_ok taken w" and "head + unat left \<le> length buf" and "left \<noteq> 0"
  obtains (fail) s' where "put w (Suc fuel) s buf head left = Some (Inr (s', fail_ret))"
      "taken s' = taken s" "w s (take (unat left) (drop head buf)) = Inr (s', - 1)"
    | (more) s' n where "w s (take (unat left) (drop head buf)) = Inr (s', n)"
      "unat n \<le> unat left" "unat (left - n) = unat left - unat n"
      "taken s' = taken s @ take (unat n) (drop head buf)"
      "put w (Suc fuel) s buf head left = put w fuel s' buf (head + unat n) (left - n)"
proof -
  let ?bs = "take (unat left) (drop head buf)"
  have pos: "0 < left" using assms(3) by (simp add: word_neq_0_conv)
  have len: "length ?bs = unat left" using assms(2) by simp
  obtain s' n where w: "w s ?bs = Inr (s', n)"
    "n = - 1 \<and> taken s' = taken s \<or>
     0 \<le> sint n \<and> unat n \<le> length ?bs \<and> taken s' = taken s @ take (unat n) ?bs"
    using assms(1) unfolding sink_ok_def by blast
  from w(2) show ?thesis
  proof (elim disjE conjE)
    assume "n = - 1" "taken s' = taken s"
    then show ?thesis
      using fail [of s'] w(1) assms(2) pos failed_minus by (simp add: step)
  next
    assume n: "0 \<le> sint n" "unat n \<le> length ?bs" "taken s' = taken s @ take (unat n) ?bs"
    then have "take (unat n) ?bs = take (unat n) (drop head buf)"
      using len by (simp add: min_absorb1)
    then show ?thesis
      using more [of s' n] n w(1) len assms(2) pos not_failed
      by (simp add: step unat_sub_fits)
  qed
qed

text \<open>
  Whatever the answers: no fault, the bytes accepted are a prefix of the buffer, and the loop
  reports success exactly when they are all of it.
\<close>

lemma put_result:
  assumes "sink_ok taken w" and "head + unat left \<le> length buf"
    and "put w fuel s buf head left = Some r"
  shows "\<exists>s' ret m. r = Inr (s', ret) \<and> taken s' = taken s @ take m (drop head buf) \<and>
    m \<le> unat left \<and> (ret = 0 \<and> m = unat left \<or> ret = fail_ret)"
  using assms(2,3)
proof (induction fuel arbitrary: s head left)
  case 0
  then show ?case by (simp add: no_fuel)
next
  case (Suc fuel)
  show ?case
  proof (cases "left = 0")
    case True
    with Suc.prems show ?thesis by (auto simp: step)
  next
    case False
    from assms(1) Suc.prems(1) False show ?thesis
    proof (cases rule: stepE [where fuel = fuel and s = s])
      case (fail s')
      then show ?thesis
        using Suc.prems(2) by (intro exI [of _ s'] exI [of _ fail_ret] exI [of _ 0]) simp
    next
      case (more s' n)
      have len: "head + unat n + unat (left - n) \<le> length buf"
        using Suc.prems(1) more(2,3) by simp
      obtain s2 ret m where r: "r = Inr (s2, ret)"
        and m: "taken s2 = taken s' @ take m (drop (head + unat n) buf)"
        "m \<le> unat (left - n)" "ret = 0 \<and> m = unat (left - n) \<or> ret = fail_ret"
        using Suc.IH [OF len] Suc.prems(2) more(5) by metis
      have "take (unat n + m) (drop head buf) =
          take (unat n) (drop head buf) @ take m (drop (head + unat n) buf)"
        by (simp only: take_add drop_drop add.commute [of "unat n" head])
      then have "taken s2 = taken s @ take (unat n + m) (drop head buf)"
        using m(1) more(4) by simp
      then show ?thesis
        using r m(2,3) more(2,3)
        by (intro exI [of _ s2] exI [of _ ret] exI [of _ "unat n + m"]) auto
    qed
  qed
qed

lemma put_total:
  assumes "sink_ok taken w" and "sink_total w" and "head + unat left \<le> length buf"
    and "put w fuel s buf head left = Some (Inr (s', ret))"
  shows "ret = 0"
  using assms(3,4)
proof (induction fuel arbitrary: s head left)
  case (Suc fuel)
  show ?case
  proof (cases "left = 0")
    case False
    from assms(1) Suc.prems(1) False show ?thesis
    proof (cases rule: stepE [where fuel = fuel and s = s])
      case (fail s2)
      then show ?thesis using assms(2) by (simp add: sink_total_def)
    next
      case (more s2 n)
      then show ?thesis using Suc.IH [of "head + unat n" "left - n" s2] Suc.prems by simp
    qed
  qed (use Suc.prems in \<open>simp add: step\<close>)
qed (simp add: no_fuel)

text \<open>When every call makes progress, one unit of fuel per byte and one more are enough.\<close>

lemma put_terminates:
  assumes "sink_ok taken w" and "sink_progress w" and "head + unat left \<le> length buf"
    and "unat left < fuel"
  shows "\<exists>r. put w fuel s buf head left = Some r"
  using assms(3,4)
proof (induction fuel arbitrary: s head left)
  case 0
  then show ?case by simp
next
  case (Suc fuel)
  show ?case
  proof (cases "left = 0")
    case True
    then show ?thesis by (simp add: step)
  next
    case False
    from assms(1) Suc.prems(1) False show ?thesis
    proof (cases rule: stepE [where fuel = fuel and s = s])
      case fail
      then show ?thesis by simp
    next
      case (more s' n)
      have "0 < unat left" using False by (simp add: unat_gt_0)
      then have "take (unat left) (drop head buf) \<noteq> []" using Suc.prems(1) by auto
      then have "n \<noteq> 0" using assms(2) more(1) by (auto simp: sink_progress_def)
      then have "0 < unat n" by (simp add: unat_gt_0)
      then show ?thesis
        using Suc.IH [of "head + unat n" "left - n" s'] Suc.prems more(2,3,5) by simp
    qed
  qed
qed

text \<open>No amount of fuel is enough when the kernel keeps answering 0.\<close>

lemma put_diverges:
  assumes "\<forall>s bs. \<exists>s'. w s bs = Inr (s', 0)" and "left \<noteq> 0" and "head + unat left \<le> length buf"
  shows "put w fuel s buf head left = None"
  using assms(2,3)
proof (induction fuel arbitrary: s)
  case (Suc fuel)
  obtain s' where "w s (take (unat left) (drop head buf)) = Inr (s', 0)" using assms(1) by blast
  then show ?case
    using Suc not_failed [of 0] by (simp add: step word_neq_0_conv)
qed (simp add: no_fuel)

text \<open>A kernel that takes everything at the first call.\<close>

lemma put_once:
  assumes "w s (take (unat left) buf) = Inr (s', left)" and "unat left \<le> length buf"
    and "unat left < 2 ^ 63" and "left \<noteq> 0" and "1 < fuel"
  shows "put w fuel s buf 0 left = Some (Inr (s', 0))"
proof -
  have "2 \<le> fuel" using assms(5) by simp
  then obtain f where f: "fuel = 2 + f" using le_Suc_ex by blast
  have "0 \<le> sint left" using sint_of_nat_fits [OF assms(3)] by simp
  then show ?thesis
    using assms(1,2,4) not_failed by (simp add: f step word_neq_0_conv)
qed

end

interpretation pc: put_loop putchars_loop "\<lambda>n. sint n < 0" "- 1"
  by unfold_locales simp_all

interpretation spc: put_loop sock_putchars_loop "\<lambda>n. sint n < 0" "- 1"
  by unfold_locales simp_all


lemma sock_putchars_result:
  assumes "sink_ok taken w" and "length bs \<le> 256"
    and "sock_putchars w fuel k bs (of_nat (length bs)) = Some (Inr (k', ret))"
  shows "\<exists>m. taken k' = taken k @ take m bs \<and> (ret = 0 \<and> take m bs = bs \<or> ret = - 1)"
proof -
  have len: "unat (of_nat (length bs) :: size_t) = length bs"
    using assms(2) by (intro unat_of_nat_fits) simp
  then have "0 + unat (of_nat (length bs) :: size_t) \<le> length bs" by simp
  from spc.put_result [OF assms(1) this assms(3) [unfolded sock_putchars_def]] len
  obtain m where "taken k' = taken k @ take m bs" "ret = 0 \<and> m = length bs \<or> ret = - 1" by auto
  then show ?thesis by auto
qed

section \<open>Properties\<close>


text \<open>A kernel that takes at most two bytes at a time and never fails.\<close>

definition two_at_a_time :: "byte list sink" where
  "two_at_a_time s bs =
     (let n = if length bs \<le> 1 then length bs else 2 in Inr (s @ take n bs, of_nat n))"

lemma two_at_a_time_ok: "sink_ok id two_at_a_time" "sink_progress two_at_a_time"
proof -
  have "2 \<le> length bs" if "bs \<noteq> []" "length bs \<noteq> Suc 0" for bs :: "byte list"
    using that by (cases bs; cases "tl bs") auto
  then show "sink_ok id two_at_a_time" "sink_progress two_at_a_time"
    by (auto simp: sink_ok_def sink_progress_def two_at_a_time_def Let_def le_Suc_eq)
qed

lemma two_at_a_time_total: "sink_total two_at_a_time"
  by (auto simp: sink_total_def two_at_a_time_def Let_def le_Suc_eq)


text \<open>
  C27: \<open>putchars\<close> and \<open>sock_putchars\<close> return: if every call takes at least one byte or fails,
  at most one call per byte is made and a result is reached; if the kernel keeps answering
  0, no number of calls is enough.
\<close>

theorem putchars_terminates:
  assumes "length buf < 2 ^ 64" and "length buf < fuel"
  shows "(sink_ok taken w \<and> sink_progress w \<longrightarrow>
      (\<exists>r. putchars w fuel s buf (of_nat (length buf)) = Some r) \<and>
      (\<exists>r. sock_putchars w fuel s buf (of_nat (length buf)) = Some r)) \<and>
    ((\<forall>s bs. \<exists>s'. w s bs = Inr (s', 0)) \<and> buf \<noteq> [] \<longrightarrow>
      (\<forall>fuel'. putchars w fuel' s buf (of_nat (length buf)) = None \<and>
        sock_putchars w fuel' s buf (of_nat (length buf)) = None))"
proof -
  let ?n = "of_nat (length buf) :: size_t"
  have len: "unat ?n = length buf" using assms(1) by (simp add: unat_of_nat_fits)
  then have pos: "?n \<noteq> 0" if "buf \<noteq> []" using that by auto
  show ?thesis
    using assms(2) len pos pc.put_terminates [of taken w 0 ?n buf fuel s]
      spc.put_terminates [of taken w 0 ?n buf fuel s]
      pc.put_diverges [of w ?n 0 buf _ s] spc.put_diverges [of w ?n 0 buf _ s]
    by (simp add: putchars_def sock_putchars_def)
qed

theorem putchars_terminates_witness:
  "(\<exists>r. putchars two_at_a_time 4 [] [1, 2, 3] 3 = Some r) \<and>
   (\<forall>fuel. sock_putchars (\<lambda>s _. Inr (s, 0)) fuel ([] :: byte list) [1, 2, 3] 3 = None)"
  using putchars_terminates [of "[1, 2, 3]" 4 id two_at_a_time "[]"] two_at_a_time_ok
    putchars_terminates [of "[1, 2, 3]" 4 id "\<lambda>s _. Inr (s, 0)" "[]"]
  by simp



end
