(* ===== verification/Connection.thy ===== *)
theory Connection
  imports GetLine PutLoops CharDriver
begin

text \<open>
  \<open>conn_handler\<close> of \<open>server/src/connection.c\<close>, the thread that serves one connection: it
  reads a packet, appends it to the file (or, in the build for the character device, turns a
  packet \<open>AESDCHAR_IOCSEEKTO:X,Y\<close> into an \<open>ioctl\<close>) and sends the file to the client.
\<close>

section \<open>Environment and state\<close>

text \<open>
  \<open>'f\<close> is the state behind the descriptor of the file \<open>TMPFILE\<close>, \<open>'k\<close> that behind the
  socket. \<open>open_tmpfile\<close> is \<open>None\<close> when \<open>open\<close> fails; \<open>file_lseek\<close> is \<open>lseek(fd, 0, SEEK_SET)\<close>;
  \<open>file_read\<close> gives the return value of \<open>read\<close> and the bytes that reached the buffer. The
  host name that \<open>sock_gethost\<close> finds is only logged and is left out.
\<close>

record ('f, 'k) conn_env =
  open_tmpfile :: "'f \<Rightarrow> 'f option"
  file_write :: "'f sink"
  file_read :: "'f \<Rightarrow> size_t \<Rightarrow> ('f \<times> ssize_t \<times> byte list) res"
  file_lseek :: "'f \<Rightarrow> ('f \<times> loff_t) res"
  file_ioctl :: "'f \<Rightarrow> u32 \<Rightarrow> aesd_seekto \<Rightarrow> ('f \<times> s32) res"
  file_close :: s32
  sock_recv :: sockenv
  sock_send :: "'k sink"
  sock_close :: s32
  mutex_lock :: s32
  mutex_unlock :: s32

text \<open>The members of \<open>struct cl_entry\<close> that the handler uses.\<close>

record cl_entry =
  descriptor :: s32
  is_active :: bool

text \<open>
  \<open>conn_heap\<close> is the heap of the server, \<open>holds_mutex\<close> whether this thread holds \<open>*io_mutex\<close>;
  \<open>fd_open\<close> and \<open>sock_open\<close> say which descriptors the handler has still to close.
\<close>

record ('f, 'k) conn_state =
  tmpfile :: 'f
  peer_in :: 'k
  conn_heap :: heap
  holds_mutex :: bool
  fd_open :: bool
  sock_open :: bool
  connection :: cl_entry

definition CONN_BUFSIZE :: nat where "CONN_BUFSIZE = 256"

text \<open>The string \<open>AESDCHAR_IOCSEEKTO:\<close>.\<close>

definition SEEKTO_PREFIX :: "byte list" where
  "SEEKTO_PREFIX = [65, 69, 83, 68, 67, 72, 65, 82, 95, 73, 79, 67, 83, 69, 69, 75, 84, 79, 58]"

section \<open>Model\<close>

text \<open>
  The two numbers of a seek packet, from the array the packet is in. \<open>strtoul\<close> returns an
  \<open>unsigned long\<close> that is stored in the \<open>int\<close> variable \<open>error\<close> and compared, sign-extended,
  with \<open>ULONG_MAX\<close>; \<open>None\<close> stands for the branch that aborts.
\<close>

definition parse_seekto :: "byte list \<Rightarrow> aesd_seekto option res" where
  "parse_seekto packet =
     bindR (strtoul (drop 19 packet)) (\<lambda>(v, end).
     let error = ucast v :: s32 in
     if scast error = ULONG_MAX then Inr None
     else
       bindR (strtoul (drop (19 + end + 1) packet)) (\<lambda>(v', end').
       let error' = ucast v' :: s32 in
       if scast error' = ULONG_MAX then Inr None
       else Inr (Some \<lparr>write_cmd = error, write_cmd_offset = error'\<rparr>)))"

text \<open>The branch for a seek packet: the state and the flag \<open>abort\<close>.\<close>

definition seek_packet ::
  "('f, 'k) conn_env \<Rightarrow> ('f, 'k) conn_state \<Rightarrow> byte list \<Rightarrow> (('f, 'k) conn_state \<times> bool) res" where
  "seek_packet e st packet =
     bindR (parse_seekto packet) (\<lambda>seekto.
     case seekto of
       None \<Rightarrow> Inr (st, True)
     | Some arg \<Rightarrow>
         bindR (file_ioctl e (tmpfile st) AESDCHAR_IOCSEEKTO arg) (\<lambda>(f, ret).
         Inr (st\<lparr>tmpfile := f\<rparr>, sint ret < 0)))"

text \<open>
  The branch that writes the packet. A failing \<open>pthread_mutex_lock\<close> is logged and its result
  overwritten by that of \<open>pthread_mutex_unlock\<close>, so the write happens anyway.
\<close>

definition write_packet ::
  "('f, 'k) conn_env \<Rightarrow> nat \<Rightarrow> ('f, 'k) conn_state \<Rightarrow> byte list \<Rightarrow> size_t \<Rightarrow>
   (('f, 'k) conn_state \<times> bool) res option" where
  "write_packet e fuel st packet packet_size =
     (let st = st\<lparr>holds_mutex := (mutex_lock e = 0)\<rparr> in
      bindL (putchars (file_write e) fuel (tmpfile st) packet packet_size) (\<lambda>(f, write_status).
      let st = st\<lparr>tmpfile := f, holds_mutex := holds_mutex st \<and> mutex_unlock e \<noteq> 0\<rparr> in
      if mutex_unlock e \<noteq> 0 \<or> sint write_status < 0 then Some (Inr (st, True))
      else
        Some (bindR (file_lseek e (tmpfile st)) (\<lambda>(f, off).
        Inr (st\<lparr>tmpfile := f\<rparr>, off = - 1)))))"

text \<open>\<open>dev\<close> says whether \<open>USE_AESD_CHAR_DEVICE\<close> is defined.\<close>

definition handle_packet ::
  "bool \<Rightarrow> ('f, 'k) conn_env \<Rightarrow> nat \<Rightarrow> ('f, 'k) conn_state \<Rightarrow> byte list \<Rightarrow> size_t \<Rightarrow>
   (('f, 'k) conn_state \<times> bool) res option" where
  "handle_packet dev e fuel st packet packet_size =
     bindL (Some (if dev then strncmp_eq packet SEEKTO_PREFIX else Inr False)) (\<lambda>is_seek.
     if is_seek then Some (seek_packet e st packet)
     else write_packet e fuel st packet packet_size)"

text \<open>
  The loop that sends the file; fuel bounds the calls of \<open>read\<close>, \<open>pfuel\<close> the calls of \<open>send\<close>
  for one chunk. The result is the state and the flag \<open>abort\<close>.
\<close>

primrec send_file_loop ::
  "('f, 'k) conn_env \<Rightarrow> nat \<Rightarrow> nat \<Rightarrow> ('f, 'k) conn_state \<Rightarrow>
   (('f, 'k) conn_state \<times> bool) res option" where
  "send_file_loop e pfuel 0 st = None"
| "send_file_loop e pfuel (Suc fuel) st =
     bindL (Some (file_read e (tmpfile st) (of_nat CONN_BUFSIZE))) (\<lambda>(f, bytes_read, buf).
     let st = st\<lparr>tmpfile := f\<rparr> in
     if CONN_BUFSIZE < length buf then Some (Inl OutOfBounds)
     else if 0 < sint bytes_read then
       bindL (sock_putchars (sock_send e) pfuel (peer_in st) buf bytes_read) (\<lambda>(k, ret).
       if sint ret < 0 then Some (Inr (st\<lparr>peer_in := k\<rparr>, True))
       else send_file_loop e pfuel fuel (st\<lparr>peer_in := k\<rparr>))
     else Some (Inr (st, sint bytes_read < 0)))"

text \<open>The labels \<open>cleanup_fd\<close> and \<open>finalize\<close>.\<close>

definition finalize ::
  "('f, 'k) conn_env \<Rightarrow> ('f, 'k) conn_state \<Rightarrow> bool \<Rightarrow> ('f, 'k) conn_state" where
  "finalize e st abort =
     st\<lparr>sock_open := False,
        connection := \<lparr>descriptor = (if abort \<or> sint (sock_close e) < 0 then - 1 else 0),
                       is_active = False\<rparr>\<rparr>"

definition cleanup_fd ::
  "('f, 'k) conn_env \<Rightarrow> ('f, 'k) conn_state \<Rightarrow> bool \<Rightarrow> ('f, 'k) conn_state" where
  "cleanup_fd e st abort =
     finalize e (st\<lparr>fd_open := False\<rparr>) (abort \<or> sint (file_close e) < 0)"

text \<open>
  The whole handler: the final state; the value the thread exits with is the member
  \<open>descriptor\<close> of \<open>connection\<close>, to which a pointer is passed to \<open>pthread_exit\<close>.
\<close>

definition conn_handler ::
  "bool \<Rightarrow> ('f, 'k) conn_env \<Rightarrow> nat \<Rightarrow> ('f, 'k) conn_state \<Rightarrow> ('f, 'k) conn_state res option" where
  "conn_handler dev e fuel st =
     (case open_tmpfile e (tmpfile st) of
        None \<Rightarrow> Some (Inr (finalize e st True))
      | Some f \<Rightarrow>
          let st = st\<lparr>tmpfile := f, fd_open := True\<rparr> in
          bindL (sock_getline (sock_recv e) fuel (conn_heap st)) (\<lambda>(h, packet, packet_size, k).
          let st = st\<lparr>conn_heap := h\<rparr> in
          if packet = None then Some (Inr (cleanup_fd e st True))
          else
            bindL (Some (block_at h packet)) (\<lambda>blk.
            bindL (handle_packet dev e fuel st blk (the packet_size)) (\<lambda>(st, abort).
            bindL (if abort then Some (Inr (st, True)) else send_file_loop e fuel fuel st)
              (\<lambda>(st, abort).
            Some (bindR (free_block (conn_heap st) packet) (\<lambda>h'.
            Inr (cleanup_fd e (st\<lparr>conn_heap := h'\<rparr>) abort))))))))"

section \<open>Sending a file that is read in chunks\<close>

text \<open>
  What the loop needs of \<open>read\<close>: \<open>remaining\<close> are the bytes behind the file position; a call
  returns some of them, none only at the end, and \<open>base\<close>, the rest of the state, stays.
\<close>

locale chunked_read =
  fixes read :: "'f \<Rightarrow> size_t \<Rightarrow> ('f \<times> ssize_t \<times> byte list) res"
    and remaining :: "'f \<Rightarrow> byte list" and base :: "'f \<Rightarrow> 'b" and good :: "'f \<Rightarrow> bool"
  assumes at_end: "good f \<Longrightarrow> remaining f = [] \<Longrightarrow> 0 < unat n \<Longrightarrow>
      \<exists>f'. read f n = Inr (f', 0, []) \<and> base f' = base f"
    and chunk: "good f \<Longrightarrow> remaining f \<noteq> [] \<Longrightarrow> 0 < unat n \<Longrightarrow>
      \<exists>f' bs. read f n = Inr (f', of_nat (length bs), bs) \<and> bs \<noteq> [] \<and> length bs \<le> unat n \<and>
        remaining f = bs @ remaining f' \<and> base f' = base f \<and> good f'"
begin

text \<open>One round of the loop that reads some bytes.\<close>

lemma send_chunk:
  fixes st :: "('f, 'k) conn_state"
  assumes read: "file_read e = read" and sink: "sink_ok taken (sock_send e)" "sink_progress (sock_send e)"
    and pfuel: "CONN_BUFSIZE < pfuel"
    and good: "good (tmpfile st)" and more: "remaining (tmpfile st) \<noteq> []"
  obtains f' bs k ret m where "send_file_loop e pfuel (Suc fuel) st =
      (if sint (ret :: s32) < 0 then Some (Inr (st\<lparr>tmpfile := f', peer_in := k\<rparr>, True))
       else send_file_loop e pfuel fuel (st\<lparr>tmpfile := f', peer_in := k\<rparr>))"
    and "bs \<noteq> []" and "remaining (tmpfile st) = bs @ remaining f'" and "base f' = base (tmpfile st)" and "good f'"
    and "taken k = taken (peer_in st) @ take m bs" and "ret = 0 \<and> m = length bs \<or> ret = - 1 \<and> m \<le> length bs"
    and "sink_total (sock_send e) \<longrightarrow> ret = 0"
proof -
  let ?n = "of_nat CONN_BUFSIZE :: size_t"
  have n: "unat ?n = 256" by (simp add: CONN_BUFSIZE_def)
  obtain f' bs where rd: "read (tmpfile st) ?n = Inr (f', of_nat (length bs), bs)"
    and bs: "bs \<noteq> []" "length bs \<le> 256" "remaining (tmpfile st) = bs @ remaining f'"
    "base f' = base (tmpfile st)" "good f'"
    using chunk [OF good more, of ?n] unfolding n by auto
  have small: "length bs < 2 ^ 63" "length bs < 2 ^ LENGTH(64)" using bs(2) by simp_all
  have len: "unat (of_nat (length bs) :: size_t) = length bs"
    using small(2) by (rule unat_of_nat_fits)
  have pos: "0 < sint (of_nat (length bs) :: 64 word)"
    using bs(1) by (simp add: sint_of_nat_fits [OF small(1)])
  obtain r where r: "sock_putchars_loop (sock_send e) pfuel (peer_in st) bs 0 (of_nat (length bs)) = Some r"
    using spc.put_terminates [OF sink, of 0 "of_nat (length bs)" bs pfuel "peer_in st"] len bs(2) pfuel
    by (auto simp: CONN_BUFSIZE_def)
  obtain k ret m where k: "r = Inr (k, ret)" "taken k = taken (peer_in st) @ take m bs"
    "ret = 0 \<and> m = length bs \<or> ret = - 1" "m \<le> length bs"
    using spc.put_result [OF sink(1) _ r] len by auto
  have "ret = 0" if "sink_total (sock_send e)"
    using spc.put_total [OF sink(1) that, of 0 "of_nat (length bs)" bs pfuel "peer_in st" k ret] r k(1) len
    by simp
  moreover have "send_file_loop e pfuel (Suc fuel) st =
      (if sint ret < 0 then Some (Inr (st\<lparr>tmpfile := f', peer_in := k\<rparr>, True))
       else send_file_loop e pfuel fuel (st\<lparr>tmpfile := f', peer_in := k\<rparr>))"
    using rd pos bs(2) r k(1) by (simp add: read CONN_BUFSIZE_def Let_def sock_putchars_def)
  ultimately show thesis using bs k by (intro that [of ret k f' bs m]) auto
qed

lemma send_all:
  fixes st :: "('f, 'k) conn_state"
  assumes read: "file_read e = read" and sink: "sink_ok taken (sock_send e)" "sink_progress (sock_send e)"
    and pfuel: "CONN_BUFSIZE < pfuel"
    and "good (tmpfile st)" and "length (remaining (tmpfile st)) < fuel"
  shows "\<exists>st' abort m. send_file_loop e pfuel fuel st = Some (Inr (st', abort)) \<and>
    taken (peer_in st') = taken (peer_in st) @ take m (remaining (tmpfile st)) \<and>
    (\<not> abort \<longrightarrow> taken (peer_in st') = taken (peer_in st) @ remaining (tmpfile st)) \<and>
    (sink_total (sock_send e) \<longrightarrow> \<not> abort) \<and> base (tmpfile st') = base (tmpfile st)"
  using assms(5,6)
proof (induction fuel arbitrary: st)
  case 0
  then show ?case by simp
next
  case (Suc fuel)
  show ?case
  proof (cases "remaining (tmpfile st) = []")
    case True
    have "unat (of_nat CONN_BUFSIZE :: size_t) = 256" by (simp add: CONN_BUFSIZE_def)
    then obtain f' where "read (tmpfile st) (of_nat CONN_BUFSIZE) = Inr (f', 0, [])" "base f' = base (tmpfile st)"
      using at_end [OF Suc.prems(1) True, of "of_nat CONN_BUFSIZE"] by auto
    then show ?thesis
      using True by (intro exI [of _ "st\<lparr>tmpfile := f'\<rparr>"] exI [of _ False]) (simp add: read Let_def)
  next
    case False
    obtain f' bs k ret m where step: "send_file_loop e pfuel (Suc fuel) st =
        (if sint (ret :: s32) < 0 then Some (Inr (st\<lparr>tmpfile := f', peer_in := k\<rparr>, True))
         else send_file_loop e pfuel fuel (st\<lparr>tmpfile := f', peer_in := k\<rparr>))"
      and bs: "bs \<noteq> []" "remaining (tmpfile st) = bs @ remaining f'" "base f' = base (tmpfile st)" "good f'"
      and k: "taken k = taken (peer_in st) @ take m bs" "ret = 0 \<and> m = length bs \<or> ret = - 1 \<and> m \<le> length bs"
      and total: "sink_total (sock_send e) \<longrightarrow> ret = 0"
      by (rule send_chunk [OF read sink pfuel Suc.prems(1) False, of fuel])
    let ?st = "st\<lparr>tmpfile := f', peer_in := k\<rparr>"
    show ?thesis
    proof (cases "ret = 0")
      case True
      then have all: "taken (peer_in ?st) = taken (peer_in st) @ bs" using k by auto
      have fits: "length (remaining (tmpfile ?st)) < fuel"
        using Suc.prems(2) bs(1,2) by (cases bs) auto
      have good': "good (tmpfile ?st)" using bs(4) by simp
      obtain st' abort m' where "send_file_loop e pfuel fuel ?st = Some (Inr (st', abort))"
        "taken (peer_in st') = taken (peer_in ?st) @ take m' (remaining (tmpfile ?st))"
        "\<not> abort \<longrightarrow> taken (peer_in st') = taken (peer_in ?st) @ remaining (tmpfile ?st)"
        "sink_total (sock_send e) \<longrightarrow> \<not> abort" "base (tmpfile st') = base (tmpfile ?st)"
        using Suc.IH [OF good' fits] by blast
      then show ?thesis
        using step True all bs(2,3)
        by (intro exI [of _ st'] exI [of _ abort] exI [of _ "length bs + m'"]) simp
    next
      case False
      then show ?thesis
        using step k bs(2,3) total
        by (intro exI [of _ ?st] exI [of _ True] exI [of _ m]) auto
    qed
  qed
qed

end

section \<open>Resources\<close>

text \<open>What the parts of the handler leave alone.\<close>

definition same_resources :: "('f, 'k) conn_state \<Rightarrow> ('f, 'k) conn_state \<Rightarrow> bool" where
  "same_resources st st' \<longleftrightarrow>
     conn_heap st' = conn_heap st \<and> fd_open st' = fd_open st \<and> sock_open st' = sock_open st \<and>
     connection st' = connection st"

lemma same_resources_refl [simp]: "same_resources st st"
  by (simp add: same_resources_def)

lemma same_resources_trans:
  "same_resources a b \<Longrightarrow> same_resources b c \<Longrightarrow> same_resources a c"
  by (simp add: same_resources_def)

lemma seek_packet_resources:
  "seek_packet e st packet = Inr (st', abort) \<Longrightarrow>
   same_resources st st' \<and> holds_mutex st' = holds_mutex st"
  by (auto simp: seek_packet_def bindR_eq_Inr same_resources_def split: option.splits)

lemma write_packet_resources:
  "write_packet e fuel st packet n = Some (Inr (st', abort)) \<Longrightarrow>
   same_resources st st' \<and> (holds_mutex st' \<longrightarrow> mutex_unlock e \<noteq> 0)"
  by (auto simp: write_packet_def bindL_eq_Some_Inr bindR_eq_Inr Let_def same_resources_def
      split: if_splits)

lemma handle_packet_resources:
  assumes "handle_packet dev e fuel st packet n = Some (Inr (st', abort))"
  shows "same_resources st st' \<and>
    (holds_mutex st' \<longrightarrow> holds_mutex st \<or> mutex_unlock e \<noteq> 0)"
  using assms seek_packet_resources [of e st packet] write_packet_resources [of e fuel st packet n]
  by (auto simp: handle_packet_def bindL_eq_Some_Inr split: if_splits)

lemma send_file_resources:
  assumes "send_file_loop e pfuel fuel st = Some (Inr (st', abort))"
  shows "same_resources st st' \<and> holds_mutex st' = holds_mutex st"
  using assms
proof (induction fuel arbitrary: st)
  case (Suc fuel)
  from Suc.prems show ?case
    by (auto simp: bindL_eq_Some_Inr Let_def same_resources_def split: if_splits dest!: Suc.IH)
qed simp

lemma getline_packet:
  assumes "sockenv_ok e" and "sock_getline e fuel h = Some (Inr (h', p, n, k))"
  shows "p = None \<and> h' = h \<or> (\<exists>a blk. p = Some a \<and> h a = None \<and> h' = h(a \<mapsto> blk))"
  using getline_memory [OF assms] by (auto split: option.splits)

section \<open>Seek packets\<close>

definition decimal :: "byte list \<Rightarrow> bool" where
  "decimal ds \<longleftrightarrow> ds \<noteq> [] \<and> (\<forall>c \<in> set ds. isdigit c)"

text \<open>What becomes of a number: 32 bits of it, or of \<open>ULONG_MAX\<close> when it is too large.\<close>

definition seek_arg :: "byte list \<Rightarrow> u32" where
  "seek_arg ds = (if 2 ^ 64 \<le> digits_value ds then - 1 else of_nat (digits_value ds))"

lemma scast_minus_one: "scast (w :: s32) = ULONG_MAX \<longleftrightarrow> w = - 1"
proof
  assume "scast w = ULONG_MAX"
  then have "scast (scast w :: 64 word) = (- 1 :: s32)" by simp
  then show "w = - 1" by (simp add: scast_up_scast_id is_up)
qed simp

lemma ucast_of_nat32: "ucast (of_nat n :: 64 word) = (of_nat n :: u32)"
  by transfer simp

lemma ucast_minus_one: "ucast (- 1 :: 64 word) = (- 1 :: u32)"
  by transfer simp

lemma seek_arg_eq:
  "ucast (if 2 ^ 64 \<le> digits_value ds then ULONG_MAX else of_nat (digits_value ds)) = seek_arg ds"
  by (simp add: seek_arg_def ucast_of_nat32 ucast_minus_one)

lemma strncmp_prefix: "strncmp_eq (pre @ bs) pre = Inr True"
  by (induction pre) simp_all

lemma parse_seekto_eq:
  assumes "decimal ds" and "decimal ds'" and "\<not> isdigit c"
  shows "parse_seekto (SEEKTO_PREFIX @ ds @ c # ds' @ newline # nul # rest) =
    Inr (if seek_arg ds = - 1 \<or> seek_arg ds' = - 1 then None
         else Some \<lparr>write_cmd = seek_arg ds, write_cmd_offset = seek_arg ds'\<rparr>)"
proof -
  have len: "length SEEKTO_PREFIX = 19" by (simp add: SEEKTO_PREFIX_def)
  have nl: "\<not> isdigit newline" by (simp add: isdigit_def)
  have fst: "strtoul (ds @ c # ds' @ newline # nul # rest) =
      Inr (if 2 ^ 64 \<le> digits_value ds then ULONG_MAX else of_nat (digits_value ds), length ds)"
    using assms by (intro strtoul_decimal) (simp_all add: decimal_def)
  have snd: "strtoul (ds' @ newline # nul # rest) =
      Inr (if 2 ^ 64 \<le> digits_value ds' then ULONG_MAX else of_nat (digits_value ds'), length ds')"
    using assms nl by (intro strtoul_decimal) (simp_all add: decimal_def)
  have "drop 19 (SEEKTO_PREFIX @ ds @ c # ds' @ newline # nul # rest) =
      ds @ c # ds' @ newline # nul # rest"
    and "drop (19 + length ds + 1) (SEEKTO_PREFIX @ ds @ c # ds' @ newline # nul # rest) =
      ds' @ newline # nul # rest"
    by (simp_all add: len)
  then show ?thesis
    unfolding parse_seekto_def
    by (simp only: fst snd bindR_Inr prod.case Let_def seek_arg_eq scast_minus_one) simp
qed

lemma seek_arg_small:
  assumes "digits_value ds < 2 ^ 32 - 1"
  shows "unat (seek_arg ds) = digits_value ds \<and> seek_arg ds \<noteq> - 1"
proof -
  have "unat (seek_arg ds) = digits_value ds"
    using assms by (simp add: seek_arg_def unat_of_nat_fits)
  moreover have "unat (- 1 :: u32) = 2 ^ 32 - 1"
    by (simp add: unsigned_minus_1_eq_mask mask_eq_exp_minus_1)
  ultimately show ?thesis using assms by auto
qed

text \<open>
  A seek packet \<open>AESDCHAR_IOCSEEKTO:X,Y\<close> with decimal numbers is recognised and parsed: the
  argument of the \<open>ioctl\<close> are \<open>X\<close> and \<open>Y\<close> when both are less than \<open>2^32 - 1\<close>. Larger
  numbers are cut to 32 bits, as the result of \<open>strtoul\<close> is stored in an \<open>int\<close>, and the
  packet is refused exactly when one of the numbers has 32 low one bits or exceeds 64 bits.
  Any byte that is no digit separates the numbers, not only a comma.
\<close>

theorem parse_seekto_correct:
  assumes "decimal ds" and "decimal ds'" and "\<not> isdigit c"
    and "packet = SEEKTO_PREFIX @ ds @ c # ds' @ newline # nul # rest"
  shows "strncmp_eq packet SEEKTO_PREFIX = Inr True \<and>
    parse_seekto packet = Inr (if seek_arg ds = - 1 \<or> seek_arg ds' = - 1 then None
         else Some \<lparr>write_cmd = seek_arg ds, write_cmd_offset = seek_arg ds'\<rparr>) \<and>
    (digits_value ds < 2 ^ 32 - 1 \<longrightarrow> unat (seek_arg ds) = digits_value ds \<and> seek_arg ds \<noteq> - 1)"
  unfolding assms(4)
  using strncmp_prefix parse_seekto_eq [OF assms(1-3)] seek_arg_small by blast

text \<open>The packet \<open>AESDCHAR_IOCSEEKTO:2,10\<close>.\<close>

theorem parse_seekto_correct_witness:
  "parse_seekto (SEEKTO_PREFIX @ [50, 44, 49, 48, newline, nul]) =
     Inr (Some \<lparr>write_cmd = 2, write_cmd_offset = 10\<rparr>)"
proof -
  have "decimal [50]" "decimal [49, 48]" "\<not> isdigit 44"
    by (simp_all add: decimal_def isdigit_def)
  then show ?thesis
    using parse_seekto_correct [of "[50]" "[49, 48]" 44 _ "[]"]
    by (simp add: seek_arg_def digits_value_def)
qed

end
