(* ===== verification/ConnectionRun.thy ===== *)
theory ConnectionRun
  imports Connection
begin

text \<open>
  Whole runs of \<open>conn_handler\<close>: what the handler gives back on every branch, and what a client
  is served by the build that keeps the packets in a regular file.
\<close>

section \<open>Resources of a run\<close>

lemma conn_handler_resources_run:
  assumes "sockenv_ok (sock_recv e)" and "conn_handler dev e fuel st = Some (Inr st')"
    and "\<not> fd_open st"
  shows "conn_heap st' = conn_heap st \<and> \<not> fd_open st' \<and> \<not> sock_open st' \<and>
    \<not> is_active (connection st') \<and> descriptor (connection st') \<in> {0, - 1} \<and>
    (holds_mutex st' \<longrightarrow> holds_mutex st \<or> mutex_unlock e \<noteq> 0)"
proof (cases "open_tmpfile e (tmpfile st)")
  case None
  with assms show ?thesis by (auto simp: conn_handler_def finalize_def)
next
  case (Some f)
  let ?st = "st\<lparr>tmpfile := f, fd_open := True\<rparr>"
  obtain h p n k where line: "sock_getline (sock_recv e) fuel (conn_heap st) = Some (Inr (h, p, n, k))"
    using assms(2) Some by (auto simp: conn_handler_def bindL_eq_Some_Inr)
  show ?thesis
  proof (cases p)
    case None
    with getline_packet [OF assms(1) line] Some line assms(2) show ?thesis
      by (auto simp: conn_handler_def cleanup_fd_def finalize_def)
  next
    case (Some a)
    with getline_packet [OF assms(1) line] obtain blk where
      a: "conn_heap st a = None" "h = (conn_heap st)(a \<mapsto> blk)" by auto
    obtain st1 abort1 st2 abort2 where
      packet: "handle_packet dev e fuel (?st\<lparr>conn_heap := h\<rparr>) blk (the n) = Some (Inr (st1, abort1))"
      and send: "(if abort1 then Some (Inr (st1, True)) else send_file_loop e fuel fuel st1) =
        Some (Inr (st2, abort2))"
      and free: "bindR (free_block (conn_heap st2) p) (\<lambda>h'.
        Inr (cleanup_fd e (st2\<lparr>conn_heap := h'\<rparr>) abort2)) = Inr st'"
      using assms(2) \<open>open_tmpfile e (tmpfile st) = Some f\<close> Some line a
      by (auto simp: conn_handler_def bindL_eq_Some_Inr block_at_def)
    have st1: "conn_heap st1 = h" "holds_mutex st1 \<longrightarrow> holds_mutex st \<or> mutex_unlock e \<noteq> 0"
      using handle_packet_resources [OF packet] by (auto simp: same_resources_def)
    have st2: "conn_heap st2 = h" "holds_mutex st2 = holds_mutex st1"
      using send st1(1) send_file_resources [of e fuel fuel st1 st2 abort2]
      by (auto simp: same_resources_def split: if_splits)
    have "st' = cleanup_fd e (st2\<lparr>conn_heap := conn_heap st\<rparr>) abort2"
      using free st2(1) Some a by (simp add: free_ok)
    then show ?thesis
      using st1(2) st2(2) by (simp add: cleanup_fd_def finalize_def)
  qed
qed

text \<open>
  C31: The handler gives back what it takes. Whenever it ends without a fault, for either build
  and whatever the calls return: the packet has been freed and nothing else has changed in
  the heap, both descriptors have been closed, the entry is marked inactive with the exit
  value 0 or \<open>-1\<close> in it, and the mutex is not held unless unlocking failed.
\<close>

theorem conn_handler_resources:
  assumes "sockenv_ok (sock_recv e)" and "conn_handler dev e fuel st = Some (Inr st')"
    and "\<not> fd_open st"
  shows "conn_heap st' = conn_heap st \<and> \<not> fd_open st' \<and> \<not> sock_open st' \<and>
    \<not> is_active (connection st') \<and> descriptor (connection st') \<in> {0, - 1} \<and>
    (holds_mutex st' \<longrightarrow> holds_mutex st \<or> mutex_unlock e \<noteq> 0)"
  by (rule conn_handler_resources_run [OF assms])

section \<open>A connection from start to end\<close>

text \<open>
  The run of the handler when a packet \<open>P\<close> of at most 127 bytes arrives in at most two chunks:
  the packet is handled, the file is sent, the block is freed.
\<close>

definition packet_received ::
  "('f, 'k) conn_env \<Rightarrow> ('f, 'k) conn_state \<Rightarrow> byte list \<Rightarrow> bool" where
  "packet_received e st P \<longleftrightarrow>
     sockenv_ok (sock_recv e) \<and> alloc_succeeds (sock_recv e) (conn_heap st) \<and>
     newline \<notin> set (stack_junk (sock_recv e)) \<and> length P \<le> 127 \<and>
     (\<exists>cs l. packet_arrives (sock_recv e) cs l [] \<and> length cs \<le> 1 \<and> P = concat cs @ l @ [newline])"

lemma packet_string:
  "take (length P) blk = P \<Longrightarrow> length P < length blk \<Longrightarrow> blk ! length P = nul \<Longrightarrow>
   \<exists>rest. blk = P @ nul # rest"
  by (metis id_take_nth_drop)

lemma conn_handler_run:
  assumes pk: "packet_received e st P" and opened: "open_tmpfile e (tmpfile st) = Some f"
    and fuel: "1 < fuel"
  shows "\<exists>blk h. take (length P) blk = P \<and> length P < length blk \<and> blk ! length P = nul \<and>
    (\<forall>st1 abort1 st2 abort2.
      handle_packet dev e fuel (st\<lparr>tmpfile := f, fd_open := True, conn_heap := h\<rparr>) blk
        (of_nat (length P)) = Some (Inr (st1, abort1)) \<longrightarrow>
      (if abort1 then Some (Inr (st1, True)) else send_file_loop e fuel fuel st1) =
        Some (Inr (st2, abort2)) \<longrightarrow>
      conn_handler dev e fuel st =
        Some (Inr (cleanup_fd e (st2\<lparr>conn_heap := conn_heap st\<rparr>) abort2)))"
proof -
  let ?st = "st\<lparr>tmpfile := f, fd_open := True\<rparr>"
  obtain cs l where ok: "sockenv_ok (sock_recv e)" "alloc_succeeds (sock_recv e) (conn_heap st)"
    "newline \<notin> set (stack_junk (sock_recv e))"
    and cs: "packet_arrives (sock_recv e) cs l []" "length cs \<le> 1" "P = concat cs @ l @ [newline]"
    and P: "length P \<le> 127"
    using pk unfolding packet_received_def by blast
  obtain h p where hp: "packet_block (conn_heap st) h p P"
    "sock_getline (sock_recv e) fuel (conn_heap st) =
      Some (Inr (h, p, Some (of_nat (length P)), length cs + 1))"
    using getline_two_chunks [OF ok cs(1,2), of fuel] P cs(2) fuel unfolding cs(3) by auto
  obtain a blk where a: "p = Some a" "conn_heap st a = None" "h = (conn_heap st)(a \<mapsto> blk)"
    and blk: "take (length P) blk = P" "length P < length blk" "blk ! length P = nul"
    using hp(1) unfolding packet_block_def by blast
  show ?thesis
  proof (intro exI conjI allI impI, rule blk(1), rule blk(2), rule blk(3))
    fix st1 abort1 st2 abort2
    assume packet: "handle_packet dev e fuel (st\<lparr>tmpfile := f, fd_open := True, conn_heap := h\<rparr>) blk
        (of_nat (length P)) = Some (Inr (st1, abort1))"
      and send: "(if abort1 then Some (Inr (st1, True)) else send_file_loop e fuel fuel st1) =
        Some (Inr (st2, abort2))"
    have "conn_heap st1 = h"
      using handle_packet_resources [OF packet] by (simp add: same_resources_def)
    then have "conn_heap st2 = h"
      using send send_file_resources [of e fuel fuel st1 st2 abort2]
      by (auto simp: same_resources_def split: if_splits)
    then have free: "free_block (conn_heap st2) p = Inr (conn_heap st)"
      using a by (simp add: free_ok)
    have blk_at: "block_at h p = Inr blk" using a by (simp add: block_at_def)
    show "conn_handler dev e fuel st =
        Some (Inr (cleanup_fd e (st2\<lparr>conn_heap := conn_heap st\<rparr>) abort2))"
      unfolding conn_handler_def opened option.case Let_def
      using hp(2) a(1) packet send free blk_at by simp
  qed
qed

text \<open>
  The file of the build without the device, as documented for a regular file opened with
  \<open>O_APPEND\<close>: \<open>data\<close> is its contents, \<open>remaining\<close> what is behind the position of the
  descriptor; \<open>write\<close> appends some of the bytes or fails, \<open>lseek\<close> moves to the start or fails,
  \<open>read\<close> returns the next bytes.
\<close>

definition append_file_ok ::
  "('f, 'k) conn_env \<Rightarrow> ('f \<Rightarrow> byte list) \<Rightarrow> ('f \<Rightarrow> byte list) \<Rightarrow> bool" where
  "append_file_ok e data remaining \<longleftrightarrow>
     (\<forall>f f'. open_tmpfile e f = Some f' \<longrightarrow> data f' = data f) \<and>
     sink_ok data (file_write e) \<and> sink_progress (file_write e) \<and>
     (\<forall>f. \<exists>f' off. file_lseek e f = Inr (f', off) \<and> data f' = data f \<and>
        (off \<noteq> - 1 \<longrightarrow> remaining f' = data f)) \<and>
     (\<forall>f n. 0 < unat n \<longrightarrow> (\<exists>f' bs. file_read e f n = Inr (f', of_nat (length bs), bs) \<and>
        (bs = [] \<longleftrightarrow> remaining f = []) \<and> length bs \<le> unat n \<and> remaining f = bs @ remaining f' \<and>
        data f' = data f))"

lemma append_file_chunked:
  assumes "append_file_ok e data remaining"
  shows "chunked_read (file_read e) remaining data (\<lambda>_. True)"
proof
  fix f and n :: size_t
  assume n: "0 < unat n"
  then obtain f' bs where rd: "file_read e f n = Inr (f', of_nat (length bs), bs)"
    "bs = [] \<longleftrightarrow> remaining f = []" "length bs \<le> unat n" "remaining f = bs @ remaining f'"
    "data f' = data f"
    using assms unfolding append_file_ok_def by meson
  show "\<exists>f'. file_read e f n = Inr (f', 0, []) \<and> data f' = data f" if "remaining f = []"
    using rd that by auto
  show "\<exists>f' bs. file_read e f n = Inr (f', of_nat (length bs), bs) \<and> bs \<noteq> [] \<and>
      length bs \<le> unat n \<and> remaining f = bs @ remaining f' \<and> data f' = data f \<and> True"
    if "remaining f \<noteq> []"
    using rd that by blast
qed

text \<open>No call fails.\<close>

definition conn_env_total :: "('f, 'k) conn_env \<Rightarrow> bool" where
  "conn_env_total e \<longleftrightarrow>
     sink_total (file_write e) \<and> sink_total (sock_send e) \<and> mutex_unlock e = 0 \<and>
     (\<forall>f f' off. file_lseek e f = Inr (f', off) \<longrightarrow> off \<noteq> - 1) \<and>
     file_close e = 0 \<and> sock_close e = 0"

lemma write_packet_append:
  assumes af: "append_file_ok e data remaining" and P: "take (length P) blk = P" "length P \<le> length blk"
    and small: "length P < 2 ^ 63" and fuel: "length P < fuel"
  shows "\<exists>st' abort m. write_packet e fuel st blk (of_nat (length P)) = Some (Inr (st', abort)) \<and>
    data (tmpfile st') = data (tmpfile st) @ take m P \<and> peer_in st' = peer_in st \<and>
    (\<not> abort \<longrightarrow> take m P = P \<and> remaining (tmpfile st') = data (tmpfile st')) \<and>
    (conn_env_total e \<longrightarrow> \<not> abort)"
proof -
  have sink: "sink_ok data (file_write e)" "sink_progress (file_write e)"
    using af by (simp_all add: append_file_ok_def)
  let ?n = "of_nat (length P) :: size_t"
  have n: "unat ?n = length P" using small by (simp add: unat_of_nat_fits)
  obtain r where r: "putchars_loop (file_write e) fuel (tmpfile st) blk 0 ?n = Some r"
    using pc.put_terminates [OF sink, of 0 ?n blk fuel "tmpfile st"] n P(2) fuel by auto
  obtain f ret m where f: "r = Inr (f, ret)" "data f = data (tmpfile st) @ take m blk"
    "m \<le> length P" "ret = 0 \<and> m = length P \<or> ret = - 1"
    using pc.put_result [OF sink(1) _ r] n P(2) by auto
  have m: "take m blk = take m P" using P(1) f(3) by (metis min.absorb1 take_take)
  have total: "ret = 0" if "conn_env_total e"
    using pc.put_total [OF sink(1), of 0 ?n blk fuel "tmpfile st" f ret] that r f(1) n P(2)
    by (simp add: conn_env_total_def)
  obtain f' off where f': "file_lseek e f = Inr (f', off)" "data f' = data f"
    "off \<noteq> - 1 \<longrightarrow> remaining f' = data f"
    using af unfolding append_file_ok_def by meson
  show ?thesis
  proof (cases "mutex_unlock e \<noteq> 0 \<or> ret \<noteq> 0")
    case True
    then have "mutex_unlock e \<noteq> 0 \<or> sint ret < 0" using f(4) by auto
    then show ?thesis
      using r f(1,2) m total True
      by (intro exI [of _ "st\<lparr>tmpfile := f, holds_mutex := mutex_lock e = 0 \<and> mutex_unlock e \<noteq> 0\<rparr>"]
          exI [of _ True] exI [of _ m])
        (auto simp: write_packet_def putchars_def conn_env_total_def Let_def)
  next
    case False
    then show ?thesis
      using r f m f'
      by (intro exI [of _ "st\<lparr>tmpfile := f', holds_mutex := False\<rparr>"] exI [of _ "off = - 1"]
          exI [of _ m])
        (auto simp: write_packet_def putchars_def conn_env_total_def Let_def)
  qed
qed

text \<open>
  A connection of the build without the device, when no other thread uses the file in
  between. A client whose packet arrives in at most two chunks of together at most 127 bytes
  is always served: the handler ends, without a fault; a prefix of the packet has been
  appended to the file; if the exit value is 0, all of it, and the client has been sent the
  whole file, the packet included; and the exit value is 0 if no call failed.
\<close>

theorem conn_handler_echo:
  assumes "packet_received e st P" and "append_file_ok e data remaining"
    and "sink_ok taken (sock_send e)" and "sink_progress (sock_send e)"
    and "open_tmpfile e (tmpfile st) \<noteq> None"
    and "256 < fuel" and "length (data (tmpfile st)) + length P < fuel"
  shows "\<exists>st' m. conn_handler False e fuel st = Some (Inr st') \<and>
    data (tmpfile st') = data (tmpfile st) @ take m P \<and>
    (descriptor (connection st') = 0 \<longrightarrow> take m P = P \<and>
       taken (peer_in st') = taken (peer_in st) @ data (tmpfile st')) \<and>
    (conn_env_total e \<longrightarrow> descriptor (connection st') = 0)"
proof -
  obtain f where opened: "open_tmpfile e (tmpfile st) = Some f" using assms(5) by blast
  then have f: "data f = data (tmpfile st)" using assms(2) by (simp add: append_file_ok_def)
  have P: "length P < 2 ^ 63" "length P < fuel" "1 < fuel"
    using assms(1,6,7) by (simp_all add: packet_received_def)
  obtain blk h where
    blk: "take (length P) blk = P" "length P < length blk" "blk ! length P = nul"
    and run: "\<forall>st1 abort1 st2 abort2.
      handle_packet False e fuel (st\<lparr>tmpfile := f, fd_open := True, conn_heap := h\<rparr>) blk
        (of_nat (length P)) = Some (Inr (st1, abort1)) \<longrightarrow>
      (if abort1 then Some (Inr (st1, True)) else send_file_loop e fuel fuel st1) =
        Some (Inr (st2, abort2)) \<longrightarrow>
      conn_handler False e fuel st =
        Some (Inr (cleanup_fd e (st2\<lparr>conn_heap := conn_heap st\<rparr>) abort2))"
    using conn_handler_run [OF assms(1) opened P(3), where dev = False] by blast
  let ?st = "st\<lparr>tmpfile := f, fd_open := True, conn_heap := h\<rparr>"
  obtain st1 abort1 m where packet:
    "write_packet e fuel ?st blk (of_nat (length P)) = Some (Inr (st1, abort1))"
    "data (tmpfile st1) = data (tmpfile ?st) @ take m P" "peer_in st1 = peer_in ?st"
    "\<not> abort1 \<longrightarrow> take m P = P \<and> remaining (tmpfile st1) = data (tmpfile st1)"
    "conn_env_total e \<longrightarrow> \<not> abort1"
    using write_packet_append [OF assms(2) blk(1) less_imp_le [OF blk(2)] P(1,2), of ?st] by blast
  have st1: "data (tmpfile st1) = data (tmpfile st) @ take m P" "peer_in st1 = peer_in st"
    using packet(2,3) f by simp_all
  have handled: "handle_packet False e fuel ?st blk (of_nat (length P)) = Some (Inr (st1, abort1))"
    using packet(1) by (simp add: handle_packet_def)
  show ?thesis
  proof (cases abort1)
    case True
    then have "conn_handler False e fuel st =
        Some (Inr (cleanup_fd e (st1\<lparr>conn_heap := conn_heap st\<rparr>) True))"
      using run [rule_format, OF handled, of st1 True] by simp
    with True packet(5) st1 show ?thesis
      by (intro exI [of _ "cleanup_fd e (st1\<lparr>conn_heap := conn_heap st\<rparr>) True"] exI [of _ m])
        (simp add: cleanup_fd_def finalize_def)
  next
    case False
    have "length (remaining (tmpfile st1)) < fuel"
      using packet(4) st1(1) False assms(7) by simp
    from chunked_read.send_all [OF append_file_chunked [OF assms(2)] refl assms(3,4) _ TrueI this, of fuel]
    obtain st2 abort2 where sent: "send_file_loop e fuel fuel st1 = Some (Inr (st2, abort2))"
      "\<not> abort2 \<longrightarrow> taken (peer_in st2) = taken (peer_in st1) @ remaining (tmpfile st1)"
      "sink_total (sock_send e) \<longrightarrow> \<not> abort2" "data (tmpfile st2) = data (tmpfile st1)"
      using assms(6) by (auto simp: CONN_BUFSIZE_def)
    have "conn_handler False e fuel st =
        Some (Inr (cleanup_fd e (st2\<lparr>conn_heap := conn_heap st\<rparr>) abort2))"
      using run [rule_format, OF handled, of st2 abort2] sent(1) False by simp
    then show ?thesis
      using sent packet(4,5) st1 False
      by (intro exI [of _ "cleanup_fd e (st2\<lparr>conn_heap := conn_heap st\<rparr>) abort2"] exI [of _ m])
        (auto simp: cleanup_fd_def finalize_def conn_env_total_def)
  qed
qed

section \<open>Witnesses\<close>

text \<open>
  A client that sends \<open>hi\<close> in two pieces, a file that holds one line and is a pair of contents
  and position, short writes, sends and reads.
\<close>

definition env_example :: "(byte list \<times> nat, byte list) conn_env" where
  "env_example =
     \<lparr>open_tmpfile = (\<lambda>(c, p). Some (c, 0)),
      file_write = (\<lambda>(c, p) bs. bindR (two_at_a_time c bs) (\<lambda>(c', n). Inr ((c', length c'), n))),
      file_read = (\<lambda>(c, p) n. let bs = take (min (unat n) 3) (drop p c)
        in Inr ((c, p + length bs), of_nat (length bs), bs)),
      file_lseek = (\<lambda>(c, p). Inr ((c, 0), 0)),
      file_ioctl = (\<lambda>f _ _. Inr (f, - 1)), file_close = 0,
      sock_recv = sockenv_example [[104], [105, newline]], sock_send = two_at_a_time,
      sock_close = 0, mutex_lock = 0, mutex_unlock = 0\<rparr>"

definition conn_example :: "(byte list \<times> nat, byte list) conn_state" where
  "conn_example =
     \<lparr>tmpfile = ([111, 107, newline], 0), peer_in = [], conn_heap = Map.empty,
      holds_mutex = False, fd_open = False, sock_open = True,
      connection = \<lparr>descriptor = 5, is_active = True\<rparr>\<rparr>"

lemma env_example_file: "append_file_ok env_example fst (\<lambda>(c, p). drop p c)"
proof -
  have ok: "\<exists>s' n. two_at_a_time s bs = Inr (s', n) \<and>
      (n = - 1 \<and> s' = s \<or> 0 \<le> sint n \<and> unat n \<le> length bs \<and> s' = s @ take (unat n) bs)" for s bs
    using two_at_a_time_ok(1) by (simp add: sink_ok_def)
  have "sink_ok fst (file_write env_example)"
    unfolding sink_ok_def
  proof (intro allI)
    fix s :: "byte list \<times> nat" and bs
    obtain c p where s: "s = (c, p)" by (cases s)
    obtain c' n where "two_at_a_time c bs = Inr (c', n)"
      "n = - 1 \<and> c' = c \<or> 0 \<le> sint n \<and> unat n \<le> length bs \<and> c' = c @ take (unat n) bs"
      using ok by blast
    then show "\<exists>s' n. file_write env_example s bs = Inr (s', n) \<and>
        (n = - 1 \<and> fst s' = fst s \<or>
         0 \<le> sint n \<and> unat n \<le> length bs \<and> fst s' = fst s @ take (unat n) bs)"
      by (auto simp: s env_example_def)
  qed
  moreover have "sink_progress (file_write env_example)"
    using two_at_a_time_ok(2) by (auto simp: sink_progress_def env_example_def bindR_eq_Inr)
  moreover have "take k (drop b a) @ drop (b + k) a = drop b a" for k b and a :: "byte list"
    by (metis append_take_drop_id drop_drop add.commute)
  ultimately show ?thesis
    by (auto simp: append_file_ok_def env_example_def Let_def min_def)
qed

theorem conn_handler_echo_witness:
  "\<exists>st'. conn_handler False env_example 300 conn_example = Some (Inr st') \<and>
     fst (tmpfile st') = [111, 107, newline, 104, 105, newline] \<and>
     peer_in st' = [111, 107, newline, 104, 105, newline] \<and> descriptor (connection st') = 0"
proof -
  have arrives: "packet_arrives (sockenv_example [[104], [105, newline]]) [[104]] [105] []"
    by (simp add: packet_arrives_def)
  then have pk: "packet_received env_example conn_example [104, 105, newline]"
    using sockenv_example_ok sockenv_example_alloc
    by (auto simp: packet_received_def env_example_def conn_example_def
        intro!: exI [of _ "[[104]]"] exI [of _ "[105]"])
  have total: "conn_env_total env_example"
    using two_at_a_time_total
    by (auto simp: conn_env_total_def env_example_def sink_total_def bindR_eq_Inr)
  show ?thesis
    using conn_handler_echo [OF pk env_example_file, of id 300] two_at_a_time_ok total
    by (auto simp: env_example_def conn_example_def)
qed

theorem conn_handler_resources_witness:
  "\<exists>st'. conn_handler False (env_example\<lparr>open_tmpfile := \<lambda>_. None\<rparr>) 300 conn_example = Some (Inr st') \<and>
     conn_heap st' = Map.empty \<and> \<not> fd_open st' \<and> \<not> sock_open st'"
proof -
  let ?e = "env_example\<lparr>open_tmpfile := \<lambda>_. None\<rparr>"
  have ok: "sockenv_ok (sock_recv ?e)" using sockenv_example_ok by (simp add: env_example_def)
  obtain st' where run: "conn_handler False ?e 300 conn_example = Some (Inr st')"
    by (simp add: conn_handler_def)
  from conn_handler_resources [OF ok run] run show ?thesis by (simp add: conn_example_def)
qed

end
