(* ===== verification/DeviceFile.thy ===== *)
theory DeviceFile
  imports ConnectionRun DriverRead DriverWrite
begin

text \<open>
  The server on top of the driver: \<open>conn_handler\<close> as it is built with
  \<open>USE_AESD_CHAR_DEVICE\<close>, where the file is \<open>/dev/aesdchar\<close> and its system calls end in the
  file operations of \<open>main.c\<close>. The interpretation of \<open>chunked_read\<close> on the driver gives the
  handler's loop its contract.
\<close>

section \<open>The device as a file\<close>

text \<open>
  What is behind the descriptor: the kernel services, the driver and the open file. The
  functions are the entries of \<open>aesd_fops\<close> as system calls: the position of the open file is
  passed to \<open>read\<close> and \<open>write\<close> and stored back when they succeed, and a negative result
  becomes \<open>-1\<close>.
\<close>

record vfile =
  vf_env :: kenv
  vf_drv :: drv
  vf_file :: open_file

definition fops_open :: "vfile \<Rightarrow> vfile option" where
  "fops_open f =
     (let (filp, ret) = aesd_open \<lparr>f_pos = 0, private_data = False\<rparr>
      in if ret = 0 then Some (f\<lparr>vf_file := filp\<rparr>) else None)"

definition fops_write :: "vfile sink" where
  "fops_write f bs =
     bindR (aesd_write (vf_env f) (vf_drv f) (vf_file f) bs (of_nat (length bs)) (f_pos (vf_file f)))
       (\<lambda>(d, pos, ret).
        Inr (if sint ret < 0 then (f\<lparr>vf_drv := d\<rparr>, - 1)
             else (f\<lparr>vf_drv := d, vf_file := (vf_file f)\<lparr>f_pos := pos\<rparr>\<rparr>, ret)))"

definition fops_read :: "vfile \<Rightarrow> size_t \<Rightarrow> (vfile \<times> ssize_t \<times> byte list) res" where
  "fops_read f n =
     bindR (aesd_read (vf_env f) (vf_drv f) (vf_file f) n (f_pos (vf_file f)))
       (\<lambda>(d, pos, ret, bs).
        Inr (if sint ret < 0 then (f\<lparr>vf_drv := d\<rparr>, - 1, bs)
             else (f\<lparr>vf_drv := d, vf_file := (vf_file f)\<lparr>f_pos := pos\<rparr>\<rparr>, ret, bs)))"

definition fops_lseek :: "vfile \<Rightarrow> (vfile \<times> loff_t) res" where
  "fops_lseek f =
     bindR (aesd_llseek (vf_env f) (vf_drv f) (vf_file f) 0 0) (\<lambda>(d, filp, ret).
     Inr (f\<lparr>vf_drv := d, vf_file := filp\<rparr>, if sint ret < 0 then - 1 else ret))"

definition fops_ioctl :: "vfile \<Rightarrow> u32 \<Rightarrow> aesd_seekto \<Rightarrow> (vfile \<times> s32) res" where
  "fops_ioctl f cmd arg =
     bindR (aesd_ioctl (vf_env f) (vf_drv f) (vf_file f) cmd arg) (\<lambda>(d, filp, ret).
     Inr (f\<lparr>vf_drv := d, vf_file := filp\<rparr>, if sint ret < 0 then - 1 else ucast ret))"

text \<open>The environment of a handler whose file is the device.\<close>

definition device_env :: "(vfile, 'k) conn_env \<Rightarrow> bool" where
  "device_env e \<longleftrightarrow>
     open_tmpfile e = fops_open \<and> file_write e = fops_write \<and> file_read e = fops_read \<and>
     file_lseek e = fops_lseek \<and> file_ioctl e = fops_ioctl"

section \<open>Reading the device in chunks\<close>

definition dev_remaining :: "vfile \<Rightarrow> byte list" where
  "dev_remaining f = drop (unat (f_pos (vf_file f))) (content (dev_abs (vf_drv f)))"

definition dev_good :: "vfile \<Rightarrow> bool" where
  "dev_good f \<longleftrightarrow>
     kenv_ok (vf_env f) \<and> mutex_lock_interruptible (vf_env f) = 0 \<and>
     (\<forall>bs. snd (copy_to_user (vf_env f) bs) = 0) \<and> dev_wf (vf_drv f) \<and> private_data (vf_file f)"

lemma content_bound: "dev_wf s \<Longrightarrow> length (content (dev_abs s)) < 2 ^ 63"
  using buf_wf_sizes(3) by (auto simp: log_bytes_def elim!: dev_wfE) (metis add_lessD1)

lemma fops_read_chunk:
  assumes good: "dev_good f" and n: "0 < unat n"
  shows "\<exists>f' bs. fops_read f n = Inr (f', of_nat (length bs), bs) \<and>
    (bs = [] \<longleftrightarrow> dev_remaining f = []) \<and> length bs \<le> unat n \<and>
    dev_remaining f = bs @ dev_remaining f' \<and>
    (vf_env f', vf_drv f') = (vf_env f, vf_drv f) \<and> dev_good f'"
proof -
  let ?l = "dev_abs (vf_drv f)" and ?pos = "f_pos (vf_file f)"
  have ok: "kenv_ok (vf_env f)" "mutex_lock_interruptible (vf_env f) = 0"
    "snd (copy_to_user (vf_env f) bs) = 0" "dev_wf (vf_drv f)" "private_data (vf_file f)" for bs
    using good by (simp_all add: dev_good_def)
  let ?bs = "chunk_at (cmds ?l) (unat ?pos) (unat n)"
  have read: "aesd_read (vf_env f) (vf_drv f) (vf_file f) n ?pos =
      (if length (content ?l) \<le> unat ?pos then Inr (vf_drv f, ?pos, 0, [])
       else Inr (vf_drv f, ?pos + of_nat (length ?bs), of_nat (length ?bs), ?bs))"
    using aesd_read_eq [OF ok(4,5,2,1)] ok(3) by (simp add: Let_def)
  show ?thesis
  proof (cases "length (content ?l) \<le> unat ?pos")
    case True
    then show ?thesis
      using good by (auto simp: fops_read_def read dev_remaining_def dev_good_def)
  next
    case False
    obtain rest where rest: "drop (unat ?pos) (content ?l) = ?bs @ rest"
      using chunk_at_prefix [of "unat ?pos" "cmds ?l" "unat n"] by (auto simp: content_def)
    have ne: "?bs \<noteq> []"
      using False n by (simp add: chunk_at_empty content_def)
    have sum: "unat ?pos + length ?bs \<le> length (content ?l)"
      using arg_cong [OF rest, of length] False by simp
    then have small: "length ?bs < 2 ^ 63" "unat ?pos + length ?bs < 2 ^ LENGTH(64)"
      using content_bound [OF ok(4)] by simp_all
    have len: "unat (of_nat (length ?bs) :: loff_t) = length ?bs"
      using small(1) by (simp add: unat_of_nat_fits)
    then have pos': "unat (?pos + of_nat (length ?bs)) = unat ?pos + length ?bs"
      using small(2) by (simp add: unat_add_fits)
    have sgn: "\<not> sint (of_nat (length ?bs) :: ssize_t) < 0"
      by (simp add: sint_of_nat_fits [OF small(1)])
    have "drop (unat ?pos + length ?bs) (content ?l) = rest"
      using arg_cong [OF rest, of "drop (length ?bs)"] by (simp add: add.commute)
    then have "dev_remaining f = ?bs @ drop (unat ?pos + length ?bs) (content ?l)"
      using rest by (simp add: dev_remaining_def)
    then show ?thesis
      using False good ne sgn pos' length_chunk_at [of "cmds ?l" "unat ?pos" "unat n"]
      by (auto simp: fops_read_def read dev_remaining_def dev_good_def)
  qed
qed

interpretation dr: chunked_read fops_read dev_remaining "\<lambda>f. (vf_env f, vf_drv f)" dev_good
proof
  fix f and n :: size_t
  assume good: "dev_good f"
  note fops_read_chunk [OF good]
  show "\<exists>f'. fops_read f n = Inr (f', 0, []) \<and> (vf_env f', vf_drv f') = (vf_env f, vf_drv f)"
    if "dev_remaining f = []" "0 < unat n"
    using fops_read_chunk [OF good that(2)] that(1) by auto
  show "\<exists>f' bs. fops_read f n = Inr (f', of_nat (length bs), bs) \<and> bs \<noteq> [] \<and>
      length bs \<le> unat n \<and> dev_remaining f = bs @ dev_remaining f' \<and>
      (vf_env f', vf_drv f') = (vf_env f, vf_drv f) \<and> dev_good f'"
    if "dev_remaining f \<noteq> []" "0 < unat n"
    using fops_read_chunk [OF good that(2)] that(1) by blast
qed

section \<open>A connection to the device\<close>

text \<open>
  Kernel services that do not fail: the lock is not interrupted, the copies are complete, and
  \<open>fixed_size_llseek\<close> of offset 0 with \<open>SEEK_SET\<close> goes to the start.
\<close>

definition device_ready :: "kenv \<Rightarrow> bool" where
  "device_ready e \<longleftrightarrow>
     kenv_ok e \<and> mutex_lock_interruptible e = 0 \<and>
     (\<forall>bs. snd (copy_from_user e bs) = 0) \<and> (\<forall>bs. snd (copy_to_user e bs) = 0) \<and>
     (\<forall>x. copy_seekto e x = (x, 0)) \<and>
     (\<forall>pos sz. 0 \<le> sint sz \<longrightarrow> fixed_size_llseek e pos 0 0 sz = (0, 0))"

lemma fops_write_ok:
  assumes ready: "device_ready (vf_env f)" and wf: "dev_wf (vf_drv f)" and pd: "private_data (vf_file f)"
    and fits: "write_fits (vf_drv f) P (of_nat (length P))" and ne: "P \<noteq> []"
    and alloc: "kmalloc (vf_env f) (heap (vf_drv f))
      (esize (wip_entry (aesd_device (vf_drv f))) + of_nat (length P) + 1) \<noteq> None"
  shows "\<exists>f'. fops_write f P = Inr (f', of_nat (length P)) \<and> dev_wf (vf_drv f') \<and>
    dev_abs (vf_drv f') = write_log (dev_abs (vf_drv f)) P \<and> vf_env f' = vf_env f \<and>
    private_data (vf_file f') \<and> (leak_free (vf_drv f) \<longrightarrow> leak_free (vf_drv f'))"
proof -
  let ?n = "of_nat (length P) :: size_t"
  obtain p junk where a: "kmalloc (vf_env f) (heap (vf_drv f))
      (esize (wip_entry (aesd_device (vf_drv f))) + ?n + 1) = Some (p, junk)"
    using alloc by auto
  have small: "length P < 2 ^ 63" using fits by (simp add: write_fits_def)
  have env: "mutex_lock_interruptible (vf_env f) = 0" "kenv_ok (vf_env f)"
    "snd (copy_from_user (vf_env f) P) = 0" "partial_cmd (dev_abs (vf_drv f)) @ P \<noteq> []"
    using ready ne by (simp_all add: device_ready_def)
  obtain d pos where "aesd_write (vf_env f) (vf_drv f) (vf_file f) P ?n (f_pos (vf_file f)) =
      Inr (d, pos, ?n)"
    "dev_wf d" "dev_abs d = write_log (dev_abs (vf_drv f)) P"
    "leak_free (vf_drv f) \<longrightarrow> leak_free d"
    using aesd_write_eq [OF wf pd env(1,2) fits a env(3,4)] by blast
  then show ?thesis
    using pd by (simp add: fops_write_def sint_of_nat_fits [OF small])
qed

lemma fops_lseek_ok:
  assumes ready: "device_ready (vf_env f)" and wf: "dev_wf (vf_drv f)" and pd: "private_data (vf_file f)"
  shows "\<exists>f'. fops_lseek f = Inr (f', 0) \<and> vf_drv f' = vf_drv f \<and> vf_env f' = vf_env f \<and> dev_good f' \<and>
    dev_remaining f' = content (dev_abs (vf_drv f))"
proof -
  let ?n = "length (content (dev_abs (vf_drv f)))"
  have "fixed_size_llseek (vf_env f) (f_pos (vf_file f)) 0 0 (of_nat ?n) = (0, 0)"
    using ready by (simp add: device_ready_def sint_of_nat_fits [OF content_bound [OF wf]])
  then show ?thesis
    using aesd_llseek_eq [OF wf pd, of "vf_env f" 0 0] ready wf pd
    by (simp add: fops_lseek_def device_ready_def dev_good_def dev_remaining_def)
qed

text \<open>The end of a run, once the packet has been handled without a failure.\<close>

lemma device_run:
  assumes pk: "packet_received e st P" and dev: "device_env e"
    and sink: "sink_ok taken (sock_send e)" "sink_progress (sock_send e)" and fuel: "256 < fuel"
    and handled: "\<And>h rest. \<exists>st1. handle_packet True e fuel
          (st\<lparr>tmpfile := (tmpfile st)\<lparr>vf_file := \<lparr>f_pos = 0, private_data = True\<rparr>\<rparr>,
              fd_open := True, conn_heap := h\<rparr>) (P @ nul # rest) (of_nat (length P)) = Some (Inr (st1, abort)) \<and>
        peer_in st1 = peer_in st \<and> vf_drv (tmpfile st1) = d \<and> vf_env (tmpfile st1) = vf_env (tmpfile st) \<and>
        (\<not> abort \<longrightarrow> dev_good (tmpfile st1) \<and> dev_remaining (tmpfile st1) = out)"
    and len: "length out < fuel"
  shows "\<exists>st' m. conn_handler True e fuel st = Some (Inr st') \<and> vf_drv (tmpfile st') = d \<and>
    vf_env (tmpfile st') = vf_env (tmpfile st) \<and>
    taken (peer_in st') = taken (peer_in st) @ (if abort then [] else take m out) \<and>
    (descriptor (connection st') = 0 \<longrightarrow> \<not> abort \<and> take m out = out) \<and>
    (\<not> abort \<and> sink_total (sock_send e) \<and> file_close e = 0 \<and> sock_close e = 0 \<longrightarrow>
       descriptor (connection st') = 0)"
proof -
  let ?f = "(tmpfile st)\<lparr>vf_file := \<lparr>f_pos = 0, private_data = True\<rparr>\<rparr>"
  have opened: "open_tmpfile e (tmpfile st) = Some ?f"
    using dev by (simp add: device_env_def fops_open_def aesd_open_def)
  obtain blk h where
    blk: "take (length P) blk = P" "length P < length blk" "blk ! length P = nul"
    and run: "\<forall>st1 abort1 st2 abort2.
      handle_packet True e fuel (st\<lparr>tmpfile := ?f, fd_open := True, conn_heap := h\<rparr>) blk
        (of_nat (length P)) = Some (Inr (st1, abort1)) \<longrightarrow>
      (if abort1 then Some (Inr (st1, True)) else send_file_loop e fuel fuel st1) =
        Some (Inr (st2, abort2)) \<longrightarrow>
      conn_handler True e fuel st =
        Some (Inr (cleanup_fd e (st2\<lparr>conn_heap := conn_heap st\<rparr>) abort2))"
    using conn_handler_run [OF pk opened, of fuel True] fuel by auto
  obtain rest where rest: "blk = P @ nul # rest" using packet_string [OF blk] by blast
  from handled [of h rest] obtain st1 where st1:
    "handle_packet True e fuel (st\<lparr>tmpfile := ?f, fd_open := True, conn_heap := h\<rparr>) blk
        (of_nat (length P)) = Some (Inr (st1, abort))"
    "peer_in st1 = peer_in st" "vf_drv (tmpfile st1) = d" "vf_env (tmpfile st1) = vf_env (tmpfile st)"
    "\<not> abort \<longrightarrow> dev_good (tmpfile st1) \<and> dev_remaining (tmpfile st1) = out"
    unfolding rest by blast
  show ?thesis
  proof (cases abort)
    case True
    then have "conn_handler True e fuel st =
        Some (Inr (cleanup_fd e (st1\<lparr>conn_heap := conn_heap st\<rparr>) True))"
      using run [rule_format, OF st1(1), of st1 True] by simp
    with True st1 show ?thesis by (simp add: cleanup_fd_def finalize_def)
  next
    case False
    then have good: "dev_good (tmpfile st1)" and out: "dev_remaining (tmpfile st1) = out"
      using st1(5) by auto
    have rd: "file_read e = fops_read" using dev by (simp add: device_env_def)
    have pf: "CONN_BUFSIZE < fuel" using fuel by (simp add: CONN_BUFSIZE_def)
    obtain st2 abort2 m where sent: "send_file_loop e fuel fuel st1 = Some (Inr (st2, abort2))"
      "taken (peer_in st2) = taken (peer_in st1) @ take m out"
      "\<not> abort2 \<longrightarrow> taken (peer_in st2) = taken (peer_in st1) @ out"
      "sink_total (sock_send e) \<longrightarrow> \<not> abort2"
      "(vf_env (tmpfile st2), vf_drv (tmpfile st2)) = (vf_env (tmpfile st1), vf_drv (tmpfile st1))"
      using dr.send_all [OF rd sink pf good, of fuel] len unfolding out by blast
    have "conn_handler True e fuel st =
        Some (Inr (cleanup_fd e (st2\<lparr>conn_heap := conn_heap st\<rparr>) abort2))"
      using run [rule_format, OF st1(1), of st2 abort2] sent(1) False by simp
    then show ?thesis
      using sent st1(2-4) False
      by (intro exI [of _ "cleanup_fd e (st2\<lparr>conn_heap := conn_heap st\<rparr>) abort2"] exI [of _ m])
        (auto simp: cleanup_fd_def finalize_def)
  qed
qed

text \<open>A packet that is no seek request, written to the device.\<close>

lemma device_write_packet:
  assumes dev: "device_env e" and other: "take 19 P \<noteq> SEEKTO_PREFIX"
    and f': "fops_write f P = Inr (f', of_nat (length P))" "dev_wf (vf_drv f')"
      "device_ready (vf_env f')" "private_data (vf_file f')"
    and P: "P \<noteq> []" "length P < 2 ^ 63" "1 < fuel"
  shows "\<exists>st1. handle_packet True e fuel
        (st\<lparr>tmpfile := f, fd_open := True, conn_heap := h\<rparr>) (P @ nul # rest) (of_nat (length P)) =
        Some (Inr (st1, mutex_unlock e \<noteq> 0)) \<and>
      peer_in st1 = peer_in st \<and> vf_drv (tmpfile st1) = vf_drv f' \<and> vf_env (tmpfile st1) = vf_env f' \<and>
      (\<not> mutex_unlock e \<noteq> 0 \<longrightarrow>
         dev_good (tmpfile st1) \<and> dev_remaining (tmpfile st1) = content (dev_abs (vf_drv f')))"
proof -
  have n: "unat (of_nat (length P) :: size_t) = length P" using P(2) by (simp add: unat_of_nat_fits)
  have n0: "(of_nat (length P) :: size_t) \<noteq> 0" using n P(1) by auto
  obtain f2 where f2: "fops_lseek f' = Inr (f2, 0)" "vf_drv f2 = vf_drv f'" "vf_env f2 = vf_env f'" "dev_good f2"
    "dev_remaining f2 = content (dev_abs (vf_drv f'))"
    using fops_lseek_ok [OF f'(3,2,4)] by blast
  have put: "putchars_loop fops_write fuel f (P @ nul # rest) 0 (of_nat (length P)) = Some (Inr (f', 0))"
    using f'(1) n n0 P(2,3) by (intro pc.put_once) simp_all
  have "nul \<notin> set SEEKTO_PREFIX" "length SEEKTO_PREFIX = 19" by (simp_all add: SEEKTO_PREFIX_def)
  then have no_seek: "strncmp_eq (P @ nul # rest) SEEKTO_PREFIX = Inr False"
    using strncmp_string [of SEEKTO_PREFIX P rest] other by simp
  have ops: "file_write e = fops_write" "file_lseek e = fops_lseek"
    using dev by (simp_all add: device_env_def)
  show ?thesis
    using put no_seek f2
    by (simp add: handle_packet_def write_packet_def ops putchars_def Let_def)
qed

lemma device_echo_run:
  assumes "packet_received e st P" and "device_env e" and "take 19 P \<noteq> SEEKTO_PREFIX"
    and "device_ready (vf_env (tmpfile st))" and "dev_wf (vf_drv (tmpfile st))"
    and "write_fits (vf_drv (tmpfile st)) P (of_nat (length P))"
    and "kmalloc (vf_env (tmpfile st)) (heap (vf_drv (tmpfile st)))
      (esize (wip_entry (aesd_device (vf_drv (tmpfile st)))) + of_nat (length P) + 1) \<noteq> None"
    and "sink_ok taken (sock_send e)" and "sink_progress (sock_send e)" and "256 < fuel"
    and "length (content (write_log (dev_abs (vf_drv (tmpfile st))) P)) < fuel"
  shows "\<exists>st' m. conn_handler True e fuel st = Some (Inr st') \<and> dev_wf (vf_drv (tmpfile st')) \<and>
    vf_env (tmpfile st') = vf_env (tmpfile st) \<and>
    (leak_free (vf_drv (tmpfile st)) \<longrightarrow> leak_free (vf_drv (tmpfile st'))) \<and>
    dev_abs (vf_drv (tmpfile st')) = write_log (dev_abs (vf_drv (tmpfile st))) P \<and>
    taken (peer_in st') = taken (peer_in st) @ take m (content (dev_abs (vf_drv (tmpfile st')))) \<and>
    (descriptor (connection st') = 0 \<longrightarrow>
       taken (peer_in st') = taken (peer_in st) @ content (dev_abs (vf_drv (tmpfile st')))) \<and>
    (sink_total (sock_send e) \<and> mutex_unlock e = 0 \<and> file_close e = 0 \<and> sock_close e = 0 \<longrightarrow>
       descriptor (connection st') = 0)"
proof -
  let ?f = "(tmpfile st)\<lparr>vf_file := \<lparr>f_pos = 0, private_data = True\<rparr>\<rparr>"
  have P: "P \<noteq> []" "length P < 2 ^ 63"
    using assms(1,6) by (auto simp: packet_received_def write_fits_def)
  obtain f' where f': "fops_write ?f P = Inr (f', of_nat (length P))" "dev_wf (vf_drv f')"
    "dev_abs (vf_drv f') = write_log (dev_abs (vf_drv (tmpfile st))) P"
    "vf_env f' = vf_env (tmpfile st)" "private_data (vf_file f')"
    "leak_free (vf_drv (tmpfile st)) \<longrightarrow> leak_free (vf_drv f')"
    using fops_write_ok [of ?f P] assms(4-7) P(1) by auto
  let ?abort = "mutex_unlock e \<noteq> 0"
  have "1 < fuel" using assms(10) by simp
  moreover have "device_ready (vf_env f')" using assms(4) f'(4) by simp
  ultimately have handled: "\<exists>st1. handle_packet True e fuel
        (st\<lparr>tmpfile := ?f, fd_open := True, conn_heap := h\<rparr>) (P @ nul # rest) (of_nat (length P)) =
        Some (Inr (st1, ?abort)) \<and>
      peer_in st1 = peer_in st \<and> vf_drv (tmpfile st1) = vf_drv f' \<and>
      vf_env (tmpfile st1) = vf_env (tmpfile st) \<and>
      (\<not> ?abort \<longrightarrow> dev_good (tmpfile st1) \<and> dev_remaining (tmpfile st1) = content (dev_abs (vf_drv f')))"
    for h rest
    using device_write_packet [OF assms(2,3) f'(1,2) _ f'(5) P] f'(4) by simp
  have len: "length (content (dev_abs (vf_drv f'))) < fuel" using f'(3) assms(11) by simp
  obtain st' m where st': "conn_handler True e fuel st = Some (Inr st')"
    "vf_drv (tmpfile st') = vf_drv f'" "vf_env (tmpfile st') = vf_env (tmpfile st)"
    "taken (peer_in st') = taken (peer_in st) @
       (if ?abort then [] else take m (content (dev_abs (vf_drv f'))))"
    "descriptor (connection st') = 0 \<longrightarrow> \<not> ?abort \<and>
       take m (content (dev_abs (vf_drv f'))) = content (dev_abs (vf_drv f'))"
    "\<not> ?abort \<and> sink_total (sock_send e) \<and> file_close e = 0 \<and> sock_close e = 0 \<longrightarrow>
       descriptor (connection st') = 0"
    using device_run [OF assms(1,2,8,9,10) handled len] by blast
  then show ?thesis
    using f'(2,3,6) by (intro exI [of _ st'] exI [of _ "if ?abort then 0 else m"]) auto
qed

text \<open>
  C2: A connection to the server on top of the driver, when no other process uses the device in
  between. A client whose packet is received and is no seek request is served without a
  fault: the driver has taken the packet as one write (the last ten commands, the packet
  included, are stored), the client has been sent a prefix of the stored commands, all of
  them if the exit value is 0, and the exit value is 0 if sending, unlocking and closing did
  not fail.
\<close>

theorem device_echo:
  assumes "packet_received e st P" and "device_env e" and "take 19 P \<noteq> SEEKTO_PREFIX"
    and "device_ready (vf_env (tmpfile st))" and "dev_wf (vf_drv (tmpfile st))"
    and "write_fits (vf_drv (tmpfile st)) P (of_nat (length P))"
    and "kmalloc (vf_env (tmpfile st)) (heap (vf_drv (tmpfile st)))
      (esize (wip_entry (aesd_device (vf_drv (tmpfile st)))) + of_nat (length P) + 1) \<noteq> None"
    and "sink_ok taken (sock_send e)" and "sink_progress (sock_send e)" and "256 < fuel"
    and "length (content (write_log (dev_abs (vf_drv (tmpfile st))) P)) < fuel"
  shows "\<exists>st' m. conn_handler True e fuel st = Some (Inr st') \<and> dev_wf (vf_drv (tmpfile st')) \<and>
    dev_abs (vf_drv (tmpfile st')) = write_log (dev_abs (vf_drv (tmpfile st))) P \<and>
    taken (peer_in st') = taken (peer_in st) @ take m (content (dev_abs (vf_drv (tmpfile st')))) \<and>
    (descriptor (connection st') = 0 \<longrightarrow>
       taken (peer_in st') = taken (peer_in st) @ content (dev_abs (vf_drv (tmpfile st')))) \<and>
    (sink_total (sock_send e) \<and> mutex_unlock e = 0 \<and> file_close e = 0 \<and> sock_close e = 0 \<longrightarrow>
       descriptor (connection st') = 0)"
  using device_echo_run [OF assms] by blast

lemma fops_ioctl_ok:
  assumes ready: "device_ready (vf_env f)" and wf: "dev_wf (vf_drv f)" and pd: "private_data (vf_file f)"
    and l: "cs = cmds (dev_abs (vf_drv f))" "k = unat (write_cmd arg)" "j = unat (write_cmd_offset arg)"
  shows "\<exists>f' ret. fops_ioctl f AESDCHAR_IOCSEEKTO arg = Inr (f', ret) \<and> vf_drv f' = vf_drv f \<and> vf_env f' = vf_env f \<and>
    (sint ret < 0 \<longleftrightarrow> \<not> (k < length cs \<and> j < length (cs ! k))) \<and>
    (\<not> sint ret < 0 \<longrightarrow> dev_good f' \<and> dev_remaining f' = drop j (cs ! k) @ concat (drop (Suc k) cs))"
proof -
  have mutex: "mutex_lock_interruptible (vf_env f) = 0" "copy_seekto (vf_env f) arg = (arg, 0)"
    using ready by (simp_all add: device_ready_def)
  have ioctl: "aesd_ioctl (vf_env f) (vf_drv f) (vf_file f) AESDCHAR_IOCSEEKTO arg =
      (if k < length cs \<and> j < length (cs ! k)
       then Inr (vf_drv f, (vf_file f)\<lparr>f_pos := of_nat (cmd_offset_pos cs k j)\<rparr>, 0)
       else Inr (vf_drv f, vf_file f, - EINVAL))"
    using aesd_adjust_eq [OF wf pd mutex(1)] mutex(2) l by (simp add: aesd_ioctl_def Let_def)
  show ?thesis
  proof (cases "k < length cs \<and> j < length (cs ! k)")
    case True
    then have "cmd_offset_pos cs k j < 2 ^ LENGTH(64)"
      using cmd_offset_pos_bound [of k cs j] content_bound [OF wf] l(1) by (simp add: content_def)
    then have "unat (of_nat (cmd_offset_pos cs k j) :: loff_t) = cmd_offset_pos cs k j"
      by (rule unat_of_nat_fits)
    then show ?thesis
      using True ready wf pd locate_concat(3) [OF locate_cmd_offset, of k cs j] l(1)
      by (simp add: fops_ioctl_def ioctl dev_good_def device_ready_def dev_remaining_def content_def)
  qed (simp add: fops_ioctl_def ioctl)
qed

text \<open>
  C14: A seek request to the server on top of the driver, \<open>AESDCHAR_IOCSEEKTO:X,Y\<close> with decimal
  numbers below \<open>2^32 - 1\<close>. Nothing is written. If the driver stores a command number \<open>X\<close>
  (from the oldest, 0) that has a byte number \<open>Y\<close>, the client is sent the stored commands
  from that byte on, or, with a non-zero exit value, a prefix of that; otherwise it is sent
  nothing and the exit value is non-zero.
\<close>

theorem device_seek:
  assumes "packet_received e st P" and "device_env e"
    and "P = SEEKTO_PREFIX @ ds @ c # ds' @ [newline]"
    and "decimal ds" and "decimal ds'" and "\<not> isdigit c"
    and "digits_value ds < 2 ^ 32 - 1" and "digits_value ds' < 2 ^ 32 - 1"
    and "device_ready (vf_env (tmpfile st))" and "dev_wf (vf_drv (tmpfile st))"
    and "sink_ok taken (sock_send e)" and "sink_progress (sock_send e)" and "256 < fuel"
    and "length (content (dev_abs (vf_drv (tmpfile st)))) < fuel"
    and "cs = cmds (dev_abs (vf_drv (tmpfile st)))"
  shows "\<exists>st' m. conn_handler True e fuel st = Some (Inr st') \<and>
    vf_drv (tmpfile st') = vf_drv (tmpfile st) \<and>
    (if digits_value ds < length cs \<and> digits_value ds' < length (cs ! digits_value ds)
     then let out = drop (digits_value ds') (cs ! digits_value ds) @ concat (drop (Suc (digits_value ds)) cs)
       in taken (peer_in st') = taken (peer_in st) @ take m out \<and>
         (descriptor (connection st') = 0 \<longrightarrow> take m out = out) \<and>
         (sink_total (sock_send e) \<and> file_close e = 0 \<and> sock_close e = 0 \<longrightarrow>
           descriptor (connection st') = 0)
     else taken (peer_in st') = taken (peer_in st) \<and> descriptor (connection st') \<noteq> 0)"
proof -
  let ?f = "(tmpfile st)\<lparr>vf_file := \<lparr>f_pos = 0, private_data = True\<rparr>\<rparr>"
  let ?k = "digits_value ds" and ?j = "digits_value ds'"
  let ?found = "?k < length cs \<and> ?j < length (cs ! ?k)"
  let ?out = "drop ?j (cs ! ?k) @ concat (drop (Suc ?k) cs)"
  let ?arg = "\<lparr>write_cmd = seek_arg ds, write_cmd_offset = seek_arg ds'\<rparr>"
  have arg: "unat (write_cmd ?arg) = ?k" "unat (write_cmd_offset ?arg) = ?j"
    "seek_arg ds \<noteq> - 1" "seek_arg ds' \<noteq> - 1"
    using seek_arg_small assms(7,8) by simp_all
  obtain f' ret where f': "fops_ioctl ?f AESDCHAR_IOCSEEKTO ?arg = Inr (f', ret)"
    "vf_drv f' = vf_drv (tmpfile st)" "vf_env f' = vf_env (tmpfile st)" "sint ret < 0 \<longleftrightarrow> \<not> ?found"
    "\<not> sint ret < 0 \<longrightarrow> dev_good f' \<and> dev_remaining f' = ?out"
    using fops_ioctl_ok [of ?f cs ?k ?arg ?j] arg(1,2) assms(9,10,15) by auto
  have parse: "parse_seekto (P @ nul # rest) = Inr (Some ?arg)"
    "strncmp_eq (P @ nul # rest) SEEKTO_PREFIX = Inr True" for rest
    using parse_seekto_eq [OF assms(4-6), of rest] arg(3,4) strncmp_prefix assms(3) by simp_all
  have ops: "file_ioctl e = fops_ioctl" using assms(2) by (simp add: device_env_def)
  have handled: "\<exists>st1. handle_packet True e fuel
        (st\<lparr>tmpfile := ?f, fd_open := True, conn_heap := h\<rparr>) (P @ nul # rest) (of_nat (length P)) =
        Some (Inr (st1, \<not> ?found)) \<and>
      peer_in st1 = peer_in st \<and> vf_drv (tmpfile st1) = vf_drv (tmpfile st) \<and>
      vf_env (tmpfile st1) = vf_env (tmpfile st) \<and>
      (\<not> \<not> ?found \<longrightarrow> dev_good (tmpfile st1) \<and> dev_remaining (tmpfile st1) = (if ?found then ?out else []))"
    for h rest
    using parse [of rest] f' by (simp add: handle_packet_def seek_packet_def ops)
  have "length ?out \<le> length (concat cs)" if ?found
    using locate_concat(3) [OF locate_cmd_offset, of ?k cs ?j] that
    by (metis diff_le_self length_drop)
  then have len: "length (if ?found then ?out else []) < fuel"
    using assms(14,15) by (auto simp: content_def)
  note run = device_run [OF assms(1,2,11,12,13) handled len]
  have goal: "\<exists>st' m. C st' \<and> D st' \<and>
      (if b then let x = out in T st' = t @ take m x \<and> (z st' \<longrightarrow> take m x = x) \<and> (s \<longrightarrow> z st')
       else T st' = t \<and> \<not> z st')"
    if "\<exists>st' m. C st' \<and> D st' \<and> E st' \<and> T st' = t @ (if \<not> b then [] else take m (if b then out else [])) \<and>
      (z st' \<longrightarrow> \<not> \<not> b \<and> take m (if b then out else []) = (if b then out else [])) \<and>
      (\<not> \<not> b \<and> s \<longrightarrow> z st')"
    for C D E z :: "(vfile, 'k) conn_state \<Rightarrow> bool" and T and t out :: "byte list" and b s
    using that by (cases b) (auto simp: Let_def)
  show ?thesis by (rule goal [OF run])
qed

section \<open>Witnesses\<close>

text \<open>A client of the server that sends the given packet at once, and the example driver.\<close>

definition device_env_example :: "byte list \<Rightarrow> (vfile, byte list) conn_env" where
  "device_env_example P =
     \<lparr>open_tmpfile = fops_open, file_write = fops_write, file_read = fops_read,
      file_lseek = fops_lseek, file_ioctl = fops_ioctl, file_close = 0,
      sock_recv = sockenv_example [P], sock_send = two_at_a_time,
      sock_close = 0, mutex_lock = 0, mutex_unlock = 0\<rparr>"

definition device_example :: "(vfile, byte list) conn_state" where
  "device_example =
     \<lparr>tmpfile = \<lparr>vf_env = kenv_example, vf_drv = drv_example, vf_file = file_example\<rparr>,
      peer_in = [], conn_heap = Map.empty, holds_mutex = False, fd_open = False,
      sock_open = True, connection = \<lparr>descriptor = 5, is_active = True\<rparr>\<rparr>"

lemma device_example_simps [simp]:
  "tmpfile device_example = \<lparr>vf_env = kenv_example, vf_drv = drv_example, vf_file = file_example\<rparr>"
  "peer_in device_example = []" "sock_send (device_env_example P) = two_at_a_time"
  "mutex_unlock (device_env_example P) = 0" "file_close (device_env_example P) = 0"
  "sock_close (device_env_example P) = 0"
  by (simp_all add: device_example_def device_env_example_def)

lemma device_env_example_ok: "device_env (device_env_example P)"
  by (simp add: device_env_def device_env_example_def)

lemma device_ready_example: "device_ready kenv_example"
  using kenv_example_ok by (simp add: device_ready_def fixed_size_llseek_example_def)

lemma device_packet_example:
  assumes "P = l @ [newline]" and "nul \<notin> set l" and "newline \<notin> set l" and "length l < 64"
  shows "packet_received (device_env_example P) device_example P"
proof -
  have "packet_arrives (sockenv_example [P]) [] l []"
    using assms by (simp add: packet_arrives_def)
  then show ?thesis
    using assms sockenv_example_ok sockenv_example_alloc
    by (auto simp: packet_received_def device_env_example_def device_example_def
        intro!: exI [of _ "[]"] exI [of _ l])
qed

theorem device_echo_witness:
  "\<exists>st'. conn_handler True (device_env_example [104, 105, newline]) 300 device_example =
       Some (Inr st') \<and>
     cmds (dev_abs (vf_drv (tmpfile st'))) =
       [[97, 98, newline], [99, newline], [120, 104, 105, newline]] \<and>
     peer_in st' = [97, 98, newline, 99, newline, 120, 104, 105, newline] \<and>
     descriptor (connection st') = 0"
proof -
  let ?P = "[104, 105, newline]"
  have pk: "packet_received (device_env_example ?P) device_example ?P"
    by (rule device_packet_example [of _ "[104, 105]"]) simp_all
  have alloc: "kmalloc kenv_example (heap drv_example) n \<noteq> None" for n
    by (simp add: drv_example_alloc)
  have fits: "write_fits drv_example ?P (of_nat (length ?P))"
    by (simp add: write_fits_def drv_example_abs log_bytes_def content_def)
  have log: "write_log (dev_abs drv_example) ?P =
      \<lparr>cmds = [[97, 98, newline], [99, newline], [120, 104, 105, newline]], partial_cmd = []\<rparr>"
    by (simp add: write_log_def drv_example_abs)
  show ?thesis
    using device_echo [OF pk device_env_example_ok, of id 300] two_at_a_time_ok two_at_a_time_total
      device_ready_example drv_example_wf alloc fits
    by (auto simp: log content_def SEEKTO_PREFIX_def)
qed

text \<open>The request \<open>AESDCHAR_IOCSEEKTO:0,1\<close>.\<close>

theorem device_seek_witness:
  "\<exists>st'. conn_handler True (device_env_example (SEEKTO_PREFIX @ [48, 44, 49, newline])) 300
       device_example = Some (Inr st') \<and>
     vf_drv (tmpfile st') = drv_example \<and> peer_in st' = [98, newline, 99, newline] \<and>
     descriptor (connection st') = 0"
proof -
  let ?P = "SEEKTO_PREFIX @ [48] @ 44 # [49] @ [newline]"
  have pk: "packet_received (device_env_example ?P) device_example ?P"
    by (rule device_packet_example [of _ "SEEKTO_PREFIX @ [48, 44, 49]"]) (simp_all add: SEEKTO_PREFIX_def)
  have digits: "decimal [48]" "decimal [49]" "\<not> isdigit 44" "digits_value [48] = 0" "digits_value [49] = 1"
    by (simp_all add: decimal_def isdigit_def digits_value_def)
  show ?thesis
    using device_seek [OF pk device_env_example_ok refl digits(1-3), of id 300
        "cmds (dev_abs drv_example)"] two_at_a_time_ok two_at_a_time_total
      device_ready_example drv_example_wf
    by (auto simp: digits(4,5) drv_example_abs content_def)
qed

end
