(* ===== verification/DeviceReaders.thy ===== *)
theory DeviceReaders
  imports DriverSystem DeviceFile "HOL-Library.Sublist"
begin

text \<open>
  A connection that sends the device to its client while other connections write: the loop of
  \<open>conn_handler\<close> (\<open>server/src/connection.c\<close>) takes no mutex, so between two of its calls of
  \<open>read\<close> any operation of other processes on the device can come.
\<close>

section \<open>Model\<close>

text \<open>
  \<open>f\<close> is the open file of the reader, \<open>ws\<close> are the writes of the others since the reader has
  begun, \<open>out\<close> is what it has read and passed on.
\<close>

inductive reader_run :: "nat \<Rightarrow> system \<Rightarrow> byte list list \<Rightarrow> byte list \<Rightarrow> system \<Rightarrow> bool" for f s\<^sub>0 where
  reader_start: "files s\<^sub>0 f = Some filp \<Longrightarrow> f_pos filp = 0 \<Longrightarrow> reader_run f s\<^sub>0 [] [] s\<^sub>0"
| reader_chunk: "reader_run f s\<^sub>0 ws out s \<Longrightarrow> files s f = Some filp \<Longrightarrow> kenv_ok e \<Longrightarrow>
    aesd_read e (sdrv s) filp (of_nat CONN_BUFSIZE) (f_pos filp) = Inr (d, pos, ret, bs) \<Longrightarrow> 0 < sint ret \<Longrightarrow>
    reader_run f s\<^sub>0 ws (out @ bs) \<lparr>sdrv = d, files = (files s)(f \<mapsto> filp\<lparr>f_pos := pos\<rparr>)\<rparr>"
| reader_other: "reader_run f s\<^sub>0 ws out s \<Longrightarrow> sys_step s ev s' \<Longrightarrow> files s' f = files s f \<Longrightarrow>
    reader_run f s\<^sub>0 (ws @ writes [ev]) out s'"

section \<open>The commands ever stored\<close>

text \<open>All commands the writes complete; the device holds the last ten of them.\<close>

definition all_cmds :: "cmd_log \<Rightarrow> byte list list \<Rightarrow> byte list list" where
  "all_cmds l ws = cmds l @ fst (split_cmds (partial_cmd l) ws)"

definition evicted :: "byte list list \<Rightarrow> nat" where
  "evicted cs = length (concat (take (length cs - AESDCHAR_MAX_WRITE_OPERATIONS_SUPPORTED) cs))"

lemma split_cmds_append:
  "fst (split_cmds p (ws @ vs)) = fst (split_cmds p ws) @ fst (split_cmds (snd (split_cmds p ws)) vs)"
proof (induction ws arbitrary: p)
  case (Cons w ws)
  then show ?case using Cons.IH [of "[]"] by (simp add: case_prod_unfold Let_def)
qed simp

lemma all_cmds_append: "prefix (all_cmds l ws) (all_cmds l (ws @ vs))"
  by (simp add: all_cmds_def split_cmds_append)

lemma keep_last_split: "take (length xs - n) xs @ keep_last n xs = xs"
  by (simp add: keep_last_def)

lemma concat_evicted:
  "drop (evicted cs + p) (concat cs) = drop p (concat (keep_last AESDCHAR_MAX_WRITE_OPERATIONS_SUPPORTED cs))"
proof -
  let ?n = "AESDCHAR_MAX_WRITE_OPERATIONS_SUPPORTED"
  have "concat cs = concat (take (length cs - ?n) cs) @ concat (keep_last ?n cs)"
    by (metis concat_append keep_last_split)
  then show ?thesis by (simp add: evicted_def)
qed

lemma prefix_take_mono: "a \<le> b \<Longrightarrow> prefix (take a xs) (take b (xs @ ys))"
  using take_add [of a "b - a" xs] by simp

lemma evicted_mono: "evicted cs \<le> evicted (cs @ es)"
proof -
  let ?n = "AESDCHAR_MAX_WRITE_OPERATIONS_SUPPORTED"
  have "prefix (take (length cs - ?n) cs) (take (length (cs @ es) - ?n) (cs @ es))"
    by (rule prefix_take_mono) simp
  then obtain zs where zs: "take (length (cs @ es) - ?n) (cs @ es) = take (length cs - ?n) cs @ zs"
    by (rule prefixE)
  show ?thesis unfolding evicted_def zs by simp
qed

section \<open>What the reader has got\<close>

definition reader_inv :: "cmd_log \<Rightarrow> nat \<Rightarrow> byte list list \<Rightarrow> byte list \<Rightarrow> system \<Rightarrow> bool" where
  "reader_inv l f ws out s \<longleftrightarrow>
     sys_inv s \<and> dev_abs (sdrv s) = foldl write_log l ws \<and>
     (\<exists>filp. files s f = Some filp \<and>
        (let cs = all_cmds l ws; p = unat (f_pos filp) in
          subseq out (take (evicted cs + p) (concat cs)) \<and>
          (length cs \<le> AESDCHAR_MAX_WRITE_OPERATIONS_SUPPORTED \<longrightarrow>
             p \<le> length (concat cs) \<and> out = take p (concat cs))))"

lemma reader_cmds:
  assumes "reader_inv l f ws out s" and "length (cmds l) \<le> AESDCHAR_MAX_WRITE_OPERATIONS_SUPPORTED"
  shows "cmds (dev_abs (sdrv s)) = keep_last AESDCHAR_MAX_WRITE_OPERATIONS_SUPPORTED (all_cmds l ws)"
  using assms foldl_write_log [OF assms(2), of ws] by (simp add: reader_inv_def all_cmds_def)

lemma reader_inv_other:
  assumes inv: "reader_inv l f ws out s" and step: "sys_step s ev s'" and same: "files s' f = files s f"
  shows "reader_inv l f (ws @ writes [ev]) out s'"
proof -
  obtain filp where filp: "files s f = Some filp"
    and sub: "subseq out (take (evicted (all_cmds l ws) + unat (f_pos filp)) (concat (all_cmds l ws)))"
    and pre: "length (all_cmds l ws) \<le> 10 \<Longrightarrow> unat (f_pos filp) \<le> length (concat (all_cmds l ws)) \<and>
      out = take (unat (f_pos filp)) (concat (all_cmds l ws))"
    using inv by (auto simp: reader_inv_def Let_def)
  let ?cs = "all_cmds l ws" and ?ds = "all_cmds l (ws @ writes [ev])" and ?p = "unat (f_pos filp)"
  obtain es where ds: "?ds = ?cs @ es" using all_cmds_append by (rule prefixE)
  have "prefix (take (evicted ?cs + ?p) (concat ?cs)) (take (evicted ?ds + ?p) (concat ?ds))"
    using evicted_mono [of ?cs es] unfolding ds concat_append by (intro prefix_take_mono) simp
  then have "subseq out (take (evicted ?ds + ?p) (concat ?ds))"
    using sub prefix_imp_subseq subseq_order.trans by blast
  moreover have "?p \<le> length (concat ?ds) \<and> out = take ?p (concat ?ds)" if "length ?ds \<le> 10"
    using pre that by (simp add: ds)
  moreover have "sys_inv s'" "dev_abs (sdrv s') = foldl write_log l (ws @ writes [ev])"
    using sys_step_inv [OF step] inv by (cases ev; simp add: reader_inv_def apply_event_def)+
  ultimately show ?thesis
    using filp same by (simp add: reader_inv_def Let_def)
qed

lemma read_some_chunk:
  assumes "dev_wf d" and "private_data filp" and "kenv_ok e"
    and r: "aesd_read e d filp n pos = Inr (d', pos', ret, bs)" and "0 < sint ret"
  shows "d' = d" and "unat pos \<le> length (content (dev_abs d))" and "unat pos' = unat pos + length bs"
    and "prefix bs (drop (unat pos) (content (dev_abs d)))"
proof -
  let ?c = "content (dev_abs d)" and ?bs = "chunk_at (cmds (dev_abs d)) (unat pos) (unat n)"
  have "mutex_lock_interruptible e = 0"
  proof (rule ccontr)
    assume "mutex_lock_interruptible e \<noteq> 0"
    then show False using r \<open>0 < sint ret\<close> assms(2) by (simp add: aesd_read_def)
  qed
  then have eq: "\<not> length ?c \<le> unat pos \<and> d' = d \<and> bs = ?bs \<and> pos' = pos + of_nat (length bs)"
    using aesd_read_eq [OF assms(1,2) _ assms(3), of n pos] r \<open>0 < sint ret\<close>
    by (auto simp: Let_def split: if_splits)
  then show "d' = d" "unat pos \<le> length ?c" by simp_all
  show pre: "prefix bs (drop (unat pos) ?c)"
    using eq chunk_at_prefix [of "unat pos" "cmds (dev_abs d)" "unat n"] by (auto simp: content_def)
  have "unat pos + length bs < 2 ^ 63"
    using prefix_length_le [OF pre] content_bound [OF assms(1)] eq unfolding length_drop by linarith
  then show "unat pos' = unat pos + length bs"
    using eq by (simp add: unat_add_fits unat_of_nat_fits)
qed

lemma reader_inv_chunk:
  assumes inv: "reader_inv l f ws out s" and cap: "length (cmds l) \<le> AESDCHAR_MAX_WRITE_OPERATIONS_SUPPORTED"
    and filp: "files s f = Some filp" and e: "kenv_ok e"
    and r: "aesd_read e (sdrv s) filp n (f_pos filp) = Inr (d, pos, ret, bs)" and "0 < sint ret"
  shows "reader_inv l f ws (out @ bs) \<lparr>sdrv = d, files = (files s)(f \<mapsto> filp\<lparr>f_pos := pos\<rparr>)\<rparr>"
proof -
  let ?cs = "all_cmds l ws" and ?p = "unat (f_pos filp)" and ?s = "concat (all_cmds l ws)"
  have ok: "dev_wf (sdrv s)" "\<forall>filp \<in> ran (files s). private_data filp" "sys_inv s"
    "dev_abs (sdrv s) = foldl write_log l ws"
    and sub: "subseq out (take (evicted ?cs + ?p) ?s)"
    and pre: "length ?cs \<le> 10 \<Longrightarrow> ?p \<le> length ?s \<and> out = take ?p ?s"
    using inv filp by (auto simp: reader_inv_def sys_inv_def Let_def)
  then have pd: "private_data filp" using filp by (auto simp: ran_def)
  note chunk = read_some_chunk [OF ok(1) pd e r \<open>0 < sint ret\<close>]
  have "content (dev_abs (sdrv s)) = concat (keep_last AESDCHAR_MAX_WRITE_OPERATIONS_SUPPORTED ?cs)"
    using reader_cmds [OF inv cap] by (simp add: content_def)
  then have bs: "prefix bs (drop (evicted ?cs + ?p) ?s)" using chunk(4) by (simp add: concat_evicted)
  then have step: "take (evicted ?cs + unat pos) ?s = take (evicted ?cs + ?p) ?s @ bs"
    unfolding chunk(3) by (auto simp: prefix_def take_add add.assoc [symmetric])
  have "subseq (out @ bs) (take (evicted ?cs + unat pos) ?s)"
    unfolding step using sub by (simp add: list_emb_append_mono)
  moreover have "unat pos \<le> length ?s \<and> out @ bs = take (unat pos) ?s" if "length ?cs \<le> 10"
  proof -
    have "evicted ?cs = 0" using that by (simp add: evicted_def)
    then show ?thesis
      using pre [OF that] step prefix_length_le [OF bs] unfolding length_drop chunk(3)
      by (auto simp: le_diff_conv2 add.commute)
  qed
  moreover have "\<forall>x \<in> ran ((files s)(f \<mapsto> filp\<lparr>f_pos := pos\<rparr>)). private_data x"
    using ok(2) pd by (auto simp: ran_def)
  ultimately show ?thesis
    using ok by (simp add: reader_inv_def Let_def chunk(1) sys_inv_def)
qed

lemma reader_run_inv:
  assumes "reader_run f s\<^sub>0 ws out s" and "sys_inv s\<^sub>0" and cap: "length (cmds (dev_abs (sdrv s\<^sub>0))) \<le> 10"
  shows "reader_inv (dev_abs (sdrv s\<^sub>0)) f ws out s"
  using assms(1)
proof (induction rule: reader_run.induct)
  case (reader_start filp)
  then show ?case using assms(2,3) by (simp add: reader_inv_def all_cmds_def)
next
  case (reader_chunk ws out s filp e d pos ret bs)
  then show ?case using cap by (intro reader_inv_chunk) simp_all
next
  case (reader_other ws out s ev s')
  then show ?case by (intro reader_inv_other)
qed

section \<open>Properties\<close>

text \<open>
  C8: What a client of the device sees while others write. However the operations of other
  processes come between the reads of a connection, the bytes it sends are bytes of the
  commands that were stored when it began or have been written since, in their order and none
  of them twice. While no more than ten commands are involved nothing is left out either:
  what has been sent is the beginning of the stored commands.
\<close>

theorem device_reader_order:
  assumes "reader_run f s\<^sub>0 ws out s" and "sys_inv s\<^sub>0"
    and "length (cmds (dev_abs (sdrv s\<^sub>0))) \<le> AESDCHAR_MAX_WRITE_OPERATIONS_SUPPORTED"
  shows "subseq out (concat (all_cmds (dev_abs (sdrv s\<^sub>0)) ws)) \<and>
    (length (all_cmds (dev_abs (sdrv s\<^sub>0)) ws) \<le> AESDCHAR_MAX_WRITE_OPERATIONS_SUPPORTED \<longrightarrow>
       prefix out (content (dev_abs (sdrv s))))"
proof -
  let ?l = "dev_abs (sdrv s\<^sub>0)"
  have inv: "reader_inv ?l f ws out s" using assms by (intro reader_run_inv) simp_all
  have "subseq out (concat (all_cmds ?l ws))"
    using inv subseq_order.trans [OF _ prefix_imp_subseq [OF take_is_prefix]]
    by (auto simp: reader_inv_def Let_def)
  moreover have "prefix out (content (dev_abs (sdrv s)))" if "length (all_cmds ?l ws) \<le> 10"
    using inv reader_cmds [OF inv assms(3)] that
    by (auto simp: reader_inv_def Let_def content_def take_is_prefix)
  ultimately show ?thesis by simp
qed

lemma read_nothing:
  assumes "dev_wf d" and "private_data filp" and "kenv_ok e" and "0 < unat n"
    and r: "aesd_read e d filp n pos = Inr (d', pos', 0, bs)"
  shows "length (content (dev_abs d)) \<le> unat pos"
proof (rule ccontr)
  assume more: "\<not> length (content (dev_abs d)) \<le> unat pos"
  let ?bs = "chunk_at (cmds (dev_abs d)) (unat pos) (unat n)"
  have "mutex_lock_interruptible e = 0"
  proof (rule ccontr)
    assume "mutex_lock_interruptible e \<noteq> 0"
    then show False using r assms(2) by (simp add: aesd_read_def)
  qed
  then have "(of_nat (length ?bs) :: ssize_t) = 0"
    using aesd_read_eq [OF assms(1,2) _ assms(3), of n pos] r more by (simp add: Let_def split: if_splits)
  moreover have "length ?bs < 2 ^ 63"
  proof -
    obtain rest where "drop (unat pos) (content (dev_abs d)) = ?bs @ rest"
      using chunk_at_prefix [of "unat pos" "cmds (dev_abs d)" "unat n"] by (auto simp: content_def)
    from arg_cong [OF this, of length] show ?thesis using content_bound [OF assms(1)] by simp
  qed
  ultimately have "?bs = []" by (auto simp: word_unat_eq_iff unat_of_nat_fits)
  then show False using more assms(4) by (simp add: chunk_at_empty content_def)
qed

text \<open>A packet that ends with a newline is in one piece in the stored commands.\<close>

lemma packet_stored:
  assumes "P \<noteq> []" and "last P = newline"
  shows "\<exists>ys zs. concat (all_cmds (write_log l P) ws) = ys @ P @ zs"
proof -
  let ?l = "write_log l P"
  obtain cs where "cmds ?l = cs @ [partial_cmd l @ P]"
    using keep_last_snoc_last [of 10 "cmds l" "partial_cmd l @ P"] assms by (auto simp: write_log_def)
  then have "concat (all_cmds ?l ws) = (concat cs @ partial_cmd l) @ P @
      concat (fst (split_cmds (partial_cmd ?l) ws))"
    by (simp add: all_cmds_def)
  then show ?thesis by blast
qed

text \<open>
  A write that overwrites the oldest command tears the answer of a reader. The position of
  an open file counts from the oldest stored command, and nothing adjusts it when that
  command goes: as many bytes as the dropped command had are skipped by every reader, in the
  middle of a command where its position happens to be there.
\<close>

theorem device_reader_skips:
  assumes "sys_inv s" and "sys_step s (Wrote P) s'" and "files s f = Some filp" and "files s' f = Some filp"
    and "length (cmds (dev_abs (sdrv s))) = AESDCHAR_MAX_WRITE_OPERATIONS_SUPPORTED"
    and "partial_cmd (dev_abs (sdrv s)) = []" and "P \<noteq> []" and "last P = newline"
  shows "drop (unat (f_pos filp)) (content (dev_abs (sdrv s'))) =
    drop (length (hd (cmds (dev_abs (sdrv s)))) + unat (f_pos filp)) (content (dev_abs (sdrv s)) @ P)"
proof -
  let ?cs = "cmds (dev_abs (sdrv s))"
  have "dev_abs (sdrv s') = write_log (dev_abs (sdrv s)) P"
    using sys_step_inv [OF assms(2,1)] by (simp add: apply_event_def)
  then have "cmds (dev_abs (sdrv s')) = tl ?cs @ [P]"
    using assms(5-8) by (simp add: write_log_def keep_last_snoc)
  moreover have "?cs = hd ?cs # tl ?cs" using assms(5) by (cases ?cs) simp_all
  then have "concat ?cs = hd ?cs @ concat (tl ?cs)" by (metis concat.simps(2))
  ultimately show ?thesis by (simp add: content_def)
qed

section \<open>Witnesses\<close>

text \<open>A full device with the commands \<open>0\<close> to \<open>9\<close>; file 7 is read, file 8 is written to.\<close>

definition drv_full :: drv where
  "drv_full =
     \<lparr>heap = (\<lambda>a. if a < 10 then Some [48 + of_nat a, newline, nul] else None),
      aesd_device =
        \<lparr>buffer = Some \<lparr>entry = map (\<lambda>a. \<lparr>buffptr = Some a, esize = 2\<rparr>) [0, 1, 2, 3, 4, 5, 6, 7, 8, 9],
            in_offs = 0, out_offs = 0, full = True\<rparr>,
         wip_entry = null_entry, lock = False\<rparr>\<rparr>"

lemma drv_full_abs:
  "dev_abs drv_full = \<lparr>cmds = map (\<lambda>a. [a, newline]) [48, 49, 50, 51, 52, 53, 54, 55, 56, 57], partial_cmd = []\<rparr>"
  by (simp add: dev_abs_def buf_abs_def drv_full_def cb_list_def entry_bytes_def null_entry_def)

lemma drv_full_wf: "dev_wf drv_full"
  by (auto simp: dev_wf_def buf_wf_def drv_full_def cb_list_def cb_wf_def cb_sizes_def
      entry_bytes_def wip_ok_def cmd_ok_def entry_ok_def null_entry_def)

definition two_files :: system where
  "two_files = \<lparr>sdrv = drv_full, files = [7 \<mapsto> \<lparr>f_pos = 0, private_data = True\<rparr>, 8 \<mapsto> file_example]\<rparr>"

lemma two_files_ok: "sys_inv two_files" "cmds (dev_abs (sdrv two_files)) = cmds (dev_abs drv_full)"
  "files two_files 7 = Some \<lparr>f_pos = 0, private_data = True\<rparr>" "files two_files 8 = Some file_example"
  by (auto simp: two_files_def sys_inv_def drv_full_wf ran_def file_example_def split: if_splits)

lemma two_files_reads:
  "aesd_read kenv_example drv_full \<lparr>f_pos = 0, private_data = True\<rparr> (of_nat CONN_BUFSIZE) 0 =
     Inr (drv_full, 2, 2, [48, newline])"
proof -
  have "chunk_at (cmds (dev_abs drv_full)) (unat (0 :: loff_t)) (unat (of_nat CONN_BUFSIZE :: size_t)) =
      [48, newline]"
    by (simp add: drv_full_abs chunk_at_def CONN_BUFSIZE_def)
  then show ?thesis
    using aesd_read_eq [OF drv_full_wf _ _ kenv_example_ok, of "\<lparr>f_pos = 0, private_data = True\<rparr>"]
    by (simp add: Let_def) (simp add: drv_full_abs content_def)
qed

lemma two_files_write:
  assumes "files s 8 = Some file_example" and "sdrv s = drv_full"
  obtains d pos where "sys_step s (Wrote [120, newline])
      \<lparr>sdrv = d, files = (files s)(8 \<mapsto> file_example\<lparr>f_pos := pos\<rparr>)\<rparr>"
    and "dev_wf d" and "dev_abs d = write_log (dev_abs drv_full) [120, newline]"
proof -
  have fits: "write_fits drv_full [120, newline] 2"
    by (simp add: write_fits_def drv_full_abs log_bytes_def content_def)
  have "kmalloc kenv_example (heap drv_full) n = Some (10, replicate (unat n) 0xAA)" for n
    by (rule kenv_example_alloc) (simp_all add: drv_full_def)
  then obtain d pos where d: "aesd_write kenv_example drv_full file_example [120, newline] 2 1 = Inr (d, pos, 2)"
      "dev_wf d" "dev_abs d = write_log (dev_abs drv_full) [120, newline]"
    using aesd_write_eq [OF drv_full_wf _ _ kenv_example_ok fits, of file_example _ _ 1]
    by (auto simp: file_example_def)
  have "sys_step s (write_event [120, newline] 2)
      \<lparr>sdrv = d, files = (files s)(8 \<mapsto> file_example\<lparr>f_pos := pos\<rparr>)\<rparr>"
    by (rule step_write [OF assms(1) kenv_example_ok, where count = 2])
      (use d fits in \<open>simp_all add: assms(2) file_example_def\<close>)
  then show thesis using d that write_event_cases(1) [OF fits] by auto
qed

lemma full_then_write:
  "cmds (write_log (dev_abs drv_full) [120, newline]) =
     map (\<lambda>a. [a, newline]) [49, 50, 51, 52, 53, 54, 55, 56, 57, 120]"
  by (simp add: write_log_def drv_full_abs keep_last_def)

text \<open>The client is sent the command \<open>0\<close>, then \<open>2\<close>: the write has made it miss \<open>1\<close>.\<close>

theorem device_reader_order_witness:
  "\<exists>s. reader_run 7 two_files [[120, newline]] [48, newline, 50, newline] s \<and>
     subseq [48, newline, 50, newline] (concat (all_cmds (dev_abs drv_full) [[120, newline]]))"
proof -
  let ?pos = "\<lambda>p. \<lparr>f_pos = p, private_data = True\<rparr>"
  let ?s1 = "\<lparr>sdrv = drv_full, files = (files two_files)(7 \<mapsto> ?pos 2)\<rparr>"
  have drv: "sdrv two_files = drv_full" by (simp add: two_files_def)
  have "reader_run 7 two_files [] [] two_files"
    by (rule reader_start [OF two_files_ok(3)]) simp
  from reader_chunk [OF this two_files_ok(3) kenv_example_ok, of drv_full 2 2 "[48, newline]"]
  have run1: "reader_run 7 two_files [] [48, newline] ?s1"
    using two_files_reads by (simp add: drv)
  obtain d pos where w: "sys_step ?s1 (Wrote [120, newline])
      \<lparr>sdrv = d, files = (files ?s1)(8 \<mapsto> file_example\<lparr>f_pos := pos\<rparr>)\<rparr>" (is "sys_step _ _ ?s2")
    and d: "dev_wf d" "dev_abs d = write_log (dev_abs drv_full) [120, newline]"
    by (rule two_files_write [of ?s1]) (simp_all add: two_files_ok)
  have run2: "reader_run 7 two_files [[120, newline]] [48, newline] ?s2"
    using reader_other [OF run1 w] by simp
  have "chunk_at (cmds (dev_abs d)) (unat (2 :: loff_t)) (unat (of_nat CONN_BUFSIZE :: size_t)) =
      [50, newline]"
    by (simp add: d(2) full_then_write chunk_at_def CONN_BUFSIZE_def)
  then have "aesd_read kenv_example d (?pos 2) (of_nat CONN_BUFSIZE) 2 = Inr (d, 4, 2, [50, newline])"
    using aesd_read_eq [OF d(1) _ _ kenv_example_ok, of "?pos 2"]
    by (simp add: Let_def) (simp add: d(2) full_then_write content_def)
  with reader_chunk [OF run2 _ kenv_example_ok, of "?pos 2" d 4 2 "[50, newline]"]
  obtain s where run: "reader_run 7 two_files [[120, newline]] [48, newline, 50, newline] s" by auto
  show ?thesis
    using device_reader_order [OF run two_files_ok(1)] run by (auto simp: drv drv_full_abs)
qed

theorem device_reader_skips_witness:
  "\<exists>s'. sys_step (two_files\<lparr>files := (files two_files)(7 \<mapsto> \<lparr>f_pos = 2, private_data = True\<rparr>)\<rparr>)
       (Wrote [120, newline]) s' \<and>
     drop 2 (content (dev_abs drv_full)) = 49 # newline # drop 4 (content (dev_abs drv_full)) \<and>
     drop 2 (content (dev_abs (sdrv s'))) =
       drop 4 (content (dev_abs drv_full) @ [120, newline])"
proof -
  let ?filp = "\<lparr>f_pos = 2, private_data = True\<rparr>"
  let ?s = "two_files\<lparr>files := (files two_files)(7 \<mapsto> ?filp)\<rparr>"
  have drv: "sdrv ?s = drv_full" by (simp add: two_files_def)
  obtain d pos where w: "sys_step ?s (Wrote [120, newline])
      \<lparr>sdrv = d, files = (files ?s)(8 \<mapsto> file_example\<lparr>f_pos := pos\<rparr>)\<rparr>" (is "sys_step _ _ ?s2")
    by (rule two_files_write [of ?s]) (simp_all add: two_files_ok drv)
  have "sys_inv ?s" using two_files_ok(1) by (auto simp: sys_inv_def ran_def)
  from device_reader_skips [OF this w, of 7 ?filp] have
    "drop (unat (f_pos ?filp)) (content (dev_abs (sdrv ?s2))) =
      drop (length (hd (cmds (dev_abs (sdrv ?s)))) + unat (f_pos ?filp)) (content (dev_abs (sdrv ?s)) @ [120, newline])"
    by (simp add: drv drv_full_abs)
  then show ?thesis
    using w by (intro exI [of _ ?s2]) (simp add: drv drv_full_abs content_def)
qed

end
