(* ===== verification/ServerSession.thy ===== *)
theory ServerSession
  imports ConnectionRun
begin

text \<open>
  A session of the server that keeps its data in a regular file: clients that come one after
  the other, each handled by \<open>conn_handler\<close> (\<open>server/src/connection.c\<close>) in the state of the
  process the one before has left.
\<close>

section \<open>Clients one after the other\<close>

text \<open>The state in which the thread of a new connection begins: the descriptor \<open>d\<close> with \<open>k\<close> behind it.\<close>

definition next_client :: "('f, 'k) conn_state \<Rightarrow> 'k \<Rightarrow> s32 \<Rightarrow> ('f, 'k) conn_state" where
  "next_client st k d =
     st\<lparr>peer_in := k, sock_open := True, connection := \<lparr>descriptor = d, is_active = True\<rparr>\<rparr>"

text \<open>For each client what its calls return, its socket; the result has the socket and the exit value.\<close>

fun serve_clients ::
  "bool \<Rightarrow> nat \<Rightarrow> ('f, 'k) conn_state \<Rightarrow> (('f, 'k) conn_env \<times> 'k \<times> s32) list \<Rightarrow>
   (('f, 'k) conn_state \<times> ('k \<times> s32) list) res option" where
  "serve_clients dev fuel st [] = Some (Inr (st, []))"
| "serve_clients dev fuel st ((e, k, d) # cs) =
     bindL (conn_handler dev e fuel (next_client st k d)) (\<lambda>st1.
     bindL (serve_clients dev fuel st1 cs) (\<lambda>(st2, rs).
     Some (Inr (st2, (peer_in st1, descriptor (connection st1)) # rs))))"

lemma next_client_simps [simp]:
  "tmpfile (next_client st k d) = tmpfile st" "conn_heap (next_client st k d) = conn_heap st"
  "peer_in (next_client st k d) = k" "fd_open (next_client st k d) = fd_open st"
  by (simp_all add: next_client_def)

text \<open>A client whose packet \<open>P\<close> arrives and for whom no call fails.\<close>

definition good_client ::
  "('f \<Rightarrow> byte list) \<Rightarrow> ('f \<Rightarrow> byte list) \<Rightarrow> ('k \<Rightarrow> byte list) \<Rightarrow> ('f, 'k) conn_state \<Rightarrow>
   ('f, 'k) conn_env \<Rightarrow> byte list \<Rightarrow> bool" where
  "good_client data remaining taken st e P \<longleftrightarrow>
     packet_received e st P \<and> append_file_ok e data remaining \<and> conn_env_total e \<and>
     sink_ok taken (sock_send e) \<and> sink_progress (sock_send e) \<and> (\<forall>f. open_tmpfile e f \<noteq> None)"

lemma good_client_heap:
  "conn_heap st' = conn_heap st \<Longrightarrow>
   good_client data remaining taken st' e P = good_client data remaining taken st e P"
  by (simp add: good_client_def packet_received_def)

lemma serve_one:
  assumes good: "good_client data remaining taken st e P" and "\<not> fd_open st"
    and fuel: "256 < fuel" "length (data (tmpfile st)) + length P < fuel"
  obtains st' where "conn_handler False e fuel (next_client st k d) = Some (Inr st')"
    and "data (tmpfile st') = data (tmpfile st) @ P" and "taken (peer_in st') = taken k @ data (tmpfile st) @ P"
    and "descriptor (connection st') = 0" and "conn_heap st' = conn_heap st" and "\<not> fd_open st'"
proof -
  let ?st = "next_client st k d"
  have g: "packet_received e ?st P" "append_file_ok e data remaining" "sink_ok taken (sock_send e)"
    "sink_progress (sock_send e)" "open_tmpfile e (tmpfile ?st) \<noteq> None" "conn_env_total e"
    using good good_client_heap [of ?st st data remaining taken e P] by (simp_all add: good_client_def)
  obtain st' m where st': "conn_handler False e fuel ?st = Some (Inr st')"
      "data (tmpfile st') = data (tmpfile ?st) @ take m P" "descriptor (connection st') = 0"
      "take m P = P" "taken (peer_in st') = taken (peer_in ?st) @ data (tmpfile st')"
    using conn_handler_echo [OF g(1-5) fuel(1)] fuel(2) g(6) by auto
  have "sockenv_ok (sock_recv e)" using g(1) by (simp add: packet_received_def)
  from conn_handler_resources_run [OF this st'(1)] assms(2)
  have "conn_heap st' = conn_heap st" "\<not> fd_open st'" by simp_all
  with st' show thesis by (intro that [of st']) simp_all
qed

lemma serve_clients_run:
  assumes "list_all2 (\<lambda>c. good_client data remaining taken st (fst c)) cs Ps" and "\<not> fd_open st"
    and "256 < fuel" and "length (data (tmpfile st)) + length (concat Ps) < fuel"
  shows "\<exists>st' rs. serve_clients False fuel st cs = Some (Inr (st', rs)) \<and>
    data (tmpfile st') = data (tmpfile st) @ concat Ps \<and> length rs = length cs \<and>
    (\<forall>i < length cs. taken (fst (rs ! i)) =
       taken (fst (snd (cs ! i))) @ data (tmpfile st) @ concat (take (Suc i) Ps) \<and> snd (rs ! i) = 0)"
  using assms
proof (induction cs arbitrary: st Ps)
  case (Cons c cs)
  obtain e k d where c: "c = (e, k, d)" by (cases c)
  obtain P Qs where Ps: "Ps = P # Qs" and good: "good_client data remaining taken st e P"
    and goods: "list_all2 (\<lambda>c. good_client data remaining taken st (fst c)) cs Qs"
    using Cons.prems(1) by (auto simp: c list_all2_Cons1)
  obtain st1 where st1: "conn_handler False e fuel (next_client st k d) = Some (Inr st1)"
    "data (tmpfile st1) = data (tmpfile st) @ P" "taken (peer_in st1) = taken k @ data (tmpfile st) @ P"
    "descriptor (connection st1) = 0" "conn_heap st1 = conn_heap st" "\<not> fd_open st1"
    using serve_one [OF good Cons.prems(2,3), of k d] Cons.prems(4) by (auto simp: Ps)
  have "list_all2 (\<lambda>c. good_client data remaining taken st1 (fst c)) cs Qs"
    using goods by (simp add: list_all2_conv_all_nth good_client_heap [OF st1(5)])
  then obtain st' rs where rest: "serve_clients False fuel st1 cs = Some (Inr (st', rs))"
    "data (tmpfile st') = data (tmpfile st1) @ concat Qs" "length rs = length cs"
    "\<forall>i < length cs. taken (fst (rs ! i)) =
       taken (fst (snd (cs ! i))) @ data (tmpfile st1) @ concat (take (Suc i) Qs) \<and> snd (rs ! i) = 0"
    using Cons.IH [of st1 Qs] Cons.prems(3,4) st1(2,6) by (auto simp: Ps)
  have "taken (fst (((peer_in st1, 0) # rs) ! i)) =
      taken (fst (snd ((c # cs) ! i))) @ data (tmpfile st) @ concat (take (Suc i) Ps) \<and>
      snd (((peer_in st1, 0) # rs) ! i) = 0" if "i < length (c # cs)" for i
    using that rest(4) st1(2,3) by (cases i) (simp_all add: c Ps)
  then show ?case
    using st1 rest by (simp add: c Ps)
qed simp

section \<open>Properties\<close>

text \<open>
  C9: A session without failures. When the packet of every client arrives and no call fails, all
  clients are served: the file has grown by the packets in the order in which the clients
  came, and each client has been sent the file as it was with its own packet at the end.
\<close>

theorem server_session:
  assumes "list_all2 (\<lambda>c. good_client data remaining taken st (fst c)) cs Ps"
    and "\<not> fd_open st" and "256 < fuel" and "length (data (tmpfile st)) + length (concat Ps) < fuel"
  shows "\<exists>st' rs. serve_clients False fuel st cs = Some (Inr (st', rs)) \<and>
    data (tmpfile st') = data (tmpfile st) @ concat Ps \<and> length rs = length cs \<and>
    (\<forall>i < length cs. taken (fst (rs ! i)) =
       taken (fst (snd (cs ! i))) @ data (tmpfile st) @ concat (take (Suc i) Ps) \<and> snd (rs ! i) = 0)"
  by (rule serve_clients_run [OF assms])

section \<open>Witness\<close>

definition client_env :: "byte list \<Rightarrow> (byte list \<times> nat, byte list) conn_env" where
  "client_env P = env_example\<lparr>sock_recv := sockenv_example [P]\<rparr>"

lemma good_client_example:
  assumes "P = l @ [newline]" and "nul \<notin> set l" and "newline \<notin> set l" and "length l < 64"
  shows "good_client fst (\<lambda>(c, p). drop p c) id conn_example (client_env P) P"
proof -
  have "packet_arrives (sockenv_example [P]) [] l []" using assms by (simp add: packet_arrives_def)
  then have "packet_received (client_env P) conn_example P"
    using assms sockenv_example_ok sockenv_example_alloc
    by (auto simp: packet_received_def client_env_def conn_example_def
        intro!: exI [of _ "[]"] exI [of _ l])
  moreover have "append_file_ok (client_env P) fst (\<lambda>(c, p). drop p c)"
    using env_example_file by (simp add: append_file_ok_def client_env_def)
  moreover have "conn_env_total (client_env P)"
    using two_at_a_time_total
    by (auto simp: conn_env_total_def client_env_def env_example_def sink_total_def bindR_eq_Inr)
  ultimately show ?thesis
    using two_at_a_time_ok by (auto simp: good_client_def client_env_def env_example_def)
qed

theorem server_session_witness:
  "\<exists>st' a b. serve_clients False 300 conn_example
       [(client_env [104, newline], [], 5), (client_env [105, newline], [], 6)] =
       Some (Inr (st', [a, b])) \<and>
     fst (tmpfile st') = [111, 107, newline, 104, newline, 105, newline] \<and>
     a = ([111, 107, newline, 104, newline], 0) \<and>
     b = ([111, 107, newline, 104, newline, 105, newline], 0)"
proof -
  let ?cs = "[(client_env [104, newline], [], 5), (client_env [105, newline], [], 6)] ::
    ((byte list \<times> nat, byte list) conn_env \<times> byte list \<times> s32) list"
  let ?Ps = "[[104, newline], [105, newline]]"
  have good: "list_all2 (\<lambda>c. good_client fst (\<lambda>(c, p). drop p c) id conn_example (fst c)) ?cs ?Ps"
    using good_client_example [of "[104, newline]" "[104]"] good_client_example [of "[105, newline]" "[105]"]
    by simp
  have "\<exists>st' rs. serve_clients False 300 conn_example ?cs = Some (Inr (st', rs)) \<and>
    fst (tmpfile st') = fst (tmpfile conn_example) @ concat ?Ps \<and> length rs = length ?cs \<and>
    (\<forall>i < length ?cs. id (fst (rs ! i)) = id (fst (snd (?cs ! i))) @ fst (tmpfile conn_example) @
      concat (take (Suc i) ?Ps) \<and> snd (rs ! i) = 0)"
    by (rule server_session [OF good]) (simp_all add: conn_example_def)
  then obtain st' rs where rs: "serve_clients False 300 conn_example ?cs = Some (Inr (st', rs))"
    "fst (tmpfile st') = fst (tmpfile conn_example) @ concat ?Ps" "length rs = length ?cs"
    "\<forall>i < length ?cs. id (fst (rs ! i)) = id (fst (snd (?cs ! i))) @ fst (tmpfile conn_example) @
      concat (take (Suc i) ?Ps) \<and> snd (rs ! i) = 0"
    by blast
  obtain a b where ab: "rs = [a, b]" using rs(3) by (auto simp: length_Suc_conv)
  have "fst a = [111, 107, newline, 104, newline] \<and> snd a = 0"
    using rs(4) [rule_format, of 0] by (simp add: ab conn_example_def)
  moreover have "fst b = [111, 107, newline, 104, newline, 105, newline] \<and> snd b = 0"
    using rs(4) [rule_format, of 1] by (simp add: ab conn_example_def)
  ultimately have "a = ([111, 107, newline, 104, newline], 0)"
      "b = ([111, 107, newline, 104, newline, 105, newline], 0)"
    by (simp_all add: prod_eq_iff)
  moreover have "fst (tmpfile st') = [111, 107, newline, 104, newline, 105, newline]"
    using rs(2) by (simp add: conn_example_def)
  ultimately show ?thesis using rs(1) unfolding ab by blast
qed

end
