(* ===== verification/DeviceSession.thy ===== *)
theory DeviceSession
  imports DeviceReaders ServerSession
begin

text \<open>
  A session of the server on top of the driver: clients that come one after the other, as in
  theory ServerSession, for the build whose file is \<open>/dev/aesdchar\<close>.
\<close>

section \<open>Memory for the driver\<close>

text \<open>
  \<open>kmalloc\<close> finds a block while at most eleven are in use, and no more ever are: ten stored
  commands and the unfinished one.
\<close>

definition alloc_eleven :: "kenv \<Rightarrow> bool" where
  "alloc_eleven e \<longleftrightarrow> (\<forall>h n. finite (dom h) \<and> card (dom h) \<le> 11 \<longrightarrow> kmalloc e h n \<noteq> None)"

lemma length_ptrs: "length (ptrs ens) \<le> length ens"
  by (induction ens) (auto split: option.splits)

lemma leak_free_blocks:
  assumes "dev_wf s" and "leak_free s"
  shows "finite (dom (heap s)) \<and> card (dom (heap s)) \<le> 11"
proof -
  obtain b where b: "buffer (aesd_device s) = Some b" and wf: "buf_wf (heap s) b (wip_entry (aesd_device s))"
    using assms(1) by (rule dev_wfE)
  have dom: "dom (heap s) = set (ptrs (cb_list b @ [wip_entry (aesd_device s)]))"
    using assms(2) b by (simp add: leak_free_def)
  have "length (cb_list b) \<le> 10"
    using wf cb.log_cap [of b] by (simp add: buf_wf_def)
  then have "length (ptrs (cb_list b @ [wip_entry (aesd_device s)])) \<le> 11"
    using length_ptrs [of "cb_list b @ [wip_entry (aesd_device s)]"] by simp
  then show ?thesis
    unfolding dom by (intro conjI finite_set order_trans [OF card_length])
qed

lemma cmds_at_most_ten: "dev_wf s \<Longrightarrow> length (cmds (dev_abs s)) \<le> 10"
  using cb.log_cap by (auto simp: buf_wf_def buf_abs_def elim!: dev_wfE)

lemma keep_last_bytes: "length (concat (keep_last n xs)) \<le> length (concat xs)"
  unfolding keep_last_def by (metis append_take_drop_id concat_append le_add2 length_append)

section \<open>One client after the other\<close>

text \<open>A client whose packet \<open>P\<close> is no seek request and for whom no call fails.\<close>

definition device_client ::
  "('k \<Rightarrow> byte list) \<Rightarrow> (vfile, 'k) conn_state \<Rightarrow> (vfile, 'k) conn_env \<Rightarrow> byte list \<Rightarrow> bool" where
  "device_client taken st e P \<longleftrightarrow>
     packet_received e st P \<and> device_env e \<and> take 19 P \<noteq> SEEKTO_PREFIX \<and>
     sink_ok taken (sock_send e) \<and> sink_progress (sock_send e) \<and> sink_total (sock_send e) \<and>
     mutex_unlock e = 0 \<and> file_close e = 0 \<and> sock_close e = 0"

lemma device_client_heap:
  "conn_heap st' = conn_heap st \<Longrightarrow> device_client taken st' e P = device_client taken st e P"
  by (simp add: device_client_def packet_received_def)

text \<open>The driver between two clients: well-formed, nothing lost, with the complete commands \<open>cs\<close>.\<close>

definition device_idle :: "(vfile, 'k) conn_state \<Rightarrow> byte list list \<Rightarrow> bool" where
  "device_idle st cs \<longleftrightarrow>
     \<not> fd_open st \<and> device_ready (vf_env (tmpfile st)) \<and> alloc_eleven (vf_env (tmpfile st)) \<and>
     dev_wf (vf_drv (tmpfile st)) \<and> leak_free (vf_drv (tmpfile st)) \<and>
     dev_abs (vf_drv (tmpfile st)) = \<lparr>cmds = cs, partial_cmd = []\<rparr>"

lemma device_idle_next [simp]: "device_idle (next_client st k d) cs = device_idle st cs"
  by (simp add: device_idle_def)

lemma serve_device_client:
  assumes client: "device_client taken st e P" and idle: "device_idle st cs"
    and fuel: "256 < fuel" "length (concat cs) + length P < fuel" "length (concat cs) + length P < 2 ^ 63"
  obtains st' where "conn_handler True e fuel (next_client st k d) = Some (Inr st')"
    and "device_idle st' (keep_last AESDCHAR_MAX_WRITE_OPERATIONS_SUPPORTED (cs @ [P]))"
    and "taken (peer_in st') = taken k @ concat (keep_last AESDCHAR_MAX_WRITE_OPERATIONS_SUPPORTED (cs @ [P]))"
    and "descriptor (connection st') = 0" and "conn_heap st' = conn_heap st"
proof -
  let ?st = "next_client st k d" and ?cs = "keep_last AESDCHAR_MAX_WRITE_OPERATIONS_SUPPORTED (cs @ [P])"
  have c: "packet_received e ?st P" "device_env e" "take 19 P \<noteq> SEEKTO_PREFIX"
    "sink_ok taken (sock_send e)" "sink_progress (sock_send e)" "sink_total (sock_send e)"
    "mutex_unlock e = 0" "file_close e = 0" "sock_close e = 0"
    using client device_client_heap [of ?st st taken e P] by (simp_all add: device_client_def)
  have s: "\<not> fd_open ?st" "device_ready (vf_env (tmpfile ?st))" "dev_wf (vf_drv (tmpfile ?st))"
    "leak_free (vf_drv (tmpfile ?st))" "dev_abs (vf_drv (tmpfile ?st)) = \<lparr>cmds = cs, partial_cmd = []\<rparr>"
    "alloc_eleven (vf_env (tmpfile ?st))"
    using idle by (simp_all add: device_idle_def)
  have P: "P \<noteq> []" "last P = newline" using c(1) by (auto simp: packet_received_def)
  have log: "write_log (dev_abs (vf_drv (tmpfile ?st))) P = \<lparr>cmds = ?cs, partial_cmd = []\<rparr>"
    using P by (simp only: s(5)) (simp add: write_log_def)
  have alloc: "kmalloc (vf_env (tmpfile ?st)) (heap (vf_drv (tmpfile ?st))) n \<noteq> None" for n
    using s(6) leak_free_blocks [OF s(3,4)] unfolding alloc_eleven_def by blast
  have fits: "write_fits (vf_drv (tmpfile ?st)) P (of_nat (length P))"
    using fuel(3) unfolding write_fits_def log_bytes_def s(5)
    by (simp add: content_def unat_of_nat_fits)
  have len: "length (content (write_log (dev_abs (vf_drv (tmpfile ?st))) P)) < fuel"
    using keep_last_bytes [of 10 "cs @ [P]"] fuel(2) unfolding log by (simp add: content_def)
  have "\<exists>st'. conn_handler True e fuel ?st = Some (Inr st') \<and> dev_wf (vf_drv (tmpfile st')) \<and>
      vf_env (tmpfile st') = vf_env (tmpfile ?st) \<and> leak_free (vf_drv (tmpfile st')) \<and>
      dev_abs (vf_drv (tmpfile st')) = \<lparr>cmds = ?cs, partial_cmd = []\<rparr> \<and>
      descriptor (connection st') = 0 \<and> taken (peer_in st') = taken (peer_in ?st) @ concat ?cs"
    using device_echo_run [OF c(1-3) s(2,3) fits alloc c(4,5) fuel(1) len] c(6-9) s(4)
    unfolding log by (auto simp: content_def)
  then obtain st' where st': "conn_handler True e fuel ?st = Some (Inr st')" "dev_wf (vf_drv (tmpfile st'))"
    "vf_env (tmpfile st') = vf_env (tmpfile ?st)" "leak_free (vf_drv (tmpfile st'))"
    "dev_abs (vf_drv (tmpfile st')) = \<lparr>cmds = ?cs, partial_cmd = []\<rparr>"
    "descriptor (connection st') = 0" "taken (peer_in st') = taken (peer_in ?st) @ concat ?cs"
    by blast
  have "sockenv_ok (sock_recv e)" using c(1) by (simp add: packet_received_def)
  from conn_handler_resources_run [OF this st'(1) s(1)]
  have "conn_heap st' = conn_heap st" "\<not> fd_open st'" by simp_all
  then show thesis
    using st' s(2,6) by (intro that [of st']) (simp_all add: device_idle_def)
qed

lemma device_session_run:
  assumes "list_all2 (\<lambda>c. device_client taken st (fst c)) clients Ps" and "device_idle st cs"
    and "256 < fuel" and "length (concat (cs @ Ps)) < fuel" and "length (concat (cs @ Ps)) < 2 ^ 63"
  shows "\<exists>st' rs. serve_clients True fuel st clients = Some (Inr (st', rs)) \<and>
    length rs = length clients \<and>
    device_idle st' (keep_last AESDCHAR_MAX_WRITE_OPERATIONS_SUPPORTED (cs @ Ps)) \<and>
    (\<forall>i < length clients. taken (fst (rs ! i)) = taken (fst (snd (clients ! i))) @
       concat (keep_last AESDCHAR_MAX_WRITE_OPERATIONS_SUPPORTED (cs @ take (Suc i) Ps)) \<and> snd (rs ! i) = 0)"
  using assms
proof (induction clients arbitrary: st Ps cs)
  case Nil
  have "length cs \<le> 10" using Nil.prems(2) cmds_at_most_ten by (fastforce simp: device_idle_def)
  then show ?case using Nil.prems by simp
next
  case (Cons c clients)
  let ?n = "AESDCHAR_MAX_WRITE_OPERATIONS_SUPPORTED"
  obtain e k d where c: "c = (e, k, d)" by (cases c)
  obtain P Qs where Ps: "Ps = P # Qs" and client: "device_client taken st e P"
    and others: "list_all2 (\<lambda>c. device_client taken st (fst c)) clients Qs"
    using Cons.prems(1) by (auto simp: c list_all2_Cons1)
  let ?cs = "keep_last ?n (cs @ [P])"
  have len: "length (concat cs) + length P < fuel" "length (concat cs) + length P < 2 ^ 63"
    using Cons.prems(4,5) by (simp_all add: Ps)
  obtain st1 where st1: "conn_handler True e fuel (next_client st k d) = Some (Inr st1)"
    "device_idle st1 ?cs" "taken (peer_in st1) = taken k @ concat ?cs"
    "descriptor (connection st1) = 0" "conn_heap st1 = conn_heap st"
    using serve_device_client [OF client Cons.prems(2,3) len] by blast
  have others1: "list_all2 (\<lambda>c. device_client taken st1 (fst c)) clients Qs"
    using others by (simp add: list_all2_conv_all_nth device_client_heap [OF st1(5)])
  have "length (concat (?cs @ Qs)) < fuel" "length (concat (?cs @ Qs)) < 2 ^ 63"
    using keep_last_bytes [of ?n "cs @ [P]"] Cons.prems(4,5) by (simp_all add: Ps)
  from Cons.IH [OF others1 st1(2) Cons.prems(3) this]
  obtain st' rs where rest: "serve_clients True fuel st1 clients = Some (Inr (st', rs))"
    "length rs = length clients" "device_idle st' (keep_last ?n (?cs @ Qs))"
    "\<forall>i < length clients. taken (fst (rs ! i)) = taken (fst (snd (clients ! i))) @
       concat (keep_last ?n (?cs @ take (Suc i) Qs)) \<and> snd (rs ! i) = 0"
    by blast
  have keep: "keep_last ?n (?cs @ xs) = keep_last ?n (cs @ P # xs)" for xs
    using keep_last_append [of ?n "cs @ [P]" xs] by simp
  have "taken (fst (((peer_in st1, 0) # rs) ! i)) = taken (fst (snd ((c # clients) ! i))) @
      concat (keep_last ?n (cs @ take (Suc i) Ps)) \<and> snd (((peer_in st1, 0) # rs) ! i) = 0"
    if "i < length (c # clients)" for i
    using that rest(4) st1(3) by (cases i) (simp_all add: c Ps keep)
  then show ?case
    using st1 rest by (simp add: c Ps keep)
qed

section \<open>Properties\<close>

text \<open>
  C3: A session of the server on the driver. When no call fails and the driver has no unfinished
  command at the start, every client is sent the last ten of all commands up to and including
  its own packet, whatever the number of clients; in the end the driver holds the last ten,
  no memory is lost and no allocation has failed.
\<close>

theorem device_session:
  assumes "list_all2 (\<lambda>c. device_client taken st (fst c)) clients Ps" and "device_idle st cs"
    and "256 < fuel" and "length (concat (cs @ Ps)) < fuel" and "length (concat (cs @ Ps)) < 2 ^ 63"
  shows "\<exists>st' rs. serve_clients True fuel st clients = Some (Inr (st', rs)) \<and>
    length rs = length clients \<and>
    device_idle st' (keep_last AESDCHAR_MAX_WRITE_OPERATIONS_SUPPORTED (cs @ Ps)) \<and>
    (\<forall>i < length clients. taken (fst (rs ! i)) = taken (fst (snd (clients ! i))) @
       concat (keep_last AESDCHAR_MAX_WRITE_OPERATIONS_SUPPORTED (cs @ take (Suc i) Ps)) \<and> snd (rs ! i) = 0)"
  by (rule device_session_run [OF assms])

section \<open>Witness\<close>

text \<open>Two clients of a device that holds the commands \<open>0\<close> to \<open>9\<close>.\<close>

definition idle_example :: "(vfile, byte list) conn_state" where
  "idle_example = device_example\<lparr>tmpfile := \<lparr>vf_env = kenv_example, vf_drv = drv_full, vf_file = file_example\<rparr>\<rparr>"

lemma alloc_eleven_example: "alloc_eleven kenv_example"
  unfolding alloc_eleven_def
proof (intro allI impI)
  fix h :: heap and n
  assume h: "finite (dom h) \<and> card (dom h) \<le> 11"
  have "\<not> {..<64} \<subseteq> dom h"
  proof
    assume "{..<64} \<subseteq> dom h"
    then have "card {..<64 :: nat} \<le> card (dom h)" using h by (intro card_mono) simp_all
    then show False using h by simp
  qed
  then obtain a where "h a = None" "a < 64" by auto
  then have "find (\<lambda>a. h a = None) [0..<64] \<noteq> None"
    by (auto simp: find_None_iff simp del: upt_rec_numeral)
  then show "kmalloc kenv_example h n \<noteq> None" by (simp add: kenv_example_def del: upt_rec_numeral)
qed

lemma drv_full_leak_free: "leak_free drv_full"
proof -
  have "dom (heap drv_full) = {0, 1, 2, 3, 4, 5, 6, 7, 8, 9}"
    by (auto simp: drv_full_def split: if_splits)
  then show ?thesis by (auto simp: leak_free_def drv_full_def cb_list_def null_entry_def)
qed

definition digit_cmds :: "byte list list" where
  "digit_cmds = map (\<lambda>a. [a, newline]) [48, 49, 50, 51, 52, 53, 54, 55, 56, 57]"

lemma idle_example_ok: "device_idle idle_example digit_cmds"
  using device_ready_example alloc_eleven_example drv_full_wf drv_full_abs drv_full_leak_free
  by (simp add: device_idle_def idle_example_def device_example_def digit_cmds_def)

lemma device_client_example:
  assumes "P = l @ [newline]" and "nul \<notin> set l" and "newline \<notin> set l" and "length l < 19"
  shows "device_client id idle_example (device_env_example P) P"
proof -
  have "conn_heap idle_example = conn_heap device_example" by (simp add: idle_example_def)
  then have "packet_received (device_env_example P) idle_example P"
    using device_packet_example [OF assms(1-3)] assms(4) by (simp add: packet_received_def)
  moreover have "take 19 P \<noteq> SEEKTO_PREFIX"
  proof
    assume "take 19 P = SEEKTO_PREFIX"
    moreover have "newline \<in> set (take 19 P)" using assms(1,4) by simp
    ultimately show False by (simp add: SEEKTO_PREFIX_def)
  qed
  ultimately show ?thesis
    using device_env_example_ok two_at_a_time_ok two_at_a_time_total by (simp add: device_client_def)
qed

theorem device_session_witness:
  "\<exists>st' rs. serve_clients True 300 idle_example
       [(device_env_example [97, newline], [], 5), (device_env_example [98, newline], [], 6)] =
       Some (Inr (st', rs)) \<and>
     cmds (dev_abs (vf_drv (tmpfile st'))) = drop 2 digit_cmds @ [[97, newline], [98, newline]] \<and>
     fst (rs ! 0) = concat (drop 1 digit_cmds @ [[97, newline]]) \<and>
     fst (rs ! 1) = concat (drop 2 digit_cmds @ [[97, newline], [98, newline]])"
proof -
  let ?clients = "[(device_env_example [97, newline], [], 5), (device_env_example [98, newline], [], 6)] ::
    ((vfile, byte list) conn_env \<times> byte list \<times> s32) list"
  let ?Ps = "[[97, newline], [98, newline]]"
  have good: "list_all2 (\<lambda>c. device_client id idle_example (fst c)) ?clients ?Ps"
    using device_client_example [of "[97, newline]" "[97]"] device_client_example [of "[98, newline]" "[98]"]
    by simp
  have "\<exists>st' rs. serve_clients True 300 idle_example ?clients = Some (Inr (st', rs)) \<and>
    length rs = length ?clients \<and> device_idle st' (keep_last 10 (digit_cmds @ ?Ps)) \<and>
    (\<forall>i < length ?clients. id (fst (rs ! i)) = id (fst (snd (?clients ! i))) @
       concat (keep_last 10 (digit_cmds @ take (Suc i) ?Ps)) \<and> snd (rs ! i) = 0)"
    by (rule device_session [OF good idle_example_ok]) (simp_all add: digit_cmds_def)
  then obtain st' rs where rs: "serve_clients True 300 idle_example ?clients = Some (Inr (st', rs))"
    "device_idle st' (keep_last 10 (digit_cmds @ ?Ps))"
    "\<forall>i < length ?clients. id (fst (rs ! i)) = id (fst (snd (?clients ! i))) @
       concat (keep_last 10 (digit_cmds @ take (Suc i) ?Ps)) \<and> snd (rs ! i) = 0"
    by blast
  have "fst (rs ! 0) = concat (drop 1 digit_cmds @ [[97, newline]])"
    "fst (rs ! 1) = concat (drop 2 digit_cmds @ [[97, newline], [98, newline]])"
    using rs(3) [rule_format, of 0] rs(3) [rule_format, of 1]
    by (simp_all add: keep_last_def digit_cmds_def)
  moreover have "cmds (dev_abs (vf_drv (tmpfile st'))) = drop 2 digit_cmds @ [[97, newline], [98, newline]]"
    using rs(2) by (simp add: device_idle_def keep_last_def digit_cmds_def)
  ultimately show ?thesis using rs(1) by blast
qed

end
