(* ===== verification/Acceptor.thy ===== *)
theory Acceptor
  imports Connection
begin

text \<open>
  The main loop of \<open>server/src/aesdsocket.c\<close>: connections are accepted, a thread is started for
  each, and the threads that have finished are joined. The connections are kept in a singly
  linked list, the macros \<open>SLIST_INSERT_HEAD\<close>, \<open>SLIST_INSERT_AFTER\<close>, \<open>SLIST_REMOVE\<close> and
  \<open>SLIST_REMOVE_HEAD\<close> of \<open>sys/queue.h\<close>, with the variable \<open>tail\<close> for its last element.
\<close>

section \<open>State and environment\<close>

text \<open>
  \<open>struct cl_entry\<close> in full; \<open>thread\<close> is \<open>None\<close> while \<open>pthread_create\<close> has not set it.
\<close>

record conn_entry = cl_entry +
  thread :: "nat option"
  next_entry :: "addr option"

text \<open>
  \<open>joined\<close> records the calls of \<open>pthread_join\<close>: the threads and the exit values read through
  \<open>retval\<close>, in order.
\<close>

record acceptor =
  entries :: "addr \<rightharpoonup> conn_entry"
  head :: "addr option"
  tail :: "addr option"
  abort :: bool
  joined :: "(nat \<times> s32) list"

text \<open>
  What one iteration of the loop gets from outside: the result of \<open>accept\<close> and whether
  \<open>errno\<close> is \<open>EAGAIN\<close> or \<open>EWOULDBLOCK\<close>, the block \<open>malloc\<close> returns with its contents, the
  result of \<open>pthread_create\<close> and the thread; and, for each entry, whether the loop finds its
  thread finished and with which exit value. \<open>pthread_join\<close> of such a thread succeeds.
\<close>

record accept_env =
  accept_ret :: s32
  would_block :: bool
  new_block :: "(addr \<times> conn_entry) option"
  create_ret :: s32
  new_thread :: nat
  finished :: "addr \<Rightarrow> s32 option"

abbreviation EAGAIN :: s32 where "EAGAIN \<equiv> 11"

section \<open>Model\<close>

text \<open>Reading an entry through a pointer.\<close>

definition entry_at :: "(addr \<rightharpoonup> conn_entry) \<Rightarrow> addr option \<Rightarrow> conn_entry res" where
  "entry_at es p =
     (case p of None \<Rightarrow> Inl NullDeref
      | Some a \<Rightarrow> (case es a of None \<Rightarrow> Inl UseAfterFree | Some en \<Rightarrow> Inr en))"

definition set_next :: "(addr \<rightharpoonup> conn_entry) \<Rightarrow> addr \<Rightarrow> addr option \<Rightarrow> (addr \<rightharpoonup> conn_entry) res" where
  "set_next es a q =
     bindR (entry_at es (Some a)) (\<lambda>en. Inr (es(a \<mapsto> en\<lparr>next_entry := q\<rparr>)))"

definition slist_insert_after ::
  "(addr \<rightharpoonup> conn_entry) \<Rightarrow> addr \<Rightarrow> addr \<Rightarrow> (addr \<rightharpoonup> conn_entry) res" where
  "slist_insert_after es t a =
     bindR (entry_at es (Some t)) (\<lambda>en.
     bindR (set_next es a (next_entry en)) (\<lambda>es'.
     set_next es' t (Some a)))"

text \<open>The search loop of \<open>SLIST_REMOVE\<close> for the element before \<open>c\<close>, from the element \<open>p\<close>.\<close>

primrec find_before ::
  "(addr \<rightharpoonup> conn_entry) \<Rightarrow> addr \<Rightarrow> nat \<Rightarrow> addr option \<Rightarrow> addr res option" where
  "find_before es c 0 p = None"
| "find_before es c (Suc fuel) p =
     bindL (Some (entry_at es p)) (\<lambda>en.
     if next_entry en = Some c then Some (Inr (the p))
     else find_before es c fuel (next_entry en))"

definition slist_remove ::
  "nat \<Rightarrow> addr \<Rightarrow> (addr \<rightharpoonup> conn_entry) \<Rightarrow> addr option \<Rightarrow>
   ((addr \<rightharpoonup> conn_entry) \<times> addr option) res option" where
  "slist_remove fuel c es first =
     bindL (Some (entry_at es (Some c))) (\<lambda>en.
     if first = Some c then Some (Inr (es, next_entry en))
     else
       bindL (find_before es c fuel first) (\<lambda>p.
       Some (bindR (set_next es p (next_entry en)) (\<lambda>es'. Inr (es', first)))))"

text \<open>A new connection: the body of \<open>if (conn_fd > 0)\<close>.\<close>

definition new_connection :: "accept_env \<Rightarrow> acceptor \<Rightarrow> acceptor res" where
  "new_connection e s =
     (case new_block e of
        None \<Rightarrow> Inl NullDeref
      | Some (a, junk) \<Rightarrow>
          let en = \<lparr>descriptor = accept_ret e, is_active = True,
                    thread = (if create_ret e = 0 then Some (new_thread e) else None),
                    next_entry = next_entry junk\<rparr>;
              s = s\<lparr>entries := (entries s)(a \<mapsto> en),
                    abort := abort s \<or> sint (create_ret e) < 0 \<and> create_ret e \<noteq> EAGAIN\<rparr>
          in case tail s of
               Some t \<Rightarrow>
                 bindR (slist_insert_after (entries s) t a) (\<lambda>es.
                 Inr (s\<lparr>entries := es, tail := Some a\<rparr>))
             | None \<Rightarrow>
                 bindR (set_next (entries s) a (head s)) (\<lambda>es.
                 Inr (s\<lparr>entries := es, head := Some a, tail := Some a\<rparr>)))"

text \<open>
  Joining a thread whose exit value is \<open>ret\<close>; the comparison of the result of \<open>pthread_join\<close>
  with 0 by \<open><\<close> is never true. Joining through a \<open>thread\<close> that was never set is a fault.
\<close>

definition join_entry :: "acceptor \<Rightarrow> conn_entry \<Rightarrow> s32 \<Rightarrow> acceptor res" where
  "join_entry s en ret =
     (case thread en of
        None \<Rightarrow> Inl Uninitialised
      | Some t \<Rightarrow> Inr (s\<lparr>abort := abort s \<or> sint ret < 0, joined := joined s @ [(t, ret)]\<rparr>))"

text \<open>
  The loop over the list, from \<open>current\<close> with the element \<open>previous\<close> before it; fuel bounds the
  iterations, \<open>pfuel\<close> those of \<open>SLIST_REMOVE\<close>.
\<close>

primrec join_loop ::
  "accept_env \<Rightarrow> nat \<Rightarrow> nat \<Rightarrow> addr option \<Rightarrow> addr option \<Rightarrow> acceptor \<Rightarrow> acceptor res option" where
  "join_loop e pfuel 0 previous current s = None"
| "join_loop e pfuel (Suc fuel) previous current s =
     (case current of
        None \<Rightarrow> Some (Inr s)
      | Some c \<Rightarrow>
          bindL (Some (entry_at (entries s) current)) (\<lambda>en.
          case finished e c of
            None \<Rightarrow> join_loop e pfuel fuel current (next_entry en) s
          | Some ret \<Rightarrow>
              bindL (Some (join_entry s en ret)) (\<lambda>s.
              bindL (slist_remove pfuel c (entries s) (head s)) (\<lambda>(es, first).
              let s = s\<lparr>entries := es(c := None), head := first\<rparr> in
              if previous = None then join_loop e pfuel fuel None first s
              else
                bindL (Some (entry_at (entries s) previous)) (\<lambda>pe.
                join_loop e pfuel fuel previous (next_entry pe) s)))))"

text \<open>One iteration of the main loop; the flag says whether it was left by \<open>break\<close>.\<close>

definition accept_step :: "accept_env \<Rightarrow> nat \<Rightarrow> acceptor \<Rightarrow> (acceptor \<times> bool) res option" where
  "accept_step e fuel s =
     (if sint (accept_ret e) < 0 \<and> \<not> would_block e then Some (Inr (s\<lparr>abort := True\<rparr>, True))
      else
        bindL (Some (if 0 < sint (accept_ret e) then new_connection e s else Inr s)) (\<lambda>s.
        bindL (join_loop e fuel fuel None (head s) s) (\<lambda>s. Some (Inr (s, False)))))"

text \<open>
  The main loop over the environments of its iterations, while neither \<open>abort\<close> nor
  \<open>sig_exit\<close> is set; the list ends where the exit signal arrives.
\<close>

primrec accept_loop :: "accept_env list \<Rightarrow> nat \<Rightarrow> acceptor \<Rightarrow> acceptor res option" where
  "accept_loop [] fuel s = Some (Inr s)"
| "accept_loop (e # es) fuel s =
     (if abort s then Some (Inr s)
      else
        bindL (accept_step e fuel s) (\<lambda>(s, left).
        if left then Some (Inr s) else accept_loop es fuel s))"

text \<open>
  The joining of the remaining threads at the end; \<open>ret\<close> gives the exit value each thread
  ends with.
\<close>

primrec join_all :: "(addr \<Rightarrow> s32) \<Rightarrow> nat \<Rightarrow> acceptor \<Rightarrow> acceptor res option" where
  "join_all ret 0 s = None"
| "join_all ret (Suc fuel) s =
     (case head s of
        None \<Rightarrow> Some (Inr s)
      | Some c \<Rightarrow>
          bindL (Some (entry_at (entries s) (head s))) (\<lambda>en.
          bindL (Some (join_entry s en (ret c))) (\<lambda>s.
          join_all ret fuel
            (s\<lparr>entries := (entries s)(c := None), head := next_entry en\<rparr>))))"

definition acceptor_start :: acceptor where
  "acceptor_start = \<lparr>entries = Map.empty, head = None, tail = None, abort = False, joined = []\<rparr>"

section \<open>The list\<close>

text \<open>The thread of an allocated entry.\<close>

definition entry_thread :: "(addr \<rightharpoonup> conn_entry) \<Rightarrow> addr \<Rightarrow> nat option option" where
  "entry_thread es x = map_option thread (es x)"

text \<open>\<open>lseg es p xs q\<close>: following \<open>next_entry\<close> from \<open>p\<close> one meets the entries \<open>xs\<close> and then \<open>q\<close>.\<close>

primrec lseg :: "(addr \<rightharpoonup> conn_entry) \<Rightarrow> addr option \<Rightarrow> addr list \<Rightarrow> addr option \<Rightarrow> bool" where
  "lseg es p [] q = (p = q)"
| "lseg es p (x # xs) q =
     (p = Some x \<and> (case es x of None \<Rightarrow> False | Some en \<Rightarrow> lseg es (next_entry en) xs q))"

definition first_of :: "addr list \<Rightarrow> addr option" where
  "first_of xs = (case xs of [] \<Rightarrow> None | x # _ \<Rightarrow> Some x)"

lemma first_of_simps [simp]: "first_of [] = None" "first_of (x # xs) = Some x"
  by (simp_all add: first_of_def)

lemma lseg_append: "lseg es p (xs @ ys) q \<longleftrightarrow> (\<exists>r. lseg es p xs r \<and> lseg es r ys q)"
  by (induction xs arbitrary: p) (auto split: option.splits)

lemma lseg_frame: "x \<notin> set xs \<Longrightarrow> lseg (es(x := v)) p xs q = lseg es p xs q"
  by (induction xs arbitrary: p) (auto split: option.splits)

lemma lseg_first: "lseg es p xs None \<Longrightarrow> p = first_of xs"
  by (cases xs) auto

text \<open>
  The invariant of the list: it is well linked, has no repetitions, the threads of its
  entries were started, and besides its entries only those of the set \<open>lost\<close> are allocated.
\<close>

definition list_ok :: "acceptor \<Rightarrow> addr list \<Rightarrow> addr set \<Rightarrow> bool" where
  "list_ok s xs lost \<longleftrightarrow>
     lseg (entries s) (head s) xs None \<and> distinct xs \<and>
     dom (entries s) = set xs \<union> lost \<and> set xs \<inter> lost = {} \<and>
     (\<forall>x \<in> set xs. \<forall>en. entries s x = Some en \<longrightarrow> thread en \<noteq> None)"

lemma list_ok_head: "list_ok s xs L \<Longrightarrow> head s = first_of xs"
  by (auto simp: list_ok_def dest: lseg_first)

lemma list_ok_next:
  assumes "list_ok s (ds @ d # rs) L"
  obtains en where "entries s d = Some en" "next_entry en = first_of rs" "thread en \<noteq> None"
  using assms lseg_first by (fastforce simp: list_ok_def lseg_append ran_def split: option.splits)

lemma find_before_ok:
  assumes "lseg es p (ds @ [d]) (Some c)" and "c \<notin> set (ds @ [d])" and "length ds < fuel"
  shows "find_before es c fuel p = Some (Inr d)"
  using assms
proof (induction ds arbitrary: p fuel)
  case Nil
  then obtain f where "fuel = Suc f" by (cases fuel) auto
  with Nil show ?case by (auto simp: entry_at_def split: option.splits)
next
  case (Cons x ds)
  obtain f where f: "fuel = Suc f" using Cons.prems(3) by (cases fuel) auto
  obtain en where x: "p = Some x" "es x = Some en" "lseg es (next_entry en) (ds @ [d]) (Some c)"
    using Cons.prems(1) by (auto split: option.splits)
  have "next_entry en \<noteq> Some c"
    using x(3) Cons.prems(2) by (cases ds) auto
  then show ?case
    using Cons.IH [OF x(3)] Cons.prems(2,3) f x by (simp add: entry_at_def)
qed

lemma slist_remove_ok:
  assumes ok: "list_ok s (ds @ c # rs) L" and fuel: "length ds \<le> fuel"
  shows "\<exists>es p. slist_remove fuel c (entries s) (head s) = Some (Inr (es, p)) \<and>
    list_ok (s\<lparr>entries := es(c := None), head := p\<rparr>) (ds @ rs) L \<and>
    (\<forall>x \<in> L. (es(c := None)) x = entries s x) \<and>
    (\<forall>x. entry_thread es x = entry_thread (entries s) x)"
proof -
  obtain cn where cn: "entries s c = Some cn" "next_entry cn = first_of rs"
    using ok by (rule list_ok_next)
  have seg: "lseg (entries s) (head s) ds (Some c)" "lseg (entries s) (next_entry cn) rs None"
    using ok cn(1) by (auto simp: list_ok_def lseg_append)
  have dist: "distinct (ds @ c # rs)" and dom: "dom (entries s) = insert c (set ds \<union> set rs \<union> L)"
    and thr: "\<forall>x \<in> set (ds @ c # rs). \<forall>en. entries s x = Some en \<longrightarrow> thread en \<noteq> None"
    and L: "set (ds @ c # rs) \<inter> L = {}"
    using ok by (auto simp: list_ok_def)
  have c: "c \<notin> set ds" "c \<notin> set rs" using dist by auto
  show ?thesis
  proof (cases ds rule: rev_cases)
    case Nil
    then have "head s = Some c" using list_ok_head [OF ok] by simp
    then show ?thesis
      using Nil cn seg(2) dist dom c thr L
      by (auto simp: slist_remove_def entry_at_def list_ok_def lseg_frame)
  next
    case (snoc ds' d)
    then have "head s \<noteq> Some c" using list_ok_head [OF ok] c(1) by (cases ds') auto
    moreover have "find_before (entries s) c fuel (head s) = Some (Inr d)"
      using find_before_ok [of "entries s" "head s" ds' d c fuel] seg(1) c(1) fuel snoc by simp
    moreover have ok': "list_ok s (ds' @ d # c # rs) L" using ok snoc by simp
    moreover obtain dn where dn: "entries s d = Some dn" "next_entry dn = first_of (c # rs)"
      "thread dn \<noteq> None"
      using ok' by (rule list_ok_next)
    ultimately have rem: "slist_remove fuel c (entries s) (head s) =
        Some (Inr ((entries s)(d \<mapsto> dn\<lparr>next_entry := next_entry cn\<rparr>), head s))"
      using cn(1) by (simp add: slist_remove_def entry_at_def set_next_def)
    let ?es = "(entries s)(d \<mapsto> dn\<lparr>next_entry := next_entry cn\<rparr>, c := None)"
    have d: "d \<notin> set ds'" "d \<notin> set rs" "d \<noteq> c" using dist snoc by auto
    have "lseg ?es (head s) ds' (Some d)"
      using seg(1) snoc c(1) d by (auto simp: lseg_append lseg_frame)
    moreover have "lseg ?es (next_entry cn) rs None"
      using seg(2) c(2) d by (simp add: lseg_frame)
    ultimately have "lseg ?es (head s) (ds @ rs) None"
      using snoc d(3) by (auto simp: lseg_append)
    moreover have "\<forall>x \<in> set (ds @ rs). \<forall>en. ?es x = Some en \<longrightarrow> thread en \<noteq> None"
      using thr dn(3) by auto
    moreover have "dom ?es = set (ds @ rs) \<union> L" using dom c snoc L by auto
    ultimately have "list_ok (s\<lparr>entries := ?es, head := head s\<rparr>) (ds @ rs) L"
      using dist L by (simp add: list_ok_def)
    moreover have "\<forall>x \<in> L. ?es x = entries s x" using L snoc by auto
    moreover have "\<forall>x. entry_thread ((entries s)(d \<mapsto> dn\<lparr>next_entry := next_entry cn\<rparr>)) x =
        entry_thread (entries s) x"
      using dn(1) by (simp add: entry_thread_def)
    ultimately show ?thesis
      using rem by (intro exI conjI) assumption+
  qed
qed

text \<open>The loop over the list removes the finished connections and keeps the others in order.\<close>

definition some_failed :: "accept_env \<Rightarrow> addr list \<Rightarrow> bool" where
  "some_failed e xs \<longleftrightarrow> (\<exists>x \<in> set xs. \<exists>r. finished e x = Some r \<and> sint r < 0)"

text \<open>A round of the loop that joins a thread and removes its entry.\<close>

text \<open>The calls of \<open>pthread_join\<close> for some entries whose threads have the exit values \<open>ret\<close>.\<close>

definition joins :: "(addr \<rightharpoonup> conn_entry) \<Rightarrow> (addr \<Rightarrow> s32) \<Rightarrow> addr list \<Rightarrow> (nat \<times> s32) list" where
  "joins es ret xs = map (\<lambda>x. (the (the (entry_thread es x)), ret x)) xs"

lemma joins_simps [simp]: "joins es ret [] = []"
  "joins es ret (x # xs) = (the (the (entry_thread es x)), ret x) # joins es ret xs"
  by (simp_all add: joins_def)

lemma joins_cong:
  "\<forall>x \<in> set xs. entry_thread es' x = entry_thread es x \<Longrightarrow> joins es' ret xs = joins es ret xs"
  by (simp add: joins_def)

lemma join_loop_removes:
  assumes "entries s c = Some cn" "next_entry cn = first_of rs" "thread cn = Some t" and "finished e c = Some ret"
    and "previous = (if ds = [] then None else Some (last ds))"
    and rem: "slist_remove pfuel c (entries s) (head s) = Some (Inr (es, p))"
    and ok: "list_ok (s\<lparr>abort := b, joined := js, entries := es(c := None), head := p\<rparr>) (ds @ rs) L"
    and b: "b \<longleftrightarrow> abort s \<or> sint ret < 0" "js = joined s @ [(t, ret)]"
  shows "join_loop e pfuel (Suc f) previous (first_of (c # rs)) s =
    join_loop e pfuel f previous (first_of rs) (s\<lparr>abort := b, joined := js, entries := es(c := None), head := p\<rparr>)"
proof (cases ds rule: rev_cases)
  case Nil
  then show ?thesis
    using assms list_ok_head [OF ok] by (simp add: entry_at_def join_entry_def Let_def)
next
  case (snoc ds' d)
  have "list_ok (s\<lparr>abort := b, joined := js, entries := es(c := None), head := p\<rparr>) (ds' @ d # rs) L"
    using ok snoc by simp
  then obtain dn where "(es(c := None)) d = Some dn" "next_entry dn = first_of rs"
    by (rule list_ok_next) simp
  then show ?thesis
    using snoc assms by (simp add: entry_at_def join_entry_def Let_def)
qed

lemma join_loop_ok:
  assumes "list_ok s (ds @ rs) L" and "previous = (if ds = [] then None else Some (last ds))"
    and "length rs < fuel" and "length (ds @ rs) \<le> pfuel"
  shows "\<exists>s'. join_loop e pfuel fuel previous (first_of rs) s = Some (Inr s') \<and>
    list_ok s' (ds @ filter (\<lambda>x. finished e x = None) rs) L \<and> tail s' = tail s \<and>
    (abort s' \<longleftrightarrow> abort s \<or> some_failed e rs) \<and> (\<forall>x \<in> L. entries s' x = entries s x) \<and>
    joined s' = joined s @ joins (entries s) (\<lambda>x. the (finished e x)) (filter (\<lambda>x. finished e x \<noteq> None) rs) \<and>
    (\<forall>x. entries s' x \<noteq> None \<longrightarrow> entry_thread (entries s') x = entry_thread (entries s) x)"
  using assms
proof (induction rs arbitrary: ds previous fuel s)
  case Nil
  then obtain f where "fuel = Suc f" by (cases fuel) auto
  with Nil show ?case by (auto simp: some_failed_def)
next
  case (Cons c rs)
  obtain f where f: "fuel = Suc f" using Cons.prems(3) by (cases fuel) auto
  obtain cn where cn: "entries s c = Some cn" "next_entry cn = first_of rs" "thread cn \<noteq> None"
    using Cons.prems(1) by (rule list_ok_next)
  obtain t where t: "thread cn = Some t" using cn(3) by auto
  show ?case
  proof (cases "finished e c")
    case None
    have "list_ok s ((ds @ [c]) @ rs) L" using Cons.prems(1) by simp
    from Cons.IH [OF this, of "Some c" f] Cons.prems(3,4) None cn show ?thesis
      by (simp add: f entry_at_def some_failed_def)
  next
    case (Some ret)
    let ?s = "s\<lparr>abort := abort s \<or> sint ret < 0, joined := joined s @ [(t, ret)]\<rparr>"
    have ok: "list_ok ?s (ds @ c # rs) L" using Cons.prems(1) by (simp add: list_ok_def)
    obtain es p where rem: "slist_remove pfuel c (entries ?s) (head ?s) = Some (Inr (es, p))"
      "list_ok (?s\<lparr>entries := es(c := None), head := p\<rparr>) (ds @ rs) L"
      "\<forall>x \<in> L. (es(c := None)) x = entries ?s x"
      "\<forall>x. entry_thread es x = entry_thread (entries ?s) x"
      using slist_remove_ok [OF ok, of pfuel] Cons.prems(4) by auto
    let ?s' = "?s\<lparr>entries := es(c := None), head := p\<rparr>"
    obtain s' where s': "join_loop e pfuel f previous (first_of rs) ?s' = Some (Inr s')"
      "list_ok s' (ds @ filter (\<lambda>x. finished e x = None) rs) L" "tail s' = tail ?s'"
      "abort s' \<longleftrightarrow> abort ?s' \<or> some_failed e rs"
      "\<forall>x \<in> L. entries s' x = entries ?s' x"
      "joined s' = joined ?s' @ joins (entries ?s') (\<lambda>x. the (finished e x)) (filter (\<lambda>x. finished e x \<noteq> None) rs)"
      "\<forall>x. entries s' x \<noteq> None \<longrightarrow> entry_thread (entries s') x = entry_thread (entries ?s') x"
      using Cons.IH [OF rem(2) Cons.prems(2), of f] Cons.prems(3,4) f by (auto simp del: fun_upd_apply)
    have "join_loop e pfuel fuel previous (first_of (c # rs)) s =
        join_loop e pfuel f previous (first_of rs) ?s'"
      unfolding f by (rule join_loop_removes [OF cn(1,2) t Some Cons.prems(2) _ rem(2)])
        (use rem(1) in simp_all)
    moreover have "joined s' = joined s @
        joins (entries s) (\<lambda>x. the (finished e x)) (filter (\<lambda>x. finished e x \<noteq> None) (c # rs))"
    proof -
      have "c \<notin> set rs" using ok by (auto simp: list_ok_def)
      then have "joins (entries ?s') (\<lambda>x. the (finished e x)) (filter (\<lambda>x. finished e x \<noteq> None) rs) =
          joins (entries s) (\<lambda>x. the (finished e x)) (filter (\<lambda>x. finished e x \<noteq> None) rs)"
        using rem(4) by (intro joins_cong) (auto simp: entry_thread_def)
      then show ?thesis using s'(6) Some cn(1) t by (simp add: entry_thread_def)
    qed
    moreover have "entry_thread (entries s') x = entry_thread (entries s) x"
      if "entries s' x \<noteq> None" for x
    proof (cases "x = c")
      case False
      then show ?thesis using s'(7) rem(4) that by (simp add: entry_thread_def)
    next
      case True
      then show ?thesis using s'(7) that by (fastforce simp: entry_thread_def)
    qed
    ultimately show ?thesis using s'(1-5) Some rem(3) by (auto simp: some_failed_def)
  qed
qed

section \<open>One iteration\<close>

text \<open>The state between two iterations in which \<open>tail\<close> is the last element of the list.\<close>

definition acc_ok :: "acceptor \<Rightarrow> addr list \<Rightarrow> bool" where
  "acc_ok s xs \<longleftrightarrow> list_ok s xs {} \<and> tail s = (if xs = [] then None else Some (last xs))"

text \<open>A connection is accepted, \<open>malloc\<close> returns the fresh block \<open>a\<close>, the thread is started.\<close>

definition accepts :: "accept_env \<Rightarrow> acceptor \<Rightarrow> addr \<Rightarrow> bool" where
  "accepts e s a \<longleftrightarrow>
     0 < sint (accept_ret e) \<and> create_ret e = 0 \<and> entries s a = None \<and>
     (\<exists>junk. new_block e = Some (a, junk))"

lemma new_connection_ok:
  assumes ok: "acc_ok s xs" and acc: "accepts e s a"
  shows "\<exists>s' en. new_connection e s = Inr s' \<and> acc_ok s' (xs @ [a]) \<and> abort s' = abort s \<and>
    entries s' a = Some en \<and> descriptor en = accept_ret e \<and> is_active en \<and>
    (\<forall>x. entry_thread (entries s') x =
       (if x = a then Some (Some (new_thread e)) else entry_thread (entries s) x))"
proof -
  obtain junk where e: "new_block e = Some (a, junk)" "create_ret e = 0" "entries s a = None"
    using acc by (auto simp: accepts_def)
  have a: "a \<notin> set xs" using ok e(3) by (auto simp: acc_ok_def list_ok_def)
  show ?thesis
  proof (cases xs rule: rev_cases)
    case Nil
    then show ?thesis
      using ok e
      by (auto simp: acc_ok_def list_ok_def new_connection_def set_next_def entry_at_def entry_thread_def)
  next
    case (snoc ds d)
    have ok': "list_ok s (ds @ d # []) {}" using ok snoc by (simp add: acc_ok_def)
    obtain dn where dn: "entries s d = Some dn" "next_entry dn = first_of []" "thread dn \<noteq> None"
      using ok' by (rule list_ok_next)
    have d: "d \<notin> set ds" "d \<noteq> a" "a \<notin> set ds" using ok' a snoc by (auto simp: list_ok_def)
    have "lseg (entries s) (head s) ds (Some d)"
      using ok' by (auto simp: list_ok_def lseg_append)
    then have "lseg ((entries s)(a := x, d := y)) (head s) ds (Some d)" for x y
      using d by (simp add: lseg_frame)
    then show ?thesis
      using ok snoc e d dn
      by (auto simp: acc_ok_def list_ok_def new_connection_def slist_insert_after_def set_next_def
          entry_at_def lseg_append entry_thread_def fun_upd_twist [of d a])
  qed
qed

lemma accept_step_ok:
  assumes "acc_ok s xs" and "if 0 < sint (accept_ret e) then accepts e s a \<and> ys = xs @ [a]
      else ys = xs \<and> (0 \<le> sint (accept_ret e) \<or> would_block e)"
    and "ys = [] \<or> finished e (last ys) = None" and "length ys < fuel"
  shows "\<exists>s'. accept_step e fuel s = Some (Inr (s', False)) \<and>
    acc_ok s' (filter (\<lambda>x. finished e x = None) ys) \<and>
    (abort s' \<longleftrightarrow> abort s \<or> some_failed e ys) \<and>
    (\<forall>x. entries s' x \<noteq> None \<longrightarrow> entry_thread (entries s') x =
       (if 0 < sint (accept_ret e) \<and> x = a then Some (Some (new_thread e))
        else entry_thread (entries s) x))"
proof -
  obtain s1 where s1: "(if 0 < sint (accept_ret e) then new_connection e s else Inr s) = Inr s1"
    "acc_ok s1 ys" "abort s1 = abort s"
    "\<forall>x. entry_thread (entries s1) x =
       (if 0 < sint (accept_ret e) \<and> x = a then Some (Some (new_thread e))
        else entry_thread (entries s) x)"
  proof (cases "0 < sint (accept_ret e)")
    case True
    then show ?thesis using new_connection_ok [OF assms(1), of e a] assms(2) that by auto
  next
    case False
    then show ?thesis using assms(1,2) that [of s] by simp
  qed
  then have list: "list_ok s1 ([] @ ys) {}" by (simp add: acc_ok_def)
  obtain s2 where s2: "join_loop e fuel fuel None (head s1) s1 = Some (Inr s2)"
    "list_ok s2 (filter (\<lambda>x. finished e x = None) ys) {}" "tail s2 = tail s1"
    "abort s2 \<longleftrightarrow> abort s1 \<or> some_failed e ys"
    "\<forall>x. entries s2 x \<noteq> None \<longrightarrow> entry_thread (entries s2) x = entry_thread (entries s1) x"
    using join_loop_ok [OF list, of None fuel fuel e] assms(4) list_ok_head [OF list] by auto
  have "tail s2 = (if filter (\<lambda>x. finished e x = None) ys = [] then None
      else Some (last (filter (\<lambda>x. finished e x = None) ys)))"
  proof (cases ys rule: rev_cases)
    case Nil
    then show ?thesis using s1(2) s2(3) by (simp add: acc_ok_def)
  next
    case (snoc zs z)
    then show ?thesis using s1(2) s2(3) assms(3) by (simp add: acc_ok_def)
  qed
  then have "acc_ok s2 (filter (\<lambda>x. finished e x = None) ys)"
    using s2(2) by (simp add: acc_ok_def)
  moreover have "\<not> (sint (accept_ret e) < 0 \<and> \<not> would_block e)"
    using assms(2) by (auto split: if_splits)
  ultimately show ?thesis
    using s1(1,3,4) s2(1,4,5) by (simp add: accept_step_def)
qed

text \<open>
  C16: One iteration of the main loop, as long as the most recently accepted connection is not
  joined in it. The linked list then is the sequence of the open connections: a new one is
  appended, those whose threads have finished are removed and freed, the order stays, no
  access faults, every allocated entry is in the list, and \<open>abort\<close> is set exactly when one of
  the finished threads failed.
\<close>

theorem accept_step_refines:
  assumes "acc_ok s xs" and "if 0 < sint (accept_ret e) then accepts e s a \<and> ys = xs @ [a]
      else ys = xs \<and> (0 \<le> sint (accept_ret e) \<or> would_block e)"
    and "ys = [] \<or> finished e (last ys) = None" and "length ys < fuel"
  shows "\<exists>s'. accept_step e fuel s = Some (Inr (s', False)) \<and>
    acc_ok s' (filter (\<lambda>x. finished e x = None) ys) \<and>
    (abort s' \<longleftrightarrow> abort s \<or> some_failed e ys)"
  using accept_step_ok [OF assms] by blast

text \<open>
  C32: When the most recently accepted connection has been joined, \<open>tail\<close> still points to its freed
  entry, and the next connection goes wrong: it is linked behind the freed entry, which is a
  use after free, or, when \<open>malloc\<close> has returned the same block again, the new entry is linked
  to itself, is not in the list, and will never be joined nor freed.
\<close>

theorem accept_after_last_joined:
  assumes "acc_ok s (xs @ [t])" and "\<not> abort s"
    and "sint (accept_ret e) \<le> 0" and "0 \<le> sint (accept_ret e) \<or> would_block e"
    and "finished e t \<noteq> None" and "\<not> some_failed e (xs @ [t])"
    and "0 < sint (accept_ret e')" and "create_ret e' = 0" and "new_block e' = Some (a, junk)"
    and "a \<notin> set xs" and "\<not> some_failed e' xs" and "length xs + 1 < fuel"
  shows "if a = t
    then \<exists>s' en. accept_loop [e, e'] fuel s = Some (Inr s') \<and> entries s' a = Some en \<and>
      next_entry en = Some a \<and>
      list_ok s' (filter (\<lambda>x. finished e' x = None) (filter (\<lambda>x. finished e x = None) xs)) {a}
    else accept_loop [e, e'] fuel s = Some (Inl UseAfterFree)"
proof -
  have ok: "list_ok s ([] @ xs @ [t]) {}" and t: "tail s = Some t" "t \<notin> set xs"
    using assms(1) by (auto simp: acc_ok_def list_ok_def)
  let ?ys = "filter (\<lambda>x. finished e x = None) xs"
  obtain s1 where s1: "join_loop e fuel fuel None (head s) s = Some (Inr s1)"
    "list_ok s1 ?ys {}" "tail s1 = Some t" "\<not> abort s1"
    using join_loop_ok [OF ok, of None fuel fuel e] assms(2,5,6,12) list_ok_head [OF ok] t(1) by auto
  have step: "accept_step e fuel s = Some (Inr (s1, False))"
    using assms(3,4) s1(1) by (simp add: accept_step_def)
  have gone: "entries s1 t = None" "entries s1 a = None"
    using s1(2) t(2) assms(5,10) by (auto simp: list_ok_def)
  let ?en = "\<lparr>descriptor = accept_ret e', is_active = True, thread = Some (new_thread e'),
    next_entry = Some a\<rparr>"
  show ?thesis
  proof (cases "a = t")
    case False
    then have "new_connection e' s1 = Inl UseAfterFree"
      using gone s1(3) assms(9) by (simp add: new_connection_def slist_insert_after_def entry_at_def)
    then show ?thesis
      using False step assms(2,7) s1(4) by (simp add: accept_step_def)
  next
    case True
    let ?s2 = "s1\<lparr>entries := (entries s1)(a \<mapsto> ?en), tail := Some a\<rparr>"
    have new: "new_connection e' s1 = Inr ?s2"
      using True s1(3,4) assms(7-9)
      by (simp add: new_connection_def slist_insert_after_def set_next_def entry_at_def)
    have a: "a \<notin> set ?ys" using assms(10) by simp
    have list: "list_ok ?s2 ([] @ ?ys) {a}"
      using s1(2) a by (auto simp: list_ok_def lseg_frame)
    have len: "length ?ys \<le> length xs" by (rule length_filter_le)
    have fail: "\<not> some_failed e' ?ys" using assms(11) by (auto simp: some_failed_def)
    obtain s3 where s3: "join_loop e' fuel fuel None (head ?s2) ?s2 = Some (Inr s3)"
      "list_ok s3 (filter (\<lambda>x. finished e' x = None) ?ys) {a}" "entries s3 a = Some ?en"
      "\<not> abort s3"
      using join_loop_ok [OF list, of None fuel fuel e'] assms(12) len list_ok_head [OF list] fail s1(4)
      by auto
    then have "accept_step e' fuel s1 = Some (Inr (s3, False))"
      using new assms(7) by (simp add: accept_step_def)
    then show ?thesis
      using True step s3 assms(2) s1(4) by simp
  qed
qed

lemma join_all_ok:
  assumes "list_ok s xs L" and "length xs < fuel"
  shows "\<exists>s'. join_all ret fuel s = Some (Inr s') \<and> list_ok s' [] L \<and>
    joined s' = joined s @ joins (entries s) ret xs \<and>
    (abort s' \<longleftrightarrow> abort s \<or> (\<exists>x \<in> set xs. sint (ret x) < 0))"
  using assms
proof (induction xs arbitrary: s fuel)
  case Nil
  then obtain f where "fuel = Suc f" by (cases fuel) auto
  with Nil show ?case by (auto simp: list_ok_def)
next
  case (Cons c xs)
  obtain f where f: "fuel = Suc f" using Cons.prems(2) by (cases fuel) auto
  have ok: "list_ok s ([] @ c # xs) L" using Cons.prems(1) by simp
  obtain cn where cn: "entries s c = Some cn" "next_entry cn = first_of xs" "thread cn \<noteq> None"
    using ok by (rule list_ok_next)
  obtain t where t: "thread cn = Some t" using cn(3) by auto
  let ?s = "s\<lparr>abort := abort s \<or> sint (ret c) < 0, joined := joined s @ [(t, ret c)],
    entries := (entries s)(c := None), head := next_entry cn\<rparr>"
  have "list_ok ?s xs L"
    using Cons.prems(1) cn(1) by (auto simp: list_ok_def lseg_frame)
  moreover have "joins ((entries s)(c := None)) ret xs = joins (entries s) ret xs"
    using Cons.prems(1) by (intro joins_cong) (auto simp: list_ok_def entry_thread_def)
  ultimately show ?case
    using Cons.IH [of ?s f] Cons.prems(2) f cn t list_ok_head [OF ok]
    by (auto simp: entry_at_def join_entry_def entry_thread_def simp del: fun_upd_apply)
qed

text \<open>
  The loop at the end joins every thread in the list, once each and in order, frees its
  entry, and leaves exactly the entries allocated that are not in the list; \<open>abort\<close> is set
  exactly when a thread failed.
\<close>

theorem join_all_frees:
  assumes "list_ok s xs lost" and "length xs < fuel"
  shows "\<exists>s'. join_all ret fuel s = Some (Inr s') \<and> head s' = None \<and> dom (entries s') = lost \<and>
    joined s' = joined s @ joins (entries s) ret xs \<and>
    (abort s' \<longleftrightarrow> abort s \<or> (\<exists>x \<in> set xs. sint (ret x) < 0))"
  using join_all_ok [OF assms, of ret] by (auto simp: list_ok_def)

text \<open>
  \<open>pthread_create\<close> reports an error by a positive number, the code tests for a negative one.
  So when the first thread cannot be started the loop goes on as if it had been, and the
  joining at the end uses a thread identifier that was never set.
\<close>

theorem thread_create_error_missed:
  assumes "0 < sint (accept_ret e)" and "new_block e = Some (a, junk)" and "0 < sint (create_ret e)"
    and "finished e a = None" and "2 \<le> fuel"
  shows "\<exists>s. accept_loop [e] fuel acceptor_start = Some (Inr s) \<and> \<not> abort s \<and>
    join_all ret fuel s = Some (Inl Uninitialised)"
proof -
  obtain f where f: "fuel = Suc (Suc f)" using le_Suc_ex [OF assms(5)] by auto
  have "create_ret e \<noteq> 0" using assms(3) by auto
  then show ?thesis
    using assms(1-4)
    by (simp add: f acceptor_start_def accept_step_def new_connection_def set_next_def entry_at_def
        join_entry_def)
qed

section \<open>Witnesses\<close>

definition quiet_env :: accept_env where
  "quiet_env =
     \<lparr>accept_ret = - 1, would_block = True, new_block = None, create_ret = 0, new_thread = 0,
      finished = (\<lambda>_. None)\<rparr>"

definition entry_example :: "nat \<Rightarrow> addr option \<Rightarrow> conn_entry" where
  "entry_example t q = \<lparr>descriptor = 4, is_active = True, thread = Some t, next_entry = q\<rparr>"

text \<open>Two connections are being served; a client connects while the first of them is done.\<close>

definition two_connections :: acceptor where
  "two_connections =
     \<lparr>entries = [1 \<mapsto> entry_example 10 (Some 2), 2 \<mapsto> entry_example 20 None],
      head = Some 1, tail = Some 2, abort = False, joined = []\<rparr>"

lemma two_connections_ok: "acc_ok two_connections [1, 2]"
  by (auto simp: acc_ok_def list_ok_def two_connections_def entry_example_def)

definition client_env :: "addr \<Rightarrow> accept_env" where
  "client_env a = quiet_env\<lparr>accept_ret := 7, new_block := Some (a, entry_example 0 None)\<rparr>"

theorem accept_step_refines_witness:
  "\<exists>s'. accept_step ((client_env 3)\<lparr>finished := [1 \<mapsto> 0]\<rparr>) 4 two_connections = Some (Inr (s', False)) \<and>
     acc_ok s' [2, 3] \<and> \<not> abort s'"
proof -
  let ?e = "(client_env 3)\<lparr>finished := [1 \<mapsto> 0]\<rparr>"
  have "accepts ?e two_connections 3"
    by (simp add: accepts_def client_env_def quiet_env_def two_connections_def)
  moreover have "\<not> some_failed ?e [1, 2, 3]" by (simp add: some_failed_def)
  ultimately show ?thesis
    using accept_step_refines [OF two_connections_ok, of ?e 3 "[1, 2, 3]" 4]
    by (auto simp: client_env_def quiet_env_def two_connections_def)
qed

theorem accept_after_last_joined_witness:
  "accept_loop [quiet_env\<lparr>finished := [2 \<mapsto> 0]\<rparr>, client_env 3] 4 two_connections =
     Some (Inl UseAfterFree)"
  using accept_after_last_joined [of two_connections "[1]" 2 "quiet_env\<lparr>finished := [2 \<mapsto> 0]\<rparr>"
      "client_env 3" 3 "entry_example 0 None" 4] two_connections_ok
  by (simp add: quiet_env_def client_env_def some_failed_def two_connections_def)

theorem join_all_frees_witness:
  "\<exists>s'. join_all (\<lambda>_. 0) 3 two_connections = Some (Inr s') \<and> dom (entries s') = {}"
  using join_all_frees [of two_connections "[1, 2]" "{}" 3 "\<lambda>_. 0"] two_connections_ok
  by (auto simp: acc_ok_def)

theorem thread_create_error_missed_witness:
  "\<exists>s. accept_loop [(client_env 3)\<lparr>create_ret := EAGAIN\<rparr>] 5 acceptor_start = Some (Inr s) \<and>
     join_all (\<lambda>_. 0) 5 s = Some (Inl Uninitialised)"
  using thread_create_error_missed [of "(client_env 3)\<lparr>create_ret := EAGAIN\<rparr>" 3
      "entry_example 0 None" 5 "\<lambda>_. 0"]
  by (auto simp: client_env_def quiet_env_def)

end
