(* ===== verification/AcceptorList.thy ===== *)
theory AcceptorList
  imports Acceptor
begin

text \<open>
  The linked list of theory Acceptor in every state the program can get into, with entries that
  are lost, threads that were not started and a \<open>tail\<close> that points to a freed entry; and the
  flag \<open>abort\<close> in terms of the calls of \<open>pthread_join\<close>.
\<close>

section \<open>Linked entries\<close>

definition linked :: "(addr \<rightharpoonup> conn_entry) \<Rightarrow> addr option \<Rightarrow> addr list \<Rightarrow> bool" where
  "linked es p xs \<longleftrightarrow> lseg es p xs None \<and> distinct xs"

text \<open>An entry but for its link.\<close>

definition unlink :: "conn_entry \<Rightarrow> conn_entry" where
  "unlink en = en\<lparr>next_entry := None\<rparr>"

lemma unlink_simps [simp]:
  "unlink (en\<lparr>next_entry := q\<rparr>) = unlink en" "thread (unlink en) = thread en"
  "is_active (unlink en) = is_active en" "descriptor (unlink en) = descriptor en"
  by (simp_all add: unlink_def)

definition same_but_links :: "(addr \<rightharpoonup> conn_entry) \<Rightarrow> (addr \<rightharpoonup> conn_entry) \<Rightarrow> bool" where
  "same_but_links es es' \<longleftrightarrow> (\<forall>x. map_option unlink (es x) = map_option unlink (es' x))"

lemma same_but_links_refl [simp]: "same_but_links es es"
  by (simp add: same_but_links_def)

lemma same_but_links_upd:
  "es x = Some en \<Longrightarrow> same_but_links (es(x \<mapsto> en\<lparr>next_entry := q\<rparr>)) es"
  by (simp add: same_but_links_def)

lemma same_but_linksD:
  assumes "same_but_links es es'" and "es x = Some en"
  obtains en' where "es' x = Some en'" and "thread en' = thread en" and "is_active en' = is_active en"
    and "descriptor en' = descriptor en"
proof -
  have "map_option unlink (es' x) = map_option unlink (es x)" using assms(1) by (simp add: same_but_links_def)
  then obtain en' where en': "es' x = Some en'" "unlink en' = unlink en" using assms(2) by auto
  from en'(2) have "thread en' = thread en" "is_active en' = is_active en" "descriptor en' = descriptor en"
    using unlink_simps(2-4) by (metis, metis, metis)
  then show thesis using that en'(1) by blast
qed

lemma same_but_links_sym: "same_but_links es es' \<Longrightarrow> same_but_links es' es"
  by (simp add: same_but_links_def)

lemma same_but_links_None: "same_but_links es es' \<Longrightarrow> es x = None \<longleftrightarrow> es' x = None"
  by (simp add: same_but_links_def) (metis map_option_is_None)

lemma linked_first: "linked es p xs \<Longrightarrow> p = first_of xs"
  by (auto simp: linked_def dest: lseg_first)

lemma lseg_dom: "lseg es p xs q \<Longrightarrow> x \<in> set xs \<Longrightarrow> \<exists>en. es x = Some en"
  by (induction xs arbitrary: p) (auto split: option.splits)

lemma linked_dom: "linked es p xs \<Longrightarrow> x \<in> set xs \<Longrightarrow> \<exists>en. es x = Some en"
  unfolding linked_def using lseg_dom by blast

lemma linked_next:
  assumes "linked es p (ds @ d # rs)"
  obtains en where "es d = Some en" and "next_entry en = first_of rs"
  using assms lseg_first by (fastforce simp: linked_def lseg_append split: option.splits)

lemma linked_unique: "linked es p xs \<Longrightarrow> linked es p ys \<Longrightarrow> xs = ys"
proof -
  have "lseg es p xs None \<Longrightarrow> lseg es p ys None \<Longrightarrow> xs = ys"
  proof (induction xs arbitrary: p ys)
    case Nil
    then show ?case by (cases ys) auto
  next
    case (Cons x xs)
    then show ?case by (cases ys) (auto split: option.splits)
  qed
  then show "linked es p xs \<Longrightarrow> linked es p ys \<Longrightarrow> xs = ys" by (simp add: linked_def)
qed

text \<open>A change off the list, or of other members of an entry.\<close>

lemma linked_frame: "x \<notin> set xs \<Longrightarrow> linked (es(x := v)) p xs = linked es p xs"
  by (simp add: linked_def lseg_frame)

lemma lseg_upd: "es x = Some en \<Longrightarrow> next_entry en' = next_entry en \<Longrightarrow> lseg (es(x \<mapsto> en')) p xs q = lseg es p xs q"
  by (induction xs arbitrary: p) (auto split: option.splits)

lemma linked_upd:
  "es x = Some en \<Longrightarrow> next_entry en' = next_entry en \<Longrightarrow> linked (es(x \<mapsto> en')) p xs = linked es p xs"
  by (simp add: linked_def lseg_upd)

section \<open>Removal\<close>

lemma find_before_Inr:
  assumes "lseg es p (ds @ [d]) (Some c)" and "c \<notin> set (ds @ [d])" and "find_before es c fuel p = Some r"
  shows "r = Inr d"
  using assms
proof (induction ds arbitrary: p fuel)
  case Nil
  then show ?case by (cases fuel) (auto simp: entry_at_def split: option.splits)
next
  case (Cons x ds)
  obtain f where f: "fuel = Suc f" using Cons.prems(3) by (cases fuel) auto
  obtain en where x: "p = Some x" "es x = Some en" "lseg es (next_entry en) (ds @ [d]) (Some c)"
    using Cons.prems(1) by (auto split: option.splits)
  have "next_entry en \<noteq> Some c" using x(3) Cons.prems(2) by (cases ds) auto
  then show ?case using Cons.IH [OF x(3)] Cons.prems(2,3) f x by (simp add: entry_at_def)
qed

text \<open>\<open>SLIST_REMOVE\<close> of an element of the list does not fault and takes it out.\<close>

lemma slist_remove_linked:
  assumes ok: "linked es p (ds @ c # rs)" and rem: "slist_remove fuel c es p = Some r"
  obtains es' p' where "r = Inr (es', p')" and "linked (es'(c := None)) p' (ds @ rs)" and "same_but_links es' es"
proof -
  obtain cn where cn: "es c = Some cn" "next_entry cn = first_of rs" using ok by (rule linked_next)
  have dist: "distinct (ds @ c # rs)" and seg: "lseg es p ds (Some c)" "lseg es (next_entry cn) rs None"
    using ok cn(1) by (auto simp: linked_def lseg_append)
  have c: "c \<notin> set ds" "c \<notin> set rs" using dist by auto
  show thesis
  proof (cases ds rule: rev_cases)
    case Nil
    then have "p = Some c" using linked_first [OF ok] by simp
    then have "r = Inr (es, next_entry cn)" using rem cn by (simp add: slist_remove_def entry_at_def)
    then show thesis
      using Nil seg(2) dist c by (intro that [of es "next_entry cn"]) (simp_all add: linked_def lseg_frame)
  next
    case (snoc ds' d)
    then have p: "p \<noteq> Some c" using linked_first [OF ok] c(1) by (cases ds') auto
    have ok': "linked es p (ds' @ d # c # rs)" using ok snoc by simp
    obtain dn where dn: "es d = Some dn" "next_entry dn = first_of (c # rs)" using ok' by (rule linked_next)
    have d: "d \<notin> set ds'" "d \<notin> set rs" "d \<noteq> c" using dist snoc by auto
    have found: "x = Inr d" if "find_before es c fuel p = Some x" for x
      using find_before_Inr [of es p ds' d c fuel x] seg(1) c(1) snoc that by simp
    let ?es = "es(d \<mapsto> dn\<lparr>next_entry := next_entry cn\<rparr>)"
    have "r = Inr (?es, p)"
      using rem p cn(1) dn(1) found
      by (auto simp: slist_remove_def entry_at_def set_next_def bindL_eq_Some)
    moreover have "lseg (?es(c := None)) p ds' (Some d)"
      using seg(1) snoc c(1) d by (auto simp: lseg_append lseg_frame)
    moreover have "lseg (?es(c := None)) (next_entry cn) rs None"
      using seg(2) c(2) d by (simp add: lseg_frame)
    ultimately show thesis
      using snoc dist d(3) same_but_links_upd [of es d dn "next_entry cn", OF dn(1)]
      by (intro that [of ?es p]) (auto simp: linked_def lseg_append)
  qed
qed

lemma slist_remove_Some:
  assumes "linked es p (ds @ c # rs)" and "length ds \<le> fuel"
  shows "slist_remove fuel c es p \<noteq> None"
proof (cases ds rule: rev_cases)
  case Nil
  obtain cn where "es c = Some cn" using assms(1) by (rule linked_next)
  then show ?thesis using Nil linked_first [OF assms(1)] by (simp add: slist_remove_def entry_at_def)
next
  case (snoc ds' d)
  obtain cn where "es c = Some cn" using assms(1) by (rule linked_next)
  moreover have "find_before es c fuel p = Some (Inr d)"
    using assms snoc
    by (intro find_before_ok [of es p ds' d c]) (auto simp: linked_def lseg_append split: option.splits)
  ultimately show ?thesis by (simp add: slist_remove_def entry_at_def)
qed

section \<open>Insertion\<close>

text \<open>
  \<open>tail\<close> points to the last element of the list or to something that is not in the list: an
  entry that is freed or lost.
\<close>

definition acc_list :: "acceptor \<Rightarrow> addr list \<Rightarrow> bool" where
  "acc_list s xs \<longleftrightarrow> linked (entries s) (head s) xs \<and>
     (case tail s of None \<Rightarrow> xs = [] | Some u \<Rightarrow> u \<in> set xs \<longrightarrow> u = last xs)"

definition tail_on_list :: "acceptor \<Rightarrow> addr list \<Rightarrow> bool" where
  "tail_on_list s xs \<longleftrightarrow> (case tail s of None \<Rightarrow> True | Some u \<Rightarrow> u \<in> set xs)"

lemma new_connection_fault:
  assumes "new_connection e s = Inl f"
  shows "f = NullDeref \<and> new_block e = None \<or>
    f = UseAfterFree \<and> (\<exists>u. tail s = Some u \<and> entries s u = None)"
  using assms
  by (auto simp: new_connection_def slist_insert_after_def set_next_def entry_at_def bindR_def Let_def
      split: option.splits if_splits)

lemma new_connection_linked:
  assumes ok: "acc_list s xs" and new: "new_connection e s = Inr s'" and blk: "new_block e = Some (a, junk)"
    and fresh: "entries s a = None"
  shows "acc_list s' (if tail_on_list s xs then xs @ [a] else xs) \<and> tail s' = Some a \<and> joined s' = joined s \<and>
    same_but_links (entries s') ((entries s)(a \<mapsto> \<lparr>descriptor = accept_ret e, is_active = True,
      thread = (if create_ret e = 0 then Some (new_thread e) else None), next_entry = None\<rparr>))"
proof -
  let ?en = "\<lparr>descriptor = accept_ret e, is_active = True,
    thread = (if create_ret e = 0 then Some (new_thread e) else None), next_entry = next_entry junk\<rparr>"
  let ?es = "(entries s)(a \<mapsto> ?en)"
  have lnk: "linked (entries s) (head s) xs" using ok by (simp add: acc_list_def)
  have a: "a \<notin> set xs" using linked_dom [OF lnk] fresh by fastforce
  show ?thesis
  proof (cases "tail s")
    case None
    then have "xs = []" "head s = None" using ok by (auto simp: acc_list_def linked_def)
    then show ?thesis
      using new blk None
      by (auto simp: new_connection_def set_next_def entry_at_def acc_list_def linked_def tail_on_list_def
          same_but_links_def unlink_def)
  next
    case (Some u)
    then obtain un where un: "?es u = Some un"
      and s': "entries s' = (?es(a \<mapsto> ?en\<lparr>next_entry := next_entry un\<rparr>))(u \<mapsto>
        (if u = a then ?en\<lparr>next_entry := Some a\<rparr> else un\<lparr>next_entry := Some a\<rparr>))"
      "tail s' = Some a" "joined s' = joined s" "head s' = head s"
      using new blk
      by (auto simp: new_connection_def slist_insert_after_def set_next_def entry_at_def Let_def bindR_def
          split: option.splits if_splits)
    have same: "same_but_links (entries s') ((entries s)(a \<mapsto> ?en\<lparr>next_entry := None\<rparr>))"
      using un unfolding s'(1) by (auto simp: same_but_links_def unlink_def)
    show ?thesis
    proof (cases "u \<in> set xs")
      case False
      then have "linked (entries s') (head s') xs"
        unfolding s' using lnk a by (simp add: linked_frame)
      then show ?thesis using False Some a s' same by (simp add: acc_list_def tail_on_list_def)
    next
      case True
      then have u: "u = last xs" "u \<noteq> a" using ok Some a by (auto simp: acc_list_def)
      then obtain ds where ds: "xs = ds @ [u]" using True by (metis append_butlast_last_id empty_iff empty_set)
      have "next_entry un = None"
        using un u(2) lnk unfolding ds by (auto simp: linked_def lseg_append)
      moreover have "lseg (entries s) (head s) ds (Some u)" "u \<notin> set ds" "a \<notin> set ds" "distinct ds"
        using lnk a unfolding ds by (auto simp: linked_def lseg_append)
      ultimately have "linked (entries s') (head s') (xs @ [a])"
        using u(2) unfolding s' ds by (auto simp: linked_def lseg_append lseg_frame)
      then show ?thesis using True Some a s' same by (simp add: acc_list_def tail_on_list_def)
    qed
  qed
qed

section \<open>What has been joined and what has failed\<close>

definition failed_join :: "(nat \<times> s32) list \<Rightarrow> bool" where
  "failed_join js \<longleftrightarrow> (\<exists>(t, v) \<in> set js. sint v < 0)"

lemma failed_join_append [simp]: "failed_join (js @ js') \<longleftrightarrow> failed_join js \<or> failed_join js'"
  by (auto simp: failed_join_def)

lemma failed_join_simps [simp]: "\<not> failed_join []" "failed_join ((t, v) # js) \<longleftrightarrow> sint v < 0 \<or> failed_join js"
  by (auto simp: failed_join_def)

text \<open>\<open>accept\<close> or, in a way its documentation does not know, \<open>pthread_create\<close> fails with a negative number.\<close>

definition round_failed :: "accept_env \<Rightarrow> bool" where
  "round_failed e \<longleftrightarrow> sint (accept_ret e) < 0 \<and> \<not> would_block e \<or>
     0 < sint (accept_ret e) \<and> sint (create_ret e) < 0"

definition abort_told :: "bool \<Rightarrow> acceptor \<Rightarrow> bool" where
  "abort_told other s \<longleftrightarrow> (abort s \<longleftrightarrow> other \<or> failed_join (joined s))"

lemma join_loop_told:
  assumes "abort_told b s" and "join_loop e pfuel fuel previous current s = Some (Inr s')"
  shows "abort_told b s'"
  using assms
proof (induction fuel arbitrary: previous current s)
  case (Suc fuel)
  show ?case
  proof (cases current)
    case None
    then show ?thesis using Suc.prems by simp
  next
    case (Some c)
    then obtain en where en: "entry_at (entries s) current = Inr en"
      using Suc.prems(2) by (auto simp: bindL_eq_Some_Inr)
    show ?thesis
    proof (cases "finished e c")
      case None
      then show ?thesis using Suc Some en by simp
    next
      case ret: (Some ret)
      obtain s1 where s1: "join_entry s en ret = Inr s1"
        using Suc.prems(2) Some en ret by (auto simp: bindL_eq_Some_Inr)
      then have "abort_told b s1"
        using Suc.prems(1) by (auto simp: join_entry_def abort_told_def split: option.splits)
      then have told: "abort_told b (s1\<lparr>entries := es, head := p\<rparr>)" for es p by (simp add: abort_told_def)
      obtain es p where "slist_remove pfuel c (entries s1) (head s1) = Some (Inr (es, p))"
        using Suc.prems(2) Some en ret s1 by (auto simp: bindL_eq_Some_Inr)
      then show ?thesis
        using Suc.prems(2) Some en ret s1 Suc.IH [OF told]
        by (auto simp: bindL_eq_Some_Inr Let_def split: if_splits)
    qed
  qed
qed simp

lemma new_connection_told:
  assumes "abort_told b s" and "new_connection e s = Inr s'"
  shows "abort_told (b \<or> sint (create_ret e) < 0) s'"
proof -
  have "create_ret e = EAGAIN \<Longrightarrow> \<not> sint (create_ret e) < 0" by simp
  then show ?thesis
    using assms
    by (auto simp: new_connection_def Let_def abort_told_def bindR_eq_Inr split: option.splits)
qed

lemma accept_step_told:
  assumes "abort_told b s" and "accept_step e fuel s = Some (Inr (s', left))"
  shows "abort_told (b \<or> round_failed e) s'" and "left \<longrightarrow> abort s'"
proof -
  show "abort_told (b \<or> round_failed e) s'"
  proof (cases "sint (accept_ret e) < 0 \<and> \<not> would_block e")
    case True
    then show ?thesis using assms by (auto simp: accept_step_def abort_told_def round_failed_def)
  next
    case False
    then obtain s1 where s1: "(if 0 < sint (accept_ret e) then new_connection e s else Inr s) = Inr s1"
      "join_loop e fuel fuel None (head s1) s1 = Some (Inr s')"
      using assms(2) by (auto simp: accept_step_def bindL_eq_Some_Inr)
    have "abort_told (b \<or> round_failed e) s1"
      using new_connection_told [OF assms(1)] assms(1) s1(1) False
      by (auto simp: round_failed_def split: if_splits)
    then show ?thesis by (rule join_loop_told [OF _ s1(2)])
  qed
  show "left \<longrightarrow> abort s'"
    using assms(2) by (auto simp: accept_step_def bindL_eq_Some_Inr split: if_splits)
qed

lemma accept_loop_told:
  assumes "abort_told b s" and "accept_loop es fuel s = Some (Inr s')"
  shows "abort_told (b \<or> (\<exists>e \<in> set es. round_failed e)) s'"
  using assms
proof (induction es arbitrary: s b)
  case (Cons e es)
  show ?case
  proof (cases "abort s")
    case True
    then show ?thesis using Cons.prems by (auto simp: abort_told_def)
  next
    case False
    then obtain s1 left where s1: "accept_step e fuel s = Some (Inr (s1, left))"
      "(if left then Some (Inr s1) else accept_loop es fuel s1) = Some (Inr s')"
      using Cons.prems(2) by (auto simp: bindL_eq_Some_Inr)
    note told = accept_step_told [OF Cons.prems(1) s1(1)]
    show ?thesis
    proof (cases left)
      case True
      then show ?thesis using told s1(2) by (auto simp: abort_told_def)
    next
      case False
      then show ?thesis using Cons.IH [OF told(1)] s1(2) by (simp add: disj_assoc)
    qed
  qed
qed simp

text \<open>
  When the last loop ends, there was a proper list, and the threads of its entries have been joined
  in order.
\<close>

lemma join_all_list:
  assumes "join_all ret fuel s = Some (Inr s')"
  shows "\<exists>xs. linked (entries s) (head s) xs \<and> joined s' = joined s @ joins (entries s) ret xs \<and>
    (abort_told b s \<longrightarrow> abort_told b s') \<and> head s' = None \<and>
    (\<forall>x. entries s' x = (if x \<in> set xs then None else entries s x)) \<and>
    (\<forall>x \<in> set xs. \<exists>t. entry_thread (entries s) x = Some (Some t))"
  using assms
proof (induction fuel arbitrary: s)
  case (Suc fuel)
  show ?case
  proof (cases "head s")
    case None
    then show ?thesis using Suc.prems by (intro exI [of _ "[]"]) (simp add: linked_def)
  next
    case (Some c)
    obtain en s1 where en: "entries s c = Some en" and s1: "join_entry s en (ret c) = Inr s1"
      and rest: "join_all ret fuel (s1\<lparr>entries := (entries s1)(c := None), head := next_entry en\<rparr>) = Some (Inr s')"
      using Suc.prems Some by (auto simp: entry_at_def bindL_eq_Some_Inr split: option.splits)
    obtain t where t: "thread en = Some t" "s1 = s\<lparr>abort := abort s \<or> sint (ret c) < 0,
        joined := joined s @ [(t, ret c)]\<rparr>"
      using s1 by (auto simp: join_entry_def split: option.splits)
    let ?s = "s1\<lparr>entries := (entries s1)(c := None), head := next_entry en\<rparr>"
    obtain xs where xs: "linked (entries ?s) (head ?s) xs"
      "joined s' = joined ?s @ joins (entries ?s) ret xs" "abort_told b ?s \<longrightarrow> abort_told b s'" "head s' = None"
      "\<forall>x. entries s' x = (if x \<in> set xs then None else entries ?s x)"
      "\<forall>x \<in> set xs. \<exists>t. entry_thread (entries ?s) x = Some (Some t)"
      using Suc.IH [OF rest] by blast
    have c: "c \<notin> set xs" using linked_dom [OF xs(1)] by fastforce
    have "linked (entries s) (head s) (c # xs)"
      using xs(1) c Some en by (simp add: t(2) linked_def lseg_frame)
    moreover have "joins (entries ?s) ret xs = joins (entries s) ret xs"
      using c by (intro joins_cong) (auto simp: t(2) entry_thread_def)
    then have "joined s' = joined s @ joins (entries s) ret (c # xs)"
      using xs(2) en t by (simp add: entry_thread_def)
    moreover have "abort_told b s \<longrightarrow> abort_told b s'"
      using xs(3) by (auto simp: t(2) abort_told_def)
    moreover have "\<forall>x. entries s' x = (if x \<in> set (c # xs) then None else entries s x)"
      using xs(5) by (simp add: t(2))
    moreover have "\<forall>x \<in> set (c # xs). \<exists>t. entry_thread (entries s) x = Some (Some t)"
      using xs(6) c en t(1) by (auto simp: t(2) entry_thread_def split: if_splits)
    ultimately show ?thesis using xs(4) by blast
  qed
qed simp

end
