(* ===== verification/EntryLife.thy ===== *)
theory EntryLife
  imports AcceptorList
begin

text \<open>
  The entry of a connection, \<open>struct cl_entry\<close>, between the main thread that allocates, lists, joins
  and frees it (\<open>server/src/aesdsocket.c\<close>) and the thread of the connection that works with it and
  leaves its exit value in it (\<open>server/src/connection.c\<close>). The main thread works on the linked list
  of theory Acceptor, through its pointers \<open>head\<close>, \<open>tail\<close>, \<open>previous\<close> and \<open>current\<close>; its accesses to the
  entries and those of the threads are steps in any order. A failing \<open>accept\<close>, \<open>malloc\<close> and
  \<open>pthread_create\<close> are steps as well, and an access to a freed entry leads to the place \<open>Faulted\<close>. An
  exit signal can end the main loop at any time. The identifiers of threads are names that are not
  used twice.
\<close>

section \<open>Model\<close>

text \<open>
  Where the thread of a connection is: in front of \<open>is_active = false\<close>, in front of the store of
  its exit value, in front of \<open>pthread_exit\<close>, or gone.
\<close>

datatype handler_place = Handling | Inactive s32 | Stored s32 | Exited s32

text \<open>The exit value a thread has decided on, once \<open>is_active\<close> is false.\<close>

definition value_of :: "handler_place \<Rightarrow> s32 option" where
  "value_of pl = (case pl of Handling \<Rightarrow> None | Inactive v \<Rightarrow> Some v | Stored v \<Rightarrow> Some v | Exited v \<Rightarrow> Some v)"

lemma value_of_simps [simp]:
  "value_of Handling = None" "value_of (Inactive v) = Some v" "value_of (Stored v) = Some v"
  "value_of (Exited v) = Some v"
  by (simp_all add: value_of_def)

lemma value_of_None [simp]: "value_of pl = None \<longleftrightarrow> pl = Handling"
  by (cases pl) simp_all

text \<open>
  Where the main thread is: in front of \<open>accept\<close>; in the loop over the list, with \<open>previous\<close> and
  \<open>current\<close>; in \<open>pthread_join\<close> for the entry \<open>current\<close>; behind it with the pointer \<open>retval\<close> it has got;
  in front of a round of the last loop; or past an access that is undefined. The flag of
  \<open>Joining\<close> and \<open>Joined\<close> is set in the last loop, which has no \<open>previous\<close>.
\<close>

datatype main_place =
  Accepting
| Walking "addr option" "addr option"
| Joining bool "addr option" addr
| Joined bool "addr option" addr addr
| Ending
| Faulted fault

record entry_life =
  acc :: acceptor
  handlers :: "nat \<rightharpoonup> addr \<times> handler_place"
  main_at :: main_place

abbreviation live :: "entry_life \<Rightarrow> addr \<rightharpoonup> conn_entry" where "live l \<equiv> entries (acc l)"
abbreviation results :: "entry_life \<Rightarrow> (nat \<times> s32) list" where "results l \<equiv> joined (acc l)"

text \<open>\<open>malloc\<close> returns a block that is not in use, \<open>pthread_create\<close> a new thread if it succeeds.\<close>

definition fresh_env :: "accept_env \<Rightarrow> entry_life \<Rightarrow> bool" where
  "fresh_env e l \<longleftrightarrow> (\<forall>a junk. new_block e = Some (a, junk) \<longrightarrow> live l a = None) \<and>
     (create_ret e = 0 \<longrightarrow> handlers l (new_thread e) = None)"

text \<open>The threads after a connection has been accepted: one more if \<open>pthread_create\<close> succeeds.\<close>

definition start_thread ::
  "accept_env \<Rightarrow> (nat \<rightharpoonup> addr \<times> handler_place) \<Rightarrow> (nat \<rightharpoonup> addr \<times> handler_place)" where
  "start_thread e hs =
     (case new_block e of
        Some (a, junk) \<Rightarrow> if create_ret e = 0 then hs(new_thread e \<mapsto> (a, Handling)) else hs
      | None \<Rightarrow> hs)"

text \<open>
  The body of a loop behind \<open>pthread_join\<close>: the exit value is read through \<open>retval\<close>, the entry \<open>c\<close> is
  taken out of the list and freed, and the loop goes on behind \<open>previous\<close>, or at the head.
\<close>

definition reap ::
  "nat \<Rightarrow> bool \<Rightarrow> addr option \<Rightarrow> addr \<Rightarrow> addr \<Rightarrow> acceptor \<Rightarrow> (acceptor \<times> main_place) res option" where
  "reap fuel at_end previous c retval s =
     bindL (Some (entry_at (entries s) (Some retval))) (\<lambda>rn.
     bindL (Some (entry_at (entries s) (Some c))) (\<lambda>en.
     bindL (Some (join_entry s en (descriptor rn))) (\<lambda>s.
     if at_end then
       bindL (Some (entry_at (entries s) (head s))) (\<lambda>first.
       Some (Inr (s\<lparr>head := next_entry first, entries := (entries s)(c := None)\<rparr>, Ending)))
     else
       bindL (slist_remove fuel c (entries s) (head s)) (\<lambda>(es, first).
       let s = s\<lparr>entries := es(c := None), head := first\<rparr> in
       if previous = None then Some (Inr (s, Walking None first))
       else
         bindL (Some (entry_at (entries s) previous)) (\<lambda>pe.
         Some (Inr (s, Walking previous (next_entry pe))))))))"

text \<open>The store of a thread into its entry, together with its move to another place.\<close>

abbreviation stored :: "entry_life \<Rightarrow> nat \<Rightarrow> addr \<Rightarrow> conn_entry \<Rightarrow> handler_place \<Rightarrow> entry_life" where
  "stored l t a en pl \<equiv> l\<lparr>acc := (acc l)\<lparr>entries := (live l)(a \<mapsto> en)\<rparr>,
     handlers := (handlers l)(t \<mapsto> (a, pl))\<rparr>"

inductive life_step :: "entry_life \<Rightarrow> entry_life \<Rightarrow> bool" where
  accept_conn: "main_at l = Accepting \<Longrightarrow> \<not> abort (acc l) \<Longrightarrow> 0 < sint (accept_ret e) \<Longrightarrow> fresh_env e l \<Longrightarrow>
    new_connection e (acc l) = Inr s \<Longrightarrow>
    life_step l (l\<lparr>acc := s, handlers := start_thread e (handlers l), main_at := Walking None (head s)\<rparr>)"
| accept_fault: "main_at l = Accepting \<Longrightarrow> \<not> abort (acc l) \<Longrightarrow> 0 < sint (accept_ret e) \<Longrightarrow> fresh_env e l \<Longrightarrow>
    new_connection e (acc l) = Inl f \<Longrightarrow>
    life_step l (l\<lparr>main_at := Faulted f\<rparr>)"
| accept_nothing: "main_at l = Accepting \<Longrightarrow> \<not> abort (acc l) \<Longrightarrow>
    life_step l (l\<lparr>main_at := Walking None (head (acc l))\<rparr>)"
| accept_fails: "main_at l = Accepting \<Longrightarrow> \<not> abort (acc l) \<Longrightarrow>
    life_step l (l\<lparr>acc := (acc l)\<lparr>abort := True\<rparr>, main_at := Ending\<rparr>)"
| stop_loop: "main_at l = Accepting \<Longrightarrow> life_step l (l\<lparr>main_at := Ending\<rparr>)"
| walk_past: "main_at l = Walking p (Some c) \<Longrightarrow> live l c = Some en \<Longrightarrow> is_active en \<Longrightarrow>
    life_step l (l\<lparr>main_at := Walking (Some c) (next_entry en)\<rparr>)"
| walk_found: "main_at l = Walking p (Some c) \<Longrightarrow> live l c = Some en \<Longrightarrow> \<not> is_active en \<Longrightarrow>
    life_step l (l\<lparr>main_at := Joining False p c\<rparr>)"
| walk_fault: "main_at l = Walking p (Some c) \<Longrightarrow> live l c = None \<Longrightarrow>
    life_step l (l\<lparr>main_at := Faulted UseAfterFree\<rparr>)"
| walk_done: "main_at l = Walking p None \<Longrightarrow> life_step l (l\<lparr>main_at := Accepting\<rparr>)"
| take_first: "main_at l = Ending \<Longrightarrow> head (acc l) = Some c \<Longrightarrow>
    life_step l (l\<lparr>main_at := Joining True None c\<rparr>)"
| join_thread: "main_at l = Joining b p c \<Longrightarrow> live l c = Some en \<Longrightarrow> thread en = Some t \<Longrightarrow>
    handlers l t = Some (retval, Exited v) \<Longrightarrow>
    life_step l (l\<lparr>main_at := Joined b p c retval\<rparr>)"
| join_fault: "main_at l = Joining b p c \<Longrightarrow>
    (case live l c of None \<Rightarrow> f = UseAfterFree | Some en \<Rightarrow> thread en = None \<and> f = Uninitialised) \<Longrightarrow>
    life_step l (l\<lparr>main_at := Faulted f\<rparr>)"
| reap_entry: "main_at l = Joined b p c retval \<Longrightarrow> reap fuel b p c retval (acc l) = Some (Inr (s, m)) \<Longrightarrow>
    life_step l (l\<lparr>acc := s, main_at := m\<rparr>)"
| reap_fault: "main_at l = Joined b p c retval \<Longrightarrow> reap fuel b p c retval (acc l) = Some (Inl f) \<Longrightarrow>
    life_step l (l\<lparr>main_at := Faulted f\<rparr>)"
| deactivate: "handlers l t = Some (a, Handling) \<Longrightarrow> live l a = Some en \<Longrightarrow> v = 0 \<or> v = - 1 \<Longrightarrow>
    life_step l (stored l t a (en\<lparr>is_active := False\<rparr>) (Inactive v))"
| store_value: "handlers l t = Some (a, Inactive v) \<Longrightarrow> live l a = Some en \<Longrightarrow>
    life_step l (stored l t a (en\<lparr>descriptor := v\<rparr>) (Stored v))"
| exit_thread: "handlers l t = Some (a, Stored v) \<Longrightarrow>
    life_step l (l\<lparr>handlers := (handlers l)(t \<mapsto> (a, Exited v))\<rparr>)"
| thread_fault: "handlers l t = Some (a, pl) \<Longrightarrow> pl = Handling \<or> pl = Inactive v \<Longrightarrow> live l a = None \<Longrightarrow>
    life_step l (l\<lparr>main_at := Faulted UseAfterFree\<rparr>)"

definition life_start :: entry_life where
  "life_start = \<lparr>acc = acceptor_start, handlers = Map.empty, main_at = Accepting\<rparr>"

abbreviation life_run :: "entry_life \<Rightarrow> bool" where
  "life_run l \<equiv> life_step\<^sup>*\<^sup>* life_start l"

section \<open>Who owns an entry\<close>

text \<open>
  An allocated entry with a thread: the thread has not been joined, \<open>is_active\<close> is set while it handles
  its connection, and its exit value is in the entry once it is stored. An entry whose thread
  could not be started stays active. The entry of a thread that has not been joined is allocated;
  and a joined thread has exited with the value the main thread has read.
\<close>

definition value_ok :: "conn_entry \<Rightarrow> handler_place \<Rightarrow> bool" where
  "value_ok en pl \<longleftrightarrow> (is_active en \<longleftrightarrow> pl = Handling) \<and>
     (\<forall>v. pl = Stored v \<or> pl = Exited v \<longrightarrow> descriptor en = v)"

definition owned :: "(addr \<rightharpoonup> conn_entry) \<Rightarrow> (nat \<rightharpoonup> addr \<times> handler_place) \<Rightarrow> (nat \<times> s32) list \<Rightarrow> bool" where
  "owned es hs js \<longleftrightarrow> (\<forall>a en. es a = Some en \<longrightarrow>
     (case thread en of None \<Rightarrow> is_active en
      | Some t \<Rightarrow> \<exists>pl. hs t = Some (a, pl) \<and> t \<notin> fst ` set js \<and> value_ok en pl))"

definition attached :: "(addr \<rightharpoonup> conn_entry) \<Rightarrow> (nat \<rightharpoonup> addr \<times> handler_place) \<Rightarrow> (nat \<times> s32) list \<Rightarrow> bool" where
  "attached es hs js \<longleftrightarrow> (\<forall>t a pl. hs t = Some (a, pl) \<longrightarrow> t \<notin> fst ` set js \<longrightarrow>
     (\<exists>en. es a = Some en \<and> thread en = Some t))"

definition joined_ok :: "(nat \<rightharpoonup> addr \<times> handler_place) \<Rightarrow> (nat \<times> s32) list \<Rightarrow> bool" where
  "joined_ok hs js \<longleftrightarrow> distinct (map fst js) \<and>
     (\<forall>t v. (t, v) \<in> set js \<longrightarrow> (\<exists>a. hs t = Some (a, Exited v)))"

definition threads_ok :: "(addr \<rightharpoonup> conn_entry) \<Rightarrow> (nat \<rightharpoonup> addr \<times> handler_place) \<Rightarrow> (nat \<times> s32) list \<Rightarrow> bool" where
  "threads_ok es hs js \<longleftrightarrow> owned es hs js \<and> attached es hs js \<and> joined_ok hs js"

lemma value_ok_simps [simp]:
  "value_ok en Handling = is_active en" "value_ok en (Inactive v) = (\<not> is_active en)"
  "value_ok en (Stored v) = (\<not> is_active en \<and> descriptor en = v)"
  "value_ok en (Exited v) = (\<not> is_active en \<and> descriptor en = v)"
  by (auto simp: value_ok_def)

lemma ownedE:
  assumes "owned es hs js" and "es a = Some en" and "thread en = Some t"
  obtains pl where "hs t = Some (a, pl)" and "t \<notin> fst ` set js" and "value_ok en pl"
proof -
  have "case thread en of None \<Rightarrow> is_active en
      | Some t \<Rightarrow> \<exists>pl. hs t = Some (a, pl) \<and> t \<notin> fst ` set js \<and> value_ok en pl"
    using assms(1,2) unfolding owned_def by (elim allE impE)
  then show thesis using assms(3) that by fastforce
qed

lemma attachedE:
  assumes "attached es hs js" and "hs t = Some (a, pl)" and "t \<notin> fst ` set js"
  obtains en where "es a = Some en" and "thread en = Some t"
proof -
  have "\<exists>en. es a = Some en \<and> thread en = Some t"
    using assms unfolding attached_def by metis
  then show thesis using that by blast
qed

lemma threads_okD:
  "threads_ok es hs js \<Longrightarrow> owned es hs js" "threads_ok es hs js \<Longrightarrow> attached es hs js"
  "threads_ok es hs js \<Longrightarrow> joined_ok hs js"
  by (simp_all add: threads_ok_def)

lemma unstarted_active: "owned es hs js \<Longrightarrow> es a = Some en \<Longrightarrow> thread en = None \<Longrightarrow> is_active en"
  unfolding owned_def by fastforce

lemma fresh_thread: "joined_ok hs js \<Longrightarrow> hs t = None \<Longrightarrow> t \<notin> fst ` set js"
  by (force simp: joined_ok_def)

lemma threads_ok_links:
  assumes same: "same_but_links es' es" and ok: "threads_ok es hs js"
  shows "threads_ok es' hs js"
proof -
  have "owned es' hs js"
    unfolding owned_def
  proof (intro allI impI)
    fix a en
    assume "es' a = Some en"
    then obtain en' where en': "es a = Some en'" "thread en' = thread en" "is_active en' = is_active en"
        "descriptor en' = descriptor en"
      by (rule same_but_linksD [OF same])
    then have val: "value_ok en pl \<longleftrightarrow> value_ok en' pl" for pl by (simp add: value_ok_def)
    have "owned es hs js" using ok by (simp add: threads_ok_def)
    then have "case thread en' of None \<Rightarrow> is_active en'
        | Some t \<Rightarrow> \<exists>pl. hs t = Some (a, pl) \<and> t \<notin> fst ` set js \<and> value_ok en' pl"
      using en'(1) unfolding owned_def by (elim allE impE)
    then show "case thread en of None \<Rightarrow> is_active en
        | Some t \<Rightarrow> \<exists>pl. hs t = Some (a, pl) \<and> t \<notin> fst ` set js \<and> value_ok en pl"
      by (simp only: val en'(2,3))
  qed
  moreover have "attached es' hs js"
    unfolding attached_def
  proof (intro allI impI)
    fix t a pl
    assume "hs t = Some (a, pl)" "t \<notin> fst ` set js"
    then obtain en where en: "es a = Some en" "thread en = Some t"
      by (rule attachedE [OF threads_okD(2) [OF ok]])
    obtain en' where "es' a = Some en'" "thread en' = thread en"
      by (rule same_but_linksD [OF same_but_links_sym [OF same] en(1)])
    then show "\<exists>en. es' a = Some en \<and> thread en = Some t" using en(2) by auto
  qed
  ultimately show ?thesis using ok by (simp add: threads_ok_def)
qed

text \<open>A thread that has not exited has its entry.\<close>

lemma handler_owns:
  assumes "threads_ok es hs js" and "hs t = Some (a, pl)" and "\<forall>v. pl \<noteq> Exited v"
  obtains en where "es a = Some en" and "thread en = Some t" and "t \<notin> fst ` set js"
proof -
  have "t \<notin> fst ` set js" using assms by (force simp: threads_ok_def joined_ok_def)
  moreover from this obtain en where "es a = Some en" "thread en = Some t"
    by (rule attachedE [OF threads_okD(2) [OF assms(1)] assms(2)])
  ultimately show thesis by (intro that)
qed

text \<open>A step of a thread that works on its entry.\<close>

lemma threads_ok_handler:
  assumes ok: "threads_ok es hs js" and t: "hs t = Some (a, pl)" "\<forall>v. pl \<noteq> Exited v"
    and en: "thread en = Some t" "value_ok en pl'"
  shows "threads_ok (es(a \<mapsto> en)) (hs(t \<mapsto> (a, pl'))) js"
proof -
  obtain old where old: "es a = Some old" "thread old = Some t" "t \<notin> fst ` set js"
    using ok t by (rule handler_owns)
  have "owned (es(a \<mapsto> en)) (hs(t \<mapsto> (a, pl'))) js"
    unfolding owned_def
  proof (intro allI impI)
    fix c cn
    assume c: "(es(a \<mapsto> en)) c = Some cn"
    show "case thread cn of None \<Rightarrow> is_active cn
        | Some u \<Rightarrow> \<exists>pl. (hs(t \<mapsto> (a, pl'))) u = Some (c, pl) \<and> u \<notin> fst ` set js \<and> value_ok cn pl"
    proof (cases "c = a")
      case True
      then show ?thesis using c en old(3) by simp
    next
      case False
      then have cn: "es c = Some cn" using c by simp
      have own: "owned es hs js" using ok by (simp add: threads_ok_def)
      show ?thesis
      proof (cases "thread cn")
        case None
        then show ?thesis using unstarted_active [OF own cn] by simp
      next
        case (Some u)
        obtain pl where "hs u = Some (c, pl)" "u \<notin> fst ` set js" "value_ok cn pl"
          by (rule ownedE [OF own cn Some])
        moreover from this have "u \<noteq> t" using t(1) False by auto
        ultimately show ?thesis using Some by simp
      qed
    qed
  qed
  moreover have "attached (es(a \<mapsto> en)) (hs(t \<mapsto> (a, pl'))) js"
    unfolding attached_def
  proof (intro allI impI)
    fix u c pl
    assume u: "(hs(t \<mapsto> (a, pl'))) u = Some (c, pl)" "u \<notin> fst ` set js"
    show "\<exists>cn. (es(a \<mapsto> en)) c = Some cn \<and> thread cn = Some u"
    proof (cases "u = t")
      case True
      then show ?thesis using u(1) en(1) by simp
    next
      case False
      then have "hs u = Some (c, pl)" using u(1) by simp
      then obtain cn where "es c = Some cn" "thread cn = Some u"
        by (rule attachedE [OF threads_okD(2) [OF ok] _ u(2)])
      moreover from this have "c \<noteq> a" using old(1,2) False by auto
      ultimately show ?thesis by simp
    qed
  qed
  moreover have "joined_ok (hs(t \<mapsto> (a, pl'))) js"
    using ok t(2) old(3) by (auto simp: threads_ok_def joined_ok_def rev_image_eqI)
  ultimately show ?thesis by (simp add: threads_ok_def)
qed

text \<open>A new entry, with a thread or without.\<close>

lemma threads_ok_start:
  assumes ok: "threads_ok es hs js" and fresh: "es a = None" "hs t = None" and en: "thread en = Some t" "is_active en"
  shows "threads_ok (es(a \<mapsto> en)) (hs(t \<mapsto> (a, Handling))) js"
proof -
  note own = threads_okD(1) [OF ok] and att = threads_okD(2) [OF ok] and joi = threads_okD(3) [OF ok]
  have new: "t \<notin> fst ` set js" by (rule fresh_thread [OF joi fresh(2)])
  have "owned (es(a \<mapsto> en)) (hs(t \<mapsto> (a, Handling))) js"
    unfolding owned_def
  proof (intro allI impI)
    fix c cn
    assume c: "(es(a \<mapsto> en)) c = Some cn"
    show "case thread cn of None \<Rightarrow> is_active cn
        | Some u \<Rightarrow> \<exists>pl. (hs(t \<mapsto> (a, Handling))) u = Some (c, pl) \<and> u \<notin> fst ` set js \<and> value_ok cn pl"
    proof (cases "c = a")
      case False
      then have cn: "es c = Some cn" using c by simp
      show ?thesis
      proof (cases "thread cn")
        case None
        then show ?thesis using unstarted_active [OF own cn] by simp
      next
        case (Some u)
        obtain pl where "hs u = Some (c, pl)" "u \<notin> fst ` set js" "value_ok cn pl"
          by (rule ownedE [OF own cn Some])
        moreover from this have "u \<noteq> t" using fresh(2) by auto
        ultimately show ?thesis using Some by simp
      qed
    qed (use c en new in simp)
  qed
  moreover have "attached (es(a \<mapsto> en)) (hs(t \<mapsto> (a, Handling))) js"
    unfolding attached_def
  proof (intro allI impI)
    fix u c pl
    assume u: "(hs(t \<mapsto> (a, Handling))) u = Some (c, pl)" "u \<notin> fst ` set js"
    show "\<exists>cn. (es(a \<mapsto> en)) c = Some cn \<and> thread cn = Some u"
    proof (cases "u = t")
      case True
      then show ?thesis using u(1) en(1) by simp
    next
      case False
      then have "hs u = Some (c, pl)" using u(1) by simp
      then obtain cn where "es c = Some cn" "thread cn = Some u" by (rule attachedE [OF att _ u(2)])
      moreover from this have "c \<noteq> a" using fresh(1) by auto
      ultimately show ?thesis by simp
    qed
  qed
  moreover have "joined_ok (hs(t \<mapsto> (a, Handling))) js"
    using joi new by (auto simp: joined_ok_def rev_image_eqI)
  ultimately show ?thesis by (simp add: threads_ok_def)
qed

lemma threads_ok_unstarted:
  assumes ok: "threads_ok es hs js" and fresh: "es a = None" and en: "thread en = None" "is_active en"
  shows "threads_ok (es(a \<mapsto> en)) hs js"
proof -
  have "owned (es(a \<mapsto> en)) hs js" using threads_okD(1) [OF ok] en by (simp add: owned_def)
  moreover have "attached (es(a \<mapsto> en)) hs js"
    using threads_okD(2) [OF ok] fresh unfolding attached_def by (metis fun_upd_other option.distinct(1))
  ultimately show ?thesis using threads_okD(3) [OF ok] by (simp add: threads_ok_def)
qed

text \<open>A thread is joined and its entry freed.\<close>

lemma threads_ok_free:
  assumes ok: "threads_ok es hs js" and a: "es a = Some en" "thread en = Some t" "hs t = Some (c, Exited v)"
    and val: "descriptor en = v"
  shows "threads_ok (es(a := None)) hs (js @ [(t, v)])"
proof -
  note own = threads_okD(1) [OF ok] and att = threads_okD(2) [OF ok] and joi = threads_okD(3) [OF ok]
  obtain pl where t: "hs t = Some (a, pl)" "t \<notin> fst ` set js" by (rule ownedE [OF own a(1,2)])
  have "owned (es(a := None)) hs (js @ [(t, v)])"
    unfolding owned_def
  proof (intro allI impI)
    fix x xn
    assume "(es(a := None)) x = Some xn"
    then have x: "x \<noteq> a" "es x = Some xn" by (auto split: if_splits)
    show "case thread xn of None \<Rightarrow> is_active xn
        | Some u \<Rightarrow> \<exists>pl. hs u = Some (x, pl) \<and> u \<notin> fst ` set (js @ [(t, v)]) \<and> value_ok xn pl"
    proof (cases "thread xn")
      case None
      then show ?thesis using unstarted_active [OF own x(2)] by simp
    next
      case (Some u)
      obtain pl where "hs u = Some (x, pl)" "u \<notin> fst ` set js" "value_ok xn pl"
        by (rule ownedE [OF own x(2) Some])
      moreover from this have "u \<noteq> t" using t(1) x(1) by auto
      ultimately show ?thesis using Some by simp
    qed
  qed
  moreover have "attached (es(a := None)) hs (js @ [(t, v)])"
    unfolding attached_def
  proof (intro allI impI)
    fix u x pl
    assume u: "hs u = Some (x, pl)" "u \<notin> fst ` set (js @ [(t, v)])"
    then have "u \<notin> fst ` set js" "u \<noteq> t" by auto
    then obtain xn where "es x = Some xn" "thread xn = Some u" by (metis attachedE [OF att u(1)])
    moreover from this have "x \<noteq> a" using a(1,2) \<open>u \<noteq> t\<close> by auto
    ultimately show "\<exists>xn. (es(a := None)) x = Some xn \<and> thread xn = Some u" by simp
  qed
  moreover have "joined_ok hs (js @ [(t, v)])"
    using joi t(2) a(3) by (auto simp: joined_ok_def)
  ultimately show ?thesis by (simp add: threads_ok_def)
qed

section \<open>Where the main thread is in the list\<close>

definition last_of :: "addr list \<Rightarrow> addr option" where
  "last_of ds = (if ds = [] then None else Some (last ds))"

lemma last_of_simps [simp]: "last_of [] = None" "last_of (ds @ [d]) = Some d"
  "last_of ds = None \<longleftrightarrow> ds = []"
  by (simp_all add: last_of_def)

text \<open>
  What a fault comes from: \<open>malloc\<close> has returned \<open>NULL\<close>; a connection is accepted while \<open>tail\<close> points to
  a freed entry; or, in the last loop, the thread of the first entry could not be started.
\<close>

definition fault_ok :: "acceptor \<Rightarrow> fault \<Rightarrow> bool" where
  "fault_ok s f \<longleftrightarrow> f = NullDeref \<or>
     f = UseAfterFree \<and> (\<exists>u. tail s = Some u \<and> entries s u = None) \<or>
     f = Uninitialised \<and> (\<exists>c en. head s = Some c \<and> entries s c = Some en \<and> thread en = None)"

definition at_place :: "entry_life \<Rightarrow> addr list \<Rightarrow> bool" where
  "at_place l xs \<longleftrightarrow>
     (case main_at l of
        Walking p cur \<Rightarrow> \<exists>ds rs. xs = ds @ rs \<and> p = last_of ds \<and> cur = first_of rs
      | Joining b p c \<Rightarrow>
          (\<exists>ds rs. xs = ds @ c # rs \<and> p = last_of ds \<and> (b \<longrightarrow> ds = [])) \<and>
          (b \<or> (\<exists>en. live l c = Some en \<and> \<not> is_active en))
      | Joined b p c retval \<Rightarrow>
          (\<exists>ds rs. xs = ds @ c # rs \<and> p = last_of ds \<and> (b \<longrightarrow> ds = [])) \<and> retval = c \<and>
          (\<exists>en t v. live l c = Some en \<and> thread en = Some t \<and> handlers l t = Some (c, Exited v))
      | Faulted f \<Rightarrow> fault_ok (acc l) f
      | _ \<Rightarrow> True)"

definition main_ok :: "entry_life \<Rightarrow> bool" where
  "main_ok l \<longleftrightarrow> (\<exists>xs. acc_list (acc l) xs \<and> at_place l xs)"

lemma acc_list_linked: "acc_list s xs \<Longrightarrow> linked (entries s) (head s) xs"
  by (simp add: acc_list_def)

lemma acc_list_removed:
  assumes "acc_list s (ds @ c # rs)" and "linked es p (ds @ rs)"
  shows "acc_list (s\<lparr>abort := b, joined := js, entries := es, head := p\<rparr>) (ds @ rs)"
proof -
  have "distinct (ds @ c # rs)" using assms(1) by (simp add: acc_list_def linked_def)
  then show ?thesis
    using assms unfolding acc_list_def by (cases rs) (auto split: option.splits)
qed

lemma reap_ok:
  assumes ok: "acc_list s (ds @ c # rs)" and en: "entries s c = Some en" "thread en = Some t"
    and at_end: "b \<longrightarrow> ds = []" and reap: "reap fuel b (last_of ds) c c s = Some r"
  obtains s' where "r = Inr (s', if b then Ending else Walking (last_of ds) (first_of rs))"
    and "acc_list s' (ds @ rs)" and "joined s' = joined s @ [(t, descriptor en)]"
    and "same_but_links (entries s') ((entries s)(c := None))"
    and "tail s' = tail s" and "abort s' \<longleftrightarrow> abort s \<or> sint (descriptor en) < 0"
proof -
  note lnk = acc_list_linked [OF ok]
  let ?s = "s\<lparr>abort := abort s \<or> sint (descriptor en) < 0, joined := joined s @ [(t, descriptor en)]\<rparr>"
  show thesis
  proof (cases b)
    case True
    then have ds: "ds = []" using at_end by simp
    then have head: "head s = Some c" "next_entry en = first_of rs"
      using linked_first [OF lnk] linked_next [of "entries s" "head s" "[]" c rs] lnk en(1) by auto
    have "linked ((entries s)(c := None)) (first_of rs) rs"
      using lnk en(1) ds head by (auto simp: linked_def lseg_frame)
    then have "acc_list (?s\<lparr>entries := (entries s)(c := None), head := next_entry en\<rparr>) (ds @ rs)"
      using acc_list_removed [OF ok] ds head(2) by simp
    moreover have "r = Inr (?s\<lparr>entries := (entries s)(c := None), head := next_entry en\<rparr>, Ending)"
      using reap True en head(1) by (auto simp: reap_def entry_at_def join_entry_def)
    ultimately show thesis
      using True by (intro that [of "?s\<lparr>entries := (entries s)(c := None), head := next_entry en\<rparr>"]) simp_all
  next
    case False
    then obtain q where q: "slist_remove fuel c (entries s) (head s) = Some q"
      using reap en by (auto simp: reap_def entry_at_def join_entry_def bindL_def split: option.splits)
    obtain es p where es: "q = Inr (es, p)" "linked (es(c := None)) p (ds @ rs)" "same_but_links es (entries s)"
      using lnk q by (rule slist_remove_linked)
    let ?s' = "?s\<lparr>entries := es(c := None), head := p\<rparr>"
    have list: "acc_list ?s' (ds @ rs)" using acc_list_removed [OF ok es(2)] by simp
    have same: "same_but_links (entries ?s') ((entries s)(c := None))"
      using es(3) by (simp add: same_but_links_def)
    have r: "r = Inr (?s', Walking (last_of ds) (first_of rs))"
    proof (cases ds rule: rev_cases)
      case Nil
      then show ?thesis
        using reap False en q es linked_first [OF es(2)] by (simp add: reap_def entry_at_def join_entry_def Let_def)
    next
      case (snoc ds' d)
      then obtain dn where "(es(c := None)) d = Some dn" "next_entry dn = first_of rs"
        using linked_next [of "es(c := None)" p ds' d rs] es(2) by auto
      then show ?thesis
        using snoc reap False en q es(1) by (simp add: reap_def entry_at_def join_entry_def Let_def)
    qed
    show thesis by (rule that [of ?s']) (use r list same False in simp_all)
  qed
qed

lemma reap_Some:
  assumes ok: "acc_list s (ds @ c # rs)" and en: "entries s c = Some en" "thread en = Some t"
    and at_end: "b \<longrightarrow> ds = []"
  shows "\<exists>r. reap (length ds) b (last_of ds) c c s = Some r"
proof -
  note lnk = acc_list_linked [OF ok]
  obtain q where q: "slist_remove (length ds) c (entries s) (head s) = Some q"
    using slist_remove_Some [OF lnk, of "length ds"] by auto
  obtain es p where es: "q = Inr (es, p)"
    by (rule slist_remove_linked [OF lnk q])
  show ?thesis
    using en q es by (simp add: reap_def entry_at_def join_entry_def Let_def bindL_def split: sum.splits option.splits)
qed

section \<open>The steps keep it\<close>

definition life_ok :: "entry_life \<Rightarrow> bool" where
  "life_ok l \<longleftrightarrow> threads_ok (live l) (handlers l) (results l) \<and> main_ok l"

lemma life_okD: "life_ok l \<Longrightarrow> threads_ok (live l) (handlers l) (results l)" "life_ok l \<Longrightarrow> main_ok l"
  by (simp_all add: life_ok_def)

lemma main_okE:
  assumes "life_ok l"
  obtains xs where "acc_list (acc l) xs" and "at_place l xs"
  using assms by (auto simp: life_ok_def main_ok_def)

lemma at_place_thread:
  assumes "at_place l xs" and "handlers l t = Some (a, pl)" and "\<forall>v. pl \<noteq> Exited v" and "live l a = Some en"
    and "thread en = Some t" and "thread en' = Some t" and "is_active en' \<longrightarrow> is_active en"
  shows "at_place (stored l t a en' pl') xs"
proof (cases "main_at l")
  case (Joined b p c retval)
  then obtain cn u v where c: "live l c = Some cn" "thread cn = Some u" "handlers l u = Some (c, Exited v)"
    using assms(1) by (auto simp: at_place_def)
  then have "u \<noteq> t" using assms(2,3) by auto
  then have "c \<noteq> a" using c assms(4,5) by auto
  then show ?thesis using Joined assms(1) c \<open>u \<noteq> t\<close> by (simp add: at_place_def)
next
  case (Faulted f)
  have "x \<noteq> a" if "live l x = None \<or> (\<exists>xn. live l x = Some xn \<and> thread xn = None)" for x
    using that assms(4,5) by auto
  then have "fault_ok ((acc l)\<lparr>entries := (live l)(a \<mapsto> en')\<rparr>) f" if "fault_ok (acc l) f"
    using that unfolding fault_ok_def by fastforce
  then show ?thesis using assms(1) Faulted by (simp add: at_place_def)
qed (use assms in \<open>auto simp: at_place_def\<close>)

lemma life_ok_thread:
  assumes ok: "life_ok l" and t: "handlers l t = Some (a, pl)" "\<forall>v. pl \<noteq> Exited v" and en: "live l a = Some en"
    and en': "thread en' = thread en" "next_entry en' = next_entry en" "is_active en' \<longrightarrow> is_active en"
      "value_ok en' pl'"
  shows "life_ok (stored l t a en' pl')"
proof -
  obtain xs where xs: "acc_list (acc l) xs" "at_place l xs" using ok by (rule main_okE)
  obtain on where "live l a = Some on" "thread on = Some t"
    using life_okD(1) [OF ok] t by (rule handler_owns)
  then have thr: "thread en = Some t" using en by simp
  have "acc_list (acc (stored l t a en' pl')) xs"
    using xs(1) linked_upd [of "live l" a en en'] en en'(2) by (simp add: acc_list_def)
  then have "main_ok (stored l t a en' pl')"
    using at_place_thread [OF xs(2) t en thr, of en'] en'(1,3) thr by (auto simp: main_ok_def)
  moreover have "threads_ok ((live l)(a \<mapsto> en')) ((handlers l)(t \<mapsto> (a, pl'))) (results l)"
    by (rule threads_ok_handler [OF life_okD(1) [OF ok] t]) (use en' thr in simp_all)
  ultimately show ?thesis by (simp add: life_ok_def)
qed

lemma walk_start: "acc_list s xs \<Longrightarrow>
    \<exists>ys. acc_list s ys \<and> (\<exists>ds rs. ys = ds @ rs \<and> None = last_of ds \<and> head s = first_of rs)"
  using linked_first [OF acc_list_linked] by (metis append_Nil last_of_simps(1))

lemma accept_conn_ok:
  assumes ok: "life_ok l" and acc: "main_at l = Accepting" and fresh: "fresh_env e l"
    and new: "new_connection e (acc l) = Inr s"
  shows "life_ok (l\<lparr>acc := s, handlers := start_thread e (handlers l), main_at := Walking None (head s)\<rparr>)"
proof -
  obtain xs where xs: "acc_list (acc l) xs" using ok by (rule main_okE)
  obtain a junk where blk: "new_block e = Some (a, junk)" using new by (auto simp: new_connection_def split: option.splits)
  then have a: "live l a = None" using fresh by (simp add: fresh_env_def)
  let ?en = "\<lparr>descriptor = accept_ret e, is_active = True,
    thread = (if create_ret e = 0 then Some (new_thread e) else None), next_entry = None\<rparr>"
  have res: "acc_list s (if tail_on_list (acc l) xs then xs @ [a] else xs)" "joined s = results l"
    "same_but_links (entries s) ((live l)(a \<mapsto> ?en))"
    using new_connection_linked [OF xs new blk a] by simp_all
  have "threads_ok ((live l)(a \<mapsto> ?en)) (start_thread e (handlers l)) (results l)"
  proof (cases "create_ret e = 0")
    case True
    then have "handlers l (new_thread e) = None" using fresh by (simp add: fresh_env_def)
    then show ?thesis
      using threads_ok_start [OF life_okD(1) [OF ok] a] True blk by (simp add: start_thread_def)
  next
    case False
    then show ?thesis
      using threads_ok_unstarted [OF life_okD(1) [OF ok] a] blk by (simp add: start_thread_def)
  qed
  then have "threads_ok (entries s) (start_thread e (handlers l)) (joined s)"
    using threads_ok_links [OF res(3)] res(2) by simp
  moreover have "main_ok (l\<lparr>acc := s, handlers := start_thread e (handlers l), main_at := Walking None (head s)\<rparr>)"
    using walk_start [OF res(1)] by (simp add: main_ok_def at_place_def)
  ultimately show ?thesis by (simp add: life_ok_def)
qed

text \<open>What the main thread finds behind \<open>pthread_join\<close>, and what it makes of it.\<close>

lemma reaped:
  assumes ok: "life_ok l" and at: "main_at l = Joined b p c retval" and reap: "reap fuel b p c retval (acc l) = Some r"
  obtains ds rs en t s where "acc_list (acc l) (ds @ c # rs)" and "live l c = Some en" and "thread en = Some t"
    and "handlers l t = Some (c, Exited (descriptor en))"
    and "r = Inr (s, if b then Ending else Walking (last_of ds) (first_of rs))" and "acc_list s (ds @ rs)"
    and "joined s = results l @ [(t, descriptor en)]" and "same_but_links (entries s) ((live l)(c := None))"
    and "tail s = tail (acc l)"
proof -
  obtain xs where xs: "acc_list (acc l) xs" "at_place l xs" using ok by (rule main_okE)
  then obtain ds rs en t v where xs': "xs = ds @ c # rs" "p = last_of ds" "b \<longrightarrow> ds = []" "retval = c"
    and en: "live l c = Some en" "thread en = Some t" "handlers l t = Some (c, Exited v)"
    using at unfolding at_place_def by simp blast
  have "descriptor en = v"
    using ownedE [OF threads_okD(1) [OF life_okD(1) [OF ok]] en(1,2)] en(3) by fastforce
  moreover obtain s where "r = Inr (s, if b then Ending else Walking (last_of ds) (first_of rs))"
    "acc_list s (ds @ rs)" "joined s = results l @ [(t, descriptor en)]"
    "same_but_links (entries s) ((live l)(c := None))" "tail s = tail (acc l)"
    by (rule reap_ok [of "acc l" ds c rs en t b fuel r]) (use xs xs' en reap in simp_all)
  ultimately show thesis using that [of ds rs en t s] xs(1) xs'(1) en by simp
qed

lemma reap_entry_ok:
  assumes ok: "life_ok l" and at: "main_at l = Joined b p c retval" and reap: "reap fuel b p c retval (acc l) = Some r"
  shows "\<exists>s m. r = Inr (s, m) \<and> life_ok (l\<lparr>acc := s, main_at := m\<rparr>)"
proof -
  obtain ds rs en t s where s: "acc_list (acc l) (ds @ c # rs)" "live l c = Some en" "thread en = Some t"
    "handlers l t = Some (c, Exited (descriptor en))"
    "r = Inr (s, if b then Ending else Walking (last_of ds) (first_of rs))" "acc_list s (ds @ rs)"
    "joined s = results l @ [(t, descriptor en)]" "same_but_links (entries s) ((live l)(c := None))"
    using ok at reap by (rule reaped)
  let ?l = "l\<lparr>acc := s, main_at := (if b then Ending else Walking (last_of ds) (first_of rs))\<rparr>"
  have "main_ok ?l"
    unfolding main_ok_def by (rule exI [of _ "ds @ rs"]) (use s(6) in \<open>auto simp: at_place_def\<close>)
  moreover have "threads_ok (entries s) (handlers l) (joined s)"
    using threads_ok_links [OF s(8) threads_ok_free [OF life_okD(1) [OF ok] s(2-4)]] s(7) by simp
  ultimately have "life_ok ?l" by (simp add: life_ok_def)
  then show ?thesis using s(5) by blast
qed

lemma life_ok_at:
  assumes ok: "life_ok l" and place: "\<And>xs. acc_list (acc l) xs \<Longrightarrow> at_place l xs \<Longrightarrow> at_place (l\<lparr>main_at := m\<rparr>) xs"
  shows "life_ok (l\<lparr>main_at := m\<rparr>)"
proof -
  obtain xs where "acc_list (acc l) xs" "at_place l xs" using ok by (rule main_okE)
  then show ?thesis using place life_okD(1) [OF ok] by (auto simp: life_ok_def main_ok_def)
qed

lemma walk_ok:
  assumes ok: "life_ok l" and at: "main_at l = Walking p (Some c)"
  obtains ds rs en where "acc_list (acc l) (ds @ c # rs)" and "p = last_of ds" and "live l c = Some en"
    and "next_entry en = first_of rs"
proof -
  obtain xs where xs: "acc_list (acc l) xs" "at_place l xs" using ok by (rule main_okE)
  then obtain ds rs' where ds': "xs = ds @ rs'" "p = last_of ds" "first_of rs' = Some c"
    using at unfolding at_place_def by auto
  then obtain rs where ds: "xs = ds @ c # rs" "p = last_of ds" by (cases rs') simp_all
  then obtain en where "live l c = Some en" "next_entry en = first_of rs"
    using linked_next [of "live l" "head (acc l)" ds c rs] acc_list_linked [OF xs(1)] by auto
  then show thesis using that ds xs(1) by simp
qed

lemma joining_ok:
  assumes ok: "life_ok l" and at: "main_at l = Joining b p c"
  obtains ds rs en where "acc_list (acc l) (ds @ c # rs)" and "p = last_of ds" and "b \<longrightarrow> ds = []"
    and "live l c = Some en" and "b \<or> \<not> is_active en"
proof -
  obtain xs where xs: "acc_list (acc l) xs" "at_place l xs" using ok by (rule main_okE)
  then obtain ds rs where ds: "xs = ds @ c # rs" "p = last_of ds" "b \<longrightarrow> ds = []"
    using at by (auto simp: at_place_def)
  moreover obtain en where "live l c = Some en"
    using linked_next [of "live l" "head (acc l)" ds c rs] acc_list_linked [OF xs(1)] ds(1) by auto
  moreover from this have "b \<or> \<not> is_active en" using xs(2) at by (auto simp: at_place_def)
  ultimately show thesis using that xs(1) by simp
qed

lemma join_thread_ok:
  assumes ok: "life_ok l" and at: "main_at l = Joining b p c"
    and c: "live l c = Some en" "thread en = Some t" "handlers l t = Some (retval, Exited v)"
  shows "life_ok (l\<lparr>main_at := Joined b p c retval\<rparr>)"
proof -
  have "retval = c"
    using ownedE [OF threads_okD(1) [OF life_okD(1) [OF ok]] c(1,2)] c(3) by fastforce
  then show ?thesis using life_ok_at [OF ok] at c by (simp add: at_place_def)
qed

lemma join_fault_ok:
  assumes ok: "life_ok l" and at: "main_at l = Joining b p c"
    and f: "case live l c of None \<Rightarrow> f = UseAfterFree | Some en \<Rightarrow> thread en = None \<and> f = Uninitialised"
  shows "life_ok (l\<lparr>main_at := Faulted f\<rparr>)"
proof -
  obtain ds rs en where j: "acc_list (acc l) (ds @ c # rs)" "b \<longrightarrow> ds = []" "live l c = Some en" "b \<or> \<not> is_active en"
    using ok at by (rule joining_ok)
  then have "thread en = None" "f = Uninitialised" using f by simp_all
  moreover from this have "b"
    using j(3,4) unstarted_active [OF threads_okD(1) [OF life_okD(1) [OF ok]]] by blast
  then have "head (acc l) = Some c" using j(1,2) linked_first [OF acc_list_linked [OF j(1)]] by simp
  ultimately show ?thesis
    using life_ok_at [OF ok, of "Faulted f"] j(3) by (simp add: at_place_def fault_ok_def)
qed

lemma life_ok_step:
  assumes "life_step l l'" and ok: "life_ok l"
  shows "life_ok l'"
  using assms(1)
proof cases
  case (accept_conn e s)
  then show ?thesis using accept_conn_ok [OF ok] by simp
next
  case (accept_fault e f)
  then show ?thesis
    using new_connection_fault life_ok_at [OF ok, of "Faulted f"] by (fastforce simp: at_place_def fault_ok_def)
next
  case accept_nothing
  obtain xs where "acc_list (acc l) xs" "at_place l xs" using ok by (rule main_okE)
  then show ?thesis
    using accept_nothing(1) walk_start life_okD(1) [OF ok] by (simp add: life_ok_def main_ok_def at_place_def)
next
  case accept_fails
  obtain xs where "acc_list (acc l) xs" using ok by (rule main_okE)
  then show ?thesis
    using accept_fails(1) life_okD(1) [OF ok] by (auto simp: life_ok_def main_ok_def at_place_def acc_list_def)
next
  case stop_loop
  then show ?thesis using life_ok_at [OF ok] by (simp add: at_place_def)
next
  case (walk_past p c en)
  obtain ds rs en' where w: "acc_list (acc l) (ds @ c # rs)" "live l c = Some en'" "next_entry en' = first_of rs"
    using ok walk_past(2) by (rule walk_ok)
  then have "ds @ c # rs = (ds @ [c]) @ rs" "Some c = last_of (ds @ [c])" "next_entry en = first_of rs"
    using walk_past(3) by simp_all
  then have "\<exists>ds' rs'. ds @ c # rs = ds' @ rs' \<and> Some c = last_of ds' \<and> next_entry en = first_of rs'" by blast
  then have "at_place l' (ds @ c # rs)" by (simp add: at_place_def walk_past(1))
  then have "main_ok l'" using w(1) walk_past(1) by (auto simp: main_ok_def)
  then show ?thesis using walk_past(1) life_okD(1) [OF ok] by (simp add: life_ok_def)
next
  case (walk_found p c en)
  obtain ds rs where w: "acc_list (acc l) (ds @ c # rs)" "p = last_of ds"
    using ok walk_found(2) by (rule walk_ok)
  then have "main_ok l'"
    unfolding main_ok_def using walk_found
    by (intro exI [of _ "ds @ c # rs"]) (auto simp: at_place_def)
  then show ?thesis using walk_found(1) life_okD(1) [OF ok] by (simp add: life_ok_def)
next
  case (walk_fault p c)
  then show ?thesis using walk_ok [OF ok walk_fault(2)] by fastforce
next
  case (walk_done p)
  then show ?thesis using life_ok_at [OF ok] by (simp add: at_place_def)
next
  case (take_first c)
  obtain xs where "acc_list (acc l) xs" using ok by (rule main_okE)
  then have "main_ok l'"
    using take_first linked_first [OF acc_list_linked]
    by (fastforce simp: main_ok_def at_place_def first_of_def split: list.splits)
  then show ?thesis using take_first(1) life_okD(1) [OF ok] by (simp add: life_ok_def)
next
  case (join_thread b p c en t retval v)
  then show ?thesis using join_thread_ok [OF ok] by simp
next
  case (join_fault b p c f)
  then show ?thesis using join_fault_ok [OF ok] by simp
next
  case (reap_entry b p c retval fuel s m)
  then show ?thesis using reap_entry_ok [OF ok reap_entry(2,3)] by auto
next
  case (reap_fault b p c retval fuel f)
  then show ?thesis using reap_entry_ok [OF ok reap_fault(2,3)] by auto
next
  case (deactivate t a en v)
  then show ?thesis using life_ok_thread [OF ok deactivate(2) _ deactivate(3)] by simp
next
  case (store_value t a v en)
  have "value_ok en (Inactive v)"
    by (rule handler_owns [OF life_okD(1) [OF ok] store_value(2)])
      (use store_value(2,3) ownedE [OF threads_okD(1) [OF life_okD(1) [OF ok]]] in fastforce)+
  then show ?thesis using store_value life_ok_thread [OF ok store_value(2) _ store_value(3)] by simp
next
  case (exit_thread t a v)
  obtain en where en: "live l a = Some en" "thread en = Some t"
    by (rule handler_owns [OF life_okD(1) [OF ok] exit_thread(2)]) simp_all
  then have "value_ok en (Stored v)"
    using ownedE [OF threads_okD(1) [OF life_okD(1) [OF ok]] en] exit_thread(2) by fastforce
  then show ?thesis
    using life_ok_thread [OF ok exit_thread(2) _ en(1), of en "Exited v"] en(1)
    by (simp add: exit_thread(1) fun_upd_idem)
next
  case (thread_fault t a pl v)
  then show ?thesis using handler_owns [OF life_okD(1) [OF ok] thread_fault(2)] by fastforce
qed

lemma life_run_ok: "life_run l \<Longrightarrow> life_ok l"
proof (induction rule: rtranclp_induct)
  case base
  have "acc_list acceptor_start []" by (simp add: acc_list_def acceptor_start_def linked_def)
  then show ?case
    by (auto simp: life_ok_def main_ok_def life_start_def at_place_def threads_ok_def owned_def attached_def
        joined_ok_def acceptor_start_def)
qed (rule life_ok_step)

section \<open>The end of a thread\<close>

text \<open>
  The steps of a thread at its end leave the entry as the function \<open>finalize\<close> of theory Connection
  does.
\<close>

lemma thread_end_is_finalize:
  assumes "handlers l t = Some (a, Handling)" and "live l a = Some en"
    and "cn = connection (finalize e st failed_before)"
  shows "life_step\<^sup>*\<^sup>* l (stored l t a (en\<lparr>is_active := is_active cn, descriptor := descriptor cn\<rparr>)
    (Exited (descriptor cn)))"
proof -
  let ?v = "descriptor cn"
  have v: "?v = 0 \<or> ?v = - 1" "is_active cn = False" by (simp_all add: assms(3) finalize_def)
  let ?l1 = "stored l t a (en\<lparr>is_active := False\<rparr>) (Inactive ?v)"
  let ?l2 = "stored ?l1 t a (en\<lparr>is_active := False, descriptor := ?v\<rparr>) (Stored ?v)"
  have "life_step l ?l1" by (rule deactivate [OF assms(1,2) v(1)])
  moreover have "life_step ?l1 ?l2"
    using store_value [of ?l1 t a ?v "en\<lparr>is_active := False\<rparr>"] by simp
  moreover have "life_step ?l2 (?l2\<lparr>handlers := (handlers ?l2)(t \<mapsto> (a, Exited ?v))\<rparr>)"
    by (rule exit_thread) simp
  ultimately have "life_step\<^sup>*\<^sup>* l (?l2\<lparr>handlers := (handlers ?l2)(t \<mapsto> (a, Exited ?v))\<rparr>)"
    by (meson converse_rtranclp_into_rtranclp r_into_rtranclp)
  then show ?thesis by (simp add: v(2))
qed

section \<open>The last loop\<close>




section \<open>Lost connections\<close>

text \<open>\<open>tail\<close> points to an allocated entry that is not in the list \<open>xs\<close>.\<close>

definition strayed :: "acceptor \<Rightarrow> addr list \<Rightarrow> bool" where
  "strayed s xs \<longleftrightarrow> linked (entries s) (head s) xs \<and>
     (\<exists>u. tail s = Some u \<and> u \<notin> set xs \<and> entries s u \<noteq> None)"

text \<open>The list has only got shorter, and only threads of its entries have been joined.\<close>

definition only_from :: "entry_life \<Rightarrow> addr list \<Rightarrow> entry_life \<Rightarrow> addr list \<Rightarrow> bool" where
  "only_from l xs l' xs' \<longleftrightarrow> set xs' \<subseteq> set xs \<and>
     (\<forall>x \<in> set xs'. entry_thread (live l') x = entry_thread (live l) x) \<and>
     (\<forall>t \<in> fst ` set (results l') - fst ` set (results l). \<exists>x \<in> set xs. entry_thread (live l) x = Some (Some t))"

lemma only_from_refl [simp]: "only_from l xs l xs"
  by (simp add: only_from_def)

lemma only_from_trans:
  assumes "only_from l xs l1 ys" and "only_from l1 ys l2 zs"
  shows "only_from l xs l2 zs"
proof -
  have "\<exists>x \<in> set xs. entry_thread (live l) x = Some (Some t)"
    if t: "t \<in> fst ` set (results l2)" "t \<notin> fst ` set (results l)" for t
  proof (cases "t \<in> fst ` set (results l1)")
    case True
    then show ?thesis using assms(1) t(2) by (simp add: only_from_def)
  next
    case False
    then obtain x where "x \<in> set ys" "entry_thread (live l1) x = Some (Some t)"
      using assms(2) t(1) unfolding only_from_def by blast
    then show ?thesis using assms(1) unfolding only_from_def by (metis subsetD)
  qed
  then show ?thesis using assms by (auto simp: only_from_def)
qed

lemma entry_thread_links: "same_but_links es es' \<Longrightarrow> entry_thread es x = entry_thread es' x"
  by (cases "es x"; cases "es' x")
    (auto simp: same_but_links_None entry_thread_def elim!: same_but_linksD dest: same_but_links_None)

lemma strayed_thread:
  assumes "strayed (acc l) xs" and "live l a = Some en" and "next_entry en' = next_entry en" and "thread en' = thread en"
  shows "strayed (acc (stored l t a en' pl)) xs" and "only_from l xs (stored l t a en' pl) xs"
  using assms by (auto simp: strayed_def only_from_def linked_upd entry_thread_def)

lemma strayed_conn:
  assumes ok: "life_ok l" and stray: "strayed (acc l) xs" and fresh: "fresh_env e l"
    and new: "new_connection e (acc l) = Inr s"
  shows "strayed s xs \<and> only_from l xs (l\<lparr>acc := s, handlers := hs, main_at := m\<rparr>) xs"
proof -
  obtain ys where ys: "acc_list (acc l) ys" using ok by (rule main_okE)
  have lnk: "linked (live l) (head (acc l)) xs" using stray by (simp add: strayed_def)
  then have xs: "acc_list (acc l) xs" using ys linked_unique acc_list_linked by metis
  obtain a junk where blk: "new_block e = Some (a, junk)" using new by (auto simp: new_connection_def split: option.splits)
  then have a: "live l a = None" using fresh by (simp add: fresh_env_def)
  have off: "\<not> tail_on_list (acc l) xs" using stray by (auto simp: strayed_def tail_on_list_def)
  note res = new_connection_linked [OF xs new blk a]
  have ax: "a \<notin> set xs" using linked_dom [OF lnk] a by fastforce
  have same: "entry_thread (entries s) x = entry_thread (live l) x" if "x \<in> set xs" for x
    using entry_thread_links [of "entries s"] res ax that by (auto simp: entry_thread_def)
  have "entries s a \<noteq> None"
    using same_but_links_None [OF conjunct2 [OF conjunct2 [OF conjunct2 [OF res]]], of a] by simp
  then have "strayed s xs" using res off ax acc_list_linked by (auto simp: strayed_def)
  then show ?thesis using res same by (simp add: only_from_def)
qed

lemma strayed_reap:
  assumes ok: "life_ok l" and stray: "strayed (acc l) xs" and at: "main_at l = Joined b p c retval"
    and reap: "reap fuel b p c retval (acc l) = Some (Inr (s, m))"
  shows "\<exists>xs'. strayed s xs' \<and> only_from l xs (l\<lparr>acc := s, main_at := m\<rparr>) xs'"
proof -
  obtain ds rs en t s' where ys: "acc_list (acc l) (ds @ c # rs)" and en: "live l c = Some en" "thread en = Some t"
    and "handlers l t = Some (c, Exited (descriptor en))"
    and s': "(Inr (s, m) :: (acceptor \<times> main_place) res) = Inr (s', if b then Ending else Walking (last_of ds) (first_of rs))"
    "acc_list s' (ds @ rs)" "joined s' = results l @ [(t, descriptor en)]"
    "same_but_links (entries s') ((live l)(c := None))" "tail s' = tail (acc l)"
    using ok at reap by (rule reaped)
  have xs: "xs = ds @ c # rs"
    using stray linked_unique acc_list_linked [OF ys] unfolding strayed_def by metis
  have c: "c \<notin> set (ds @ rs)" using acc_list_linked [OF ys] by (simp add: linked_def)
  obtain u where u: "tail (acc l) = Some u" "u \<notin> set xs" "live l u \<noteq> None" using stray by (auto simp: strayed_def)
  then have "entries s' u \<noteq> None" using same_but_links_None [OF s'(4), of u] xs by auto
  then have "strayed s' (ds @ rs)" using acc_list_linked [OF s'(2)] s'(5) u xs by (auto simp: strayed_def)
  moreover have "only_from l xs (l\<lparr>acc := s', main_at := m\<rparr>) (ds @ rs)"
    using s'(3) entry_thread_links [OF s'(4)] c en xs by (auto simp: only_from_def entry_thread_def)
  ultimately show ?thesis using s'(1) by blast
qed

lemma strayed_step:
  assumes "life_step l l'" and ok: "life_ok l" and stray: "strayed (acc l) xs"
  shows "\<exists>xs'. strayed (acc l') xs' \<and> only_from l xs l' xs'"
  using assms(1)
proof cases
  case (accept_conn e s)
  then show ?thesis using strayed_conn [OF ok stray accept_conn(5,6)] by auto
next
  case (reap_entry b p c retval fuel s m)
  then show ?thesis using strayed_reap [OF ok stray reap_entry(2,3)] by auto
next
  case (deactivate t a en v)
  then show ?thesis using strayed_thread [OF stray deactivate(3), of "en\<lparr>is_active := False\<rparr>"] by auto
next
  case (store_value t a v en)
  then show ?thesis using strayed_thread [OF stray store_value(3), of "en\<lparr>descriptor := v\<rparr>"] by auto
qed (use stray in \<open>auto simp: strayed_def only_from_def\<close>)

lemma strayed_run:
  assumes "life_step\<^sup>*\<^sup>* l l'" and "life_ok l" and "strayed (acc l) xs"
  shows "\<exists>xs'. strayed (acc l') xs' \<and> only_from l xs l' xs' \<and> life_ok l'"
  using assms(1)
proof (induction rule: rtranclp_induct)
  case base
  show ?case using assms(2,3) only_from_refl by blast
next
  case (step l1 l2)
  then obtain ys where ys: "strayed (acc l1) ys" "only_from l xs l1 ys" "life_ok l1" by blast
  obtain zs where "strayed (acc l2) zs" "only_from l1 ys l2 zs"
    using strayed_step [OF step(2) ys(3,1)] by blast
  then show ?case using only_from_trans [OF ys(2)] life_ok_step [OF step(2) ys(3)] by blast
qed

section \<open>Properties\<close>

text \<open>
  C11: The entry outlives its thread. However the main thread and the threads of the connections
  interleave, also when \<open>accept\<close>, \<open>malloc\<close> or \<open>pthread_create\<close> fail and when \<open>tail\<close> is left behind:
  a thread that is not gone finds its entry allocated and its own; the entries in the list are
  allocated, and what the main thread visits or joins is among them; the value it reads behind
  the pointer from \<open>pthread_join\<close> is the exit value of that thread, in memory that is not freed
  yet; no thread is joined twice. The only undefined accesses are those of the main thread when
  \<open>malloc\<close> has failed, when a connection is accepted while \<open>tail\<close> points to a freed entry, and when
  the last loop joins a thread that could not be started.
\<close>

theorem entry_outlives_thread:
  assumes "life_run l"
  shows "(\<forall>t a pl. handlers l t = Some (a, pl) \<and> (\<forall>v. pl \<noteq> Exited v) \<longrightarrow>
      (\<exists>en. live l a = Some en \<and> thread en = Some t)) \<and>
    (\<exists>xs. linked (live l) (head (acc l)) xs \<and> set xs \<subseteq> dom (live l) \<and>
      (\<forall>p c. main_at l = Walking p (Some c) \<longrightarrow> c \<in> set xs) \<and>
      (\<forall>b p c. main_at l = Joining b p c \<longrightarrow> c \<in> set xs)) \<and>
    (\<forall>b p a retval. main_at l = Joined b p a retval \<longrightarrow> retval = a \<and>
      (\<exists>en t. live l a = Some en \<and> thread en = Some t \<and> handlers l t = Some (a, Exited (descriptor en)))) \<and>
    (\<forall>t v. (t, v) \<in> set (results l) \<longrightarrow> (\<exists>a. handlers l t = Some (a, Exited v))) \<and>
    distinct (map fst (results l)) \<and>
    (\<forall>f. main_at l = Faulted f \<longrightarrow> f = NullDeref \<or>
      f = UseAfterFree \<and> (\<exists>u. tail (acc l) = Some u \<and> live l u = None) \<or>
      f = Uninitialised \<and> (\<exists>c en. head (acc l) = Some c \<and> live l c = Some en \<and> thread en = None))"
proof -
  have ok: "life_ok l" by (rule life_run_ok [OF assms])
  obtain xs where xs: "acc_list (acc l) xs" "at_place l xs" using ok by (rule main_okE)
  note lnk = acc_list_linked [OF xs(1)]
  have "\<exists>en. live l a = Some en \<and> thread en = Some t"
    if "handlers l t = Some (a, pl)" "\<forall>v. pl \<noteq> Exited v" for t a pl
    using handler_owns [OF life_okD(1) [OF ok] that] by blast
  moreover have "set xs \<subseteq> dom (live l)" using linked_dom [OF lnk] by blast
  moreover have "c \<in> set xs" if at: "main_at l = Walking p (Some c)" for p c
    using walk_ok [OF ok at] lnk linked_unique acc_list_linked by (metis in_set_conv_decomp)
  moreover have "c \<in> set xs" if at: "main_at l = Joining b p c" for b p c
    using joining_ok [OF ok at] lnk linked_unique acc_list_linked by (metis in_set_conv_decomp)
  moreover have "retval = a \<and>
      (\<exists>en t. live l a = Some en \<and> thread en = Some t \<and> handlers l t = Some (a, Exited (descriptor en)))"
    if at: "main_at l = Joined b p a retval" for b p a retval
  proof -
    obtain en t v where en: "retval = a" "live l a = Some en" "thread en = Some t" "handlers l t = Some (a, Exited v)"
      using xs(2) at by (auto simp: at_place_def)
    then have "descriptor en = v"
      using ownedE [OF threads_okD(1) [OF life_okD(1) [OF ok]] en(2,3)] by fastforce
    then show ?thesis using en by blast
  qed
  moreover have "fault_ok (acc l) f" if "main_at l = Faulted f" for f
    using xs(2) that by (simp add: at_place_def)
  moreover have "joined_ok (handlers l) (results l)" by (rule threads_okD(3) [OF life_okD(1) [OF ok]])
  ultimately show ?thesis using lnk unfolding fault_ok_def joined_ok_def by blast
qed


text \<open>
  C?: A lost connection loses all later ones. When \<open>tail\<close> points to an entry that is allocated but not in
  the list, which comes about when a connection is accepted after the newest one has been joined
  and \<open>malloc\<close> returns the same block, then, whatever happens later, no connection gets into the
  list any more, and the only threads that are still joined are those of the entries in it.
\<close>

theorem lost_for_ever:
  assumes "life_run l" and "linked (live l) (head (acc l)) xs"
    and "tail (acc l) = Some u" and "live l u \<noteq> None" and "u \<notin> set xs" and "life_step\<^sup>*\<^sup>* l l'"
  shows "\<exists>xs'. linked (live l') (head (acc l')) xs' \<and> set xs' \<subseteq> set xs \<and>
    (\<forall>t \<in> fst ` set (results l') - fst ` set (results l). \<exists>x \<in> set xs. entry_thread (live l) x = Some (Some t))"
  using strayed_run [OF assms(6) life_run_ok [OF assms(1)]] assms(2-5)
  unfolding strayed_def only_from_def by blast

section \<open>Witnesses\<close>

text \<open>One connection in the block 0, with the thread \<open>t\<close>; the list after it has been joined.\<close>

definition one_entry :: "nat \<Rightarrow> bool \<Rightarrow> s32 \<Rightarrow> handler_place \<Rightarrow> main_place \<Rightarrow> entry_life" where
  "one_entry t active d pl m =
     \<lparr>acc = \<lparr>entries = [0 \<mapsto> \<lparr>descriptor = d, is_active = active, thread = Some t, next_entry = None\<rparr>],
        head = Some 0, tail = Some 0, abort = False, joined = []\<rparr>,
      handlers = [t \<mapsto> (0, pl)], main_at = m\<rparr>"

definition no_entry :: "nat \<Rightarrow> s32 \<Rightarrow> main_place \<Rightarrow> entry_life" where
  "no_entry t v m =
     \<lparr>acc = \<lparr>entries = Map.empty, head = None, tail = Some 0, abort = sint v < 0, joined = [(t, v)]\<rparr>,
      handlers = [t \<mapsto> (0, Exited v)], main_at = m\<rparr>"

lemma one_entry_accepted: "life_step life_start (one_entry t True 7 Handling (Walking None (Some 0)))"
proof -
  let ?e = "(client_env 0)\<lparr>new_thread := t\<rparr>"
  have "new_connection ?e (acc life_start) = Inr (acc (one_entry t True 7 Handling Accepting))"
    by (simp add: new_connection_def client_env_def quiet_env_def entry_example_def life_start_def acceptor_start_def
        one_entry_def set_next_def entry_at_def)
  moreover have "fresh_env ?e life_start"
    by (simp add: fresh_env_def client_env_def quiet_env_def life_start_def acceptor_start_def)
  ultimately show ?thesis
    using accept_conn [of life_start ?e]
    by (simp add: life_start_def acceptor_start_def one_entry_def start_thread_def client_env_def quiet_env_def)
qed

lemma one_entry_run: "life_run (one_entry t True 7 Handling Accepting)"
proof -
  let ?l = "\<lambda>m. one_entry t True 7 Handling m"
  have "life_step (?l (Walking None (Some 0))) (?l (Walking (Some 0) None))"
    using walk_past [of "?l (Walking None (Some 0))" None 0] by (simp add: one_entry_def)
  moreover have "life_step (?l (Walking (Some 0) None)) (?l Accepting)"
    using walk_done [of "?l (Walking (Some 0) None)" "Some 0"] by (simp add: one_entry_def)
  ultimately show ?thesis using one_entry_accepted [of t] by (meson rtranclp.intros)
qed

lemma one_entry_exits: "life_step\<^sup>*\<^sup>* (one_entry t False d (Inactive v) m) (one_entry t False v (Exited v) m)"
proof -
  have "life_step (one_entry t False d (Inactive v) m) (one_entry t False v (Stored v) m)"
    using store_value [of "one_entry t False d (Inactive v) m" t 0 v] by (simp add: one_entry_def)
  moreover have "life_step (one_entry t False v (Stored v) m) (one_entry t False v (Exited v) m)"
    using exit_thread [of "one_entry t False v (Stored v) m" t 0 v] by (simp add: one_entry_def)
  ultimately show ?thesis by (meson rtranclp.intros)
qed

lemma one_entry_ends:
  assumes "v = 0 \<or> v = - 1"
  shows "life_step\<^sup>*\<^sup>* (one_entry t True d Handling m) (one_entry t False v (Exited v) m)"
proof -
  have "life_step (one_entry t True d Handling m) (one_entry t False d (Inactive v) m)"
    using deactivate [of "one_entry t True d Handling m" t 0 _ v] assms by (simp add: one_entry_def)
  then show ?thesis using one_entry_exits [of t d v m] by (rule converse_rtranclp_into_rtranclp)
qed

lemma one_entry_joined:
  "life_step\<^sup>*\<^sup>* (one_entry t False v (Exited v) Accepting) (one_entry t False v (Exited v) (Joined False None 0 0))"
proof -
  let ?l = "\<lambda>m. one_entry t False v (Exited v) m"
  have "life_step (?l Accepting) (?l (Walking None (Some 0)))"
    using accept_nothing [of "?l Accepting"] by (simp add: one_entry_def)
  moreover have "life_step (?l (Walking None (Some 0))) (?l (Joining False None 0))"
    using walk_found [of "?l (Walking None (Some 0))" None 0] by (simp add: one_entry_def)
  moreover have "life_step (?l (Joining False None 0)) (?l (Joined False None 0 0))"
    using join_thread [of "?l (Joining False None 0)" False None 0] by (simp add: one_entry_def)
  ultimately show ?thesis by (meson rtranclp.intros)
qed

lemma one_entry_reaped:
  "life_step (one_entry t False v (Exited v) (Joined False None 0 0)) (no_entry t v (Walking None None))"
proof -
  let ?l = "one_entry t False v (Exited v) (Joined False None 0 0)"
  have "reap 0 False None 0 0 (acc ?l) = Some (Inr (acc (no_entry t v Accepting), Walking None None))"
    by (simp add: reap_def one_entry_def no_entry_def entry_at_def join_entry_def slist_remove_def)
  then show ?thesis
    using reap_entry [of ?l False None 0 0 0] by (simp add: one_entry_def no_entry_def)
qed

lemma no_entry_run:
  assumes "v = 0 \<or> v = - 1"
  shows "life_run (no_entry t v Accepting)"
proof -
  have "life_step (no_entry t v (Walking None None)) (no_entry t v Accepting)"
    using walk_done [of "no_entry t v (Walking None None)" None] by (simp add: no_entry_def)
  then show ?thesis
    using one_entry_run [of t] one_entry_ends [OF assms, of t 7 Accepting] one_entry_joined [of t v] one_entry_reaped [of t v]
    by (meson rtranclp_trans rtranclp.rtrancl_into_rtrancl)
qed

theorem entry_outlives_thread_witness:
  "life_run (one_entry 7 False (- 1) (Exited (- 1)) (Joined False None 0 0)) \<and>
   (\<exists>en. live (one_entry 7 False (- 1) (Exited (- 1)) (Joined False None 0 0)) 0 = Some en \<and> descriptor en = - 1)"
proof -
  let ?l = "one_entry 7 False (- 1) (Exited (- 1)) (Joined False None 0 0)"
  have run: "life_run ?l"
    using one_entry_run [of 7] one_entry_ends [of "- 1" 7 7 Accepting] one_entry_joined [of 7 "- 1"]
    by (meson rtranclp_trans)
  have "main_at ?l = Joined False None 0 0" by (simp add: one_entry_def)
  then obtain en t where en: "live ?l 0 = Some en" "thread en = Some t" "handlers ?l t = Some (0, Exited (descriptor en))"
    using entry_outlives_thread [OF run] by metis
  then have "descriptor en = - 1" by (auto simp: one_entry_def split: if_splits)
  then show ?thesis using run en(1) by blast
qed


text \<open>
  The connection of thread 7 has been joined and its entry freed; the next one, of thread 8, gets the
  same block. Thread 8 ends, but it is not joined.
\<close>

definition lost_entry :: "handler_place \<Rightarrow> main_place \<Rightarrow> entry_life" where
  "lost_entry pl m =
     \<lparr>acc = \<lparr>entries = [0 \<mapsto> \<lparr>descriptor = 7, is_active = (pl = Handling), thread = Some 8, next_entry = Some 0\<rparr>],
        head = None, tail = Some 0, abort = False, joined = [(7, 0)]\<rparr>,
      handlers = [7 \<mapsto> (0, Exited 0), 8 \<mapsto> (0, pl)], main_at = m\<rparr>"

lemma lost_entry_run: "life_run (lost_entry Handling (Walking None None))"
proof -
  let ?e = "(client_env 0)\<lparr>new_thread := 8\<rparr>" and ?l = "no_entry 7 0 Accepting"
  have "new_connection ?e (acc ?l) = Inr (acc (lost_entry Handling Accepting))"
    by (simp add: new_connection_def client_env_def quiet_env_def entry_example_def no_entry_def lost_entry_def
        slist_insert_after_def set_next_def entry_at_def)
  moreover have "fresh_env ?e ?l"
    by (simp add: fresh_env_def client_env_def quiet_env_def no_entry_def)
  ultimately have "life_step ?l (lost_entry Handling (Walking None None))"
    using accept_conn [of ?l ?e]
    by (simp add: no_entry_def lost_entry_def start_thread_def client_env_def quiet_env_def)
  then show ?thesis using no_entry_run [of 0 7] by (meson rtranclp.rtrancl_into_rtrancl)
qed

theorem lost_for_ever_witness:
  "\<exists>l'. life_step\<^sup>*\<^sup>* (lost_entry Handling (Walking None None)) l' \<and> handlers l' 8 = Some (0, Inactive 0) \<and>
     head (acc l') = None \<and> 8 \<notin> fst ` set (results l')"
proof -
  let ?l = "lost_entry Handling (Walking None None)" and ?l' = "lost_entry (Inactive 0) (Walking None None)"
  have step: "life_step\<^sup>*\<^sup>* ?l ?l'"
    using deactivate [of ?l 8 0 _ 0] by (simp add: lost_entry_def r_into_rtranclp)
  have facts: "linked (live ?l) (head (acc ?l)) []" "tail (acc ?l) = Some 0" "live ?l 0 \<noteq> None" "0 \<notin> set ([] :: addr list)"
    "8 \<notin> fst ` set (results ?l)"
    by (simp_all add: lost_entry_def linked_def)
  obtain xs where xs: "linked (live ?l') (head (acc ?l')) xs" "set xs \<subseteq> set ([] :: addr list)"
    and none: "\<forall>t \<in> fst ` set (results ?l') - fst ` set (results ?l). \<exists>x \<in> set []. entry_thread (live ?l) x = Some (Some t)"
    using lost_for_ever [OF lost_entry_run facts(1-4) step] by blast
  have "linked (live ?l') (head (acc ?l')) []" using xs by simp
  moreover have "8 \<notin> fst ` set (results ?l')" using none facts(5) unfolding list.set(1) by blast
  ultimately have "head (acc ?l') = None" "8 \<notin> fst ` set (results ?l')" by (simp_all add: linked_def)
  moreover have "handlers ?l' 8 = Some (0, Inactive 0)" by (simp add: lost_entry_def)
  ultimately show ?thesis using step by blast
qed

end
