(* ===== verification/AcceptorLife.thy ===== *)
theory AcceptorLife
  imports EntryLife
begin

text \<open>
  An iteration of the main loop as the functions of theory Acceptor compute it is a run of the steps
  of theory EntryLife, whatever it meets: a failing \<open>malloc\<close> or \<open>pthread_create\<close>, a \<open>tail\<close> that points
  to a freed entry, lost entries, the end of the loop and faults. What the threads do in the
  meantime the functions get as the field \<open>finished\<close> of their environment; here the threads do it.
\<close>

section \<open>The same list\<close>

text \<open>
  The entries in the functions and in the transition system agree but for \<open>descriptor\<close> and
  \<open>is_active\<close>, which the threads change.
\<close>

definition same_list :: "(addr \<rightharpoonup> conn_entry) \<Rightarrow> (addr \<rightharpoonup> conn_entry) \<Rightarrow> bool" where
  "same_list es es' \<longleftrightarrow> (\<forall>x. map_option (\<lambda>en. (thread en, next_entry en)) (es x) =
     map_option (\<lambda>en. (thread en, next_entry en)) (es' x))"

definition same_acc :: "acceptor \<Rightarrow> acceptor \<Rightarrow> bool" where
  "same_acc s a \<longleftrightarrow> same_list (entries s) (entries a) \<and> head s = head a \<and> tail s = tail a \<and>
     abort s = abort a \<and> joined s = joined a"

definition same_link :: "conn_entry \<Rightarrow> conn_entry \<Rightarrow> bool" where
  "same_link en en' \<longleftrightarrow> thread en = thread en' \<and> next_entry en = next_entry en'"

lemma same_listE:
  assumes "same_list es es'" and "es x = Some en"
  obtains en' where "es' x = Some en'" and "same_link en en'"
proof (cases "es' x")
  case None
  then show thesis using spec [OF assms(1) [unfolded same_list_def], of x] assms(2) by simp
next
  case (Some en')
  moreover from this have "same_link en en'"
    using spec [OF assms(1) [unfolded same_list_def], of x] assms(2) by (simp add: same_link_def)
  ultimately show thesis by (rule that)
qed

lemma same_list_None: "same_list es es' \<Longrightarrow> es x = None \<longleftrightarrow> es' x = None"
  using spec [of "\<lambda>x. map_option (\<lambda>en. (thread en, next_entry en)) (es x) =
    map_option (\<lambda>en. (thread en, next_entry en)) (es' x)" x]
  unfolding same_list_def by (cases "es x"; cases "es' x") simp_all

lemma same_list_upd: "same_list es es' \<Longrightarrow> same_link en en' \<Longrightarrow> same_list (es(x \<mapsto> en)) (es'(x \<mapsto> en'))"
  by (simp add: same_list_def same_link_def)

lemma same_list_free: "same_list es es' \<Longrightarrow> same_list (es(x := None)) (es'(x := None))"
  by (simp add: same_list_def)

lemma same_list_thread:
  assumes "same_list es es'" and "es' x = Some en" and "same_link en en'"
  shows "same_list es (es'(x \<mapsto> en'))"
  using assms by (auto simp: same_list_def same_link_def)

section \<open>The operations agree\<close>

abbreviation same_res :: "('a \<Rightarrow> 'b \<Rightarrow> bool) \<Rightarrow> 'a res \<Rightarrow> 'b res \<Rightarrow> bool" where
  "same_res R \<equiv> rel_sum (=) R"

abbreviation same_run :: "('a \<Rightarrow> 'b \<Rightarrow> bool) \<Rightarrow> 'a res option \<Rightarrow> 'b res option \<Rightarrow> bool" where
  "same_run R \<equiv> rel_option (same_res R)"

lemma same_bindR:
  "same_res R m m' \<Longrightarrow> (\<And>x y. R x y \<Longrightarrow> same_res S (f x) (g y)) \<Longrightarrow> same_res S (bindR m f) (bindR m' g)"
  by (cases m; cases m') (auto simp: bindR_def)

lemma same_bindL:
  "same_run R m m' \<Longrightarrow> (\<And>x y. R x y \<Longrightarrow> same_run S (f x) (g y)) \<Longrightarrow> same_run S (bindL m f) (bindL m' g)"
  by (auto simp: bindL_def split: option.splits sum.splits elim!: option.rel_cases)

lemma same_entry_at: "same_list es es' \<Longrightarrow> same_res same_link (entry_at es p) (entry_at es' p)"
  by (cases p) (auto simp: entry_at_def same_list_None split: option.splits elim!: same_listE)

lemma same_set_next: "same_list es es' \<Longrightarrow> same_res same_list (set_next es a q) (set_next es' a q)"
  unfolding set_next_def
  by (rule same_bindR [OF same_entry_at]) (auto intro!: same_list_upd simp: same_link_def)

lemma same_insert: "same_list es es' \<Longrightarrow> same_res same_list (slist_insert_after es t a) (slist_insert_after es' t a)"
  unfolding slist_insert_after_def
  by (intro same_bindR [OF same_entry_at] same_bindR [of same_list])
    (auto intro!: same_set_next simp: same_link_def)

lemma same_find_before: "same_list es es' \<Longrightarrow> same_run (=) (find_before es c fuel p) (find_before es' c fuel p)"
proof (induction fuel arbitrary: p)
  case (Suc fuel)
  show ?case
    unfolding find_before.simps
    by (rule same_bindL [of same_link])
      (use Suc same_entry_at in \<open>auto simp: same_link_def\<close>)
qed simp

lemma same_remove: "same_list es es' \<Longrightarrow>
  same_run (rel_prod same_list (=)) (slist_remove fuel c es p) (slist_remove fuel c es' p)"
  unfolding slist_remove_def
  by (rule same_bindL [of same_link])
    (auto simp: same_link_def same_entry_at intro!: same_bindL [of "(=)"] same_find_before same_bindR [of same_list]
      same_set_next)

lemma same_new_connection:
  assumes "same_acc s a"
  shows "same_res same_acc (new_connection e s) (new_connection e a)"
proof -
  have link: "same_link en en" for en by (simp add: same_link_def)
  have list: "same_list ((entries s)(x \<mapsto> en)) ((entries a)(x \<mapsto> en))" for x en
    using assms by (intro same_list_upd link) (simp add: same_acc_def)
  show ?thesis
    using assms
    by (auto simp: new_connection_def Let_def same_acc_def split: option.splits
        intro!: same_bindR [of same_list] same_insert same_set_next list)
qed

section \<open>One round of the loop over the list\<close>

text \<open>The body of the loop for an entry \<open>c\<close> whose thread has ended with \<open>ret\<close>, up to the next \<open>current\<close>.\<close>

definition join_round ::
  "nat \<Rightarrow> addr option \<Rightarrow> addr \<Rightarrow> conn_entry \<Rightarrow> s32 \<Rightarrow> acceptor \<Rightarrow> (acceptor \<times> addr option) res option" where
  "join_round fuel previous c en ret s =
     bindL (Some (join_entry s en ret)) (\<lambda>s.
     bindL (slist_remove fuel c (entries s) (head s)) (\<lambda>(es, first).
     let s = s\<lparr>entries := es(c := None), head := first\<rparr> in
     if previous = None then Some (Inr (s, first))
     else bindL (Some (entry_at (entries s) previous)) (\<lambda>pe. Some (Inr (s, next_entry pe)))))"

lemma join_loop_round:
  assumes "entries s c = Some en" and "finished e c = Some ret"
  shows "join_loop e pfuel (Suc fuel) previous (Some c) s =
    bindL (join_round pfuel previous c en ret s) (\<lambda>(s, current). join_loop e pfuel fuel previous current s)"
  using assms
  by (auto simp: join_round_def entry_at_def join_entry_def bindL_def Let_def split: option.splits sum.splits)

lemma reap_round:
  assumes same: "same_acc s a" and en: "entries s c = Some en" "entries a c = Some an" and ret: "descriptor an = ret"
  shows "same_run (\<lambda>(s', current) (a', m). same_acc s' a' \<and> m = Walking previous current)
    (join_round fuel previous c en ret s) (reap fuel False previous c c a)"
proof -
  have list: "same_list (entries s) (entries a)" using same by (simp add: same_acc_def)
  obtain an' where "entries a c = Some an'" "same_link en an'" by (rule same_listE [OF list en(1)])
  then have thr: "thread en = thread an" using en(2) by (simp add: same_link_def)
  have join: "same_res same_acc (join_entry s en ret) (join_entry a an ret)"
    using same thr by (auto simp: join_entry_def same_acc_def split: option.splits)
  have reap: "reap fuel False previous c c a =
      bindL (Some (join_entry a an ret)) (\<lambda>s.
      bindL (slist_remove fuel c (entries s) (head s)) (\<lambda>(es, first).
      let s = s\<lparr>entries := es(c := None), head := first\<rparr> in
      if previous = None then Some (Inr (s, Walking None first))
      else bindL (Some (entry_at (entries s) previous)) (\<lambda>pe. Some (Inr (s, Walking previous (next_entry pe))))))"
    using en(2) ret by (simp add: reap_def entry_at_def)
  show ?thesis
    unfolding reap join_round_def
  proof (rule same_bindL [of same_acc])
    show "same_run same_acc (Some (join_entry s en ret)) (Some (join_entry a an ret))" using join by simp
  next
    fix s1 a1
    assume s1: "same_acc s1 a1"
    then have "same_list (entries s1) (entries a1)" "head s1 = head a1" by (simp_all add: same_acc_def)
    then have rem: "same_run (rel_prod same_list (=)) (slist_remove fuel c (entries s1) (head s1))
        (slist_remove fuel c (entries a1) (head a1))"
      using same_remove by simp
    have next_at: "same_run (\<lambda>(s', current) (a', m). same_acc s' a' \<and> m = Walking previous current)
        (let s = s1\<lparr>entries := es(c := None), head := first\<rparr> in
         if previous = None then Some (Inr (s, first))
         else bindL (Some (entry_at (entries s) previous)) (\<lambda>pe. Some (Inr (s, next_entry pe))))
        (let s = a1\<lparr>entries := es'(c := None), head := first\<rparr> in
         if previous = None then Some (Inr (s, Walking None first))
         else bindL (Some (entry_at (entries s) previous)) (\<lambda>pe. Some (Inr (s, Walking previous (next_entry pe)))))"
      if "same_list es es'" for es es' first
    proof -
      have free: "same_list (es(c := None)) (es'(c := None))" using that by (rule same_list_free)
      then have "same_acc (s1\<lparr>entries := es(c := None), head := first\<rparr>) (a1\<lparr>entries := es'(c := None), head := first\<rparr>)"
        using s1 by (simp add: same_acc_def)
      then show ?thesis
        using same_entry_at [OF free, of previous]
        by (auto simp: Let_def same_link_def intro!: same_bindL [of same_link])
    qed
    show "same_run (\<lambda>(s', current) (a', m). same_acc s' a' \<and> m = Walking previous current)
        (bindL (slist_remove fuel c (entries s1) (head s1)) (\<lambda>(es, first).
           let s = s1\<lparr>entries := es(c := None), head := first\<rparr> in
           if previous = None then Some (Inr (s, first))
           else bindL (Some (entry_at (entries s) previous)) (\<lambda>pe. Some (Inr (s, next_entry pe)))))
        (bindL (slist_remove fuel c (entries a1) (head a1)) (\<lambda>(es, first).
           let s = a1\<lparr>entries := es(c := None), head := first\<rparr> in
           if previous = None then Some (Inr (s, Walking None first))
           else bindL (Some (entry_at (entries s) previous)) (\<lambda>pe. Some (Inr (s, Walking previous (next_entry pe))))))"
      by (rule same_bindL [OF rem]) (auto intro: next_at)
  qed
qed

section \<open>What the main thread sees\<close>

text \<open>
  What the functions are told of a thread that is at the place \<open>pl\<close>: nothing while it handles its
  connection, or the exit value it has decided on or now decides on.
\<close>

definition may_show :: "handler_place \<Rightarrow> s32 option \<Rightarrow> bool" where
  "may_show pl r \<longleftrightarrow>
     (case r of None \<Rightarrow> pl = Handling | Some v \<Rightarrow> value_of pl = Some v \<or> pl = Handling \<and> (v = 0 \<or> v = - 1))"

definition sees_entry :: "accept_env \<Rightarrow> (nat \<rightharpoonup> addr \<times> handler_place) \<Rightarrow> addr \<Rightarrow> nat option \<Rightarrow> bool" where
  "sees_entry e hs a thr \<longleftrightarrow>
     (case thr of None \<Rightarrow> finished e a = None
      | Some t \<Rightarrow> \<forall>pl. hs t = Some (a, pl) \<longrightarrow> may_show pl (finished e a))"

definition sees :: "accept_env \<Rightarrow> entry_life \<Rightarrow> bool" where
  "sees e l \<longleftrightarrow> (\<forall>a en. live l a = Some en \<longrightarrow> sees_entry e (handlers l) a (thread en))"

text \<open>The thread of an entry gets to its end by itself.\<close>

lemma thread_ends:
  assumes run: "life_run l" and en: "live l a = Some en" "thread en = Some t"
    and pl: "handlers l t = Some (a, pl)" "may_show pl (Some v)"
  shows "life_step\<^sup>*\<^sup>* l (stored l t a (en\<lparr>is_active := False, descriptor := v\<rparr>) (Exited v))"
proof -
  have val: "value_ok en pl"
    using ownedE [OF threads_okD(1) [OF life_okD(1) [OF life_run_ok [OF run]]] en] pl(1) by fastforce
  have ends: "life_step\<^sup>*\<^sup>* k (k\<lparr>handlers := (handlers k)(t \<mapsto> (a, Exited v))\<rparr>)"
    if "handlers k t = Some (a, Stored v)" for k
    using exit_thread [OF that] by (rule r_into_rtranclp)
  have stores: "life_step\<^sup>*\<^sup>* k (stored k t a (kn\<lparr>descriptor := v\<rparr>) (Exited v))"
    if "handlers k t = Some (a, Inactive v)" "live k a = Some kn" for k kn
    using store_value [OF that] ends [of "stored k t a (kn\<lparr>descriptor := v\<rparr>) (Stored v)"]
    by (simp add: converse_rtranclp_into_rtranclp)
  have same: "en\<lparr>is_active := False, descriptor := descriptor en\<rparr> = en" if "\<not> is_active en" using that by simp
  show ?thesis
  proof (cases pl)
    case Handling
    then have v: "v = 0 \<or> v = - 1" using pl(2) by (simp add: may_show_def)
    let ?k = "stored l t a (en\<lparr>is_active := False\<rparr>) (Inactive v)"
    have "life_step l ?k" using deactivate [of l t a en v] pl(1) en(1) v Handling by simp
    moreover have "life_step\<^sup>*\<^sup>* ?k (stored ?k t a (en\<lparr>is_active := False, descriptor := v\<rparr>) (Exited v))"
      using stores [of ?k "en\<lparr>is_active := False\<rparr>"] by simp
    ultimately show ?thesis by (simp add: converse_rtranclp_into_rtranclp)
  next
    case (Inactive w)
    then have "w = v" "en\<lparr>is_active := False\<rparr> = en" using pl(2) val by (simp_all add: may_show_def)
    then show ?thesis using stores [of l en] pl(1) en(1) Inactive by metis
  next
    case (Stored w)
    then have "w = v" "en\<lparr>is_active := False, descriptor := v\<rparr> = en" using pl(2) val by (auto simp: may_show_def)
    then show ?thesis using ends [of l] pl(1) en(1) Stored by (simp add: fun_upd_idem)
  next
    case (Exited w)
    then have "w = v" "en\<lparr>is_active := False, descriptor := v\<rparr> = en" using pl(2) val by (auto simp: may_show_def)
    then show ?thesis using pl(1) en(1) Exited by (simp add: fun_upd_idem)
  qed
qed

lemma sees_ended:
  assumes "sees e l" and "live l a = Some en" and "finished e a = Some v" and "thread en' = thread en"
  shows "sees e (stored l t a en' (Exited v))"
  unfolding sees_def
proof (intro allI impI)
  fix x xn
  assume x: "live (stored l t a en' (Exited v)) x = Some xn"
  obtain on where on: "live l x = Some on" "thread on = thread xn"
    using x assms(2,4) by (cases "x = a") auto
  then have "sees_entry e (handlers l) x (thread xn)" using assms(1) unfolding sees_def by metis
  then show "sees_entry e (handlers (stored l t a en' (Exited v))) x (thread xn)"
    using assms(3) by (auto simp: sees_entry_def may_show_def split: option.splits)
qed

lemma sees_removed:
  assumes "sees e l" and "same_but_links (entries s) ((live l)(c := None))"
  shows "sees e (l\<lparr>acc := s, main_at := m\<rparr>)"
  unfolding sees_def
proof (intro allI impI)
  fix x xn
  assume "live (l\<lparr>acc := s, main_at := m\<rparr>) x = Some xn"
  then obtain on where "((live l)(c := None)) x = Some on" "thread on = thread xn"
    using same_but_linksD [OF assms(2), of x xn] by auto
  then have "live l x = Some on" "thread on = thread xn" by (auto split: if_splits)
  then show "sees_entry e (handlers (l\<lparr>acc := s, main_at := m\<rparr>)) x (thread xn)"
    using assms(1) unfolding sees_def by (metis entry_life.select_convs(2) entry_life.update_convs(1,3) entry_life.surjective)
qed

section \<open>The loop over the list\<close>

text \<open>One finished entry: its thread ends, is found, joined and its entry taken out, or there is a fault.\<close>

lemma round_simulated:
  assumes run: "life_run l" and at: "main_at l = Walking previous (Some c)" and same: "same_acc s (acc l)"
    and sees: "sees e l" and en: "entries s c = Some en" and fin: "finished e c = Some ret"
    and round: "join_round fuel previous c en ret s = Some r"
  shows "\<exists>l'. life_step\<^sup>*\<^sup>* l l' \<and> sees e l' \<and>
    (case r of Inl f \<Rightarrow> main_at l' = Faulted f
     | Inr (s', current) \<Rightarrow> main_at l' = Walking previous current \<and> same_acc s' (acc l'))"
proof -
  have list: "same_list (entries s) (live l)" using same by (simp add: same_acc_def)
  obtain ln where ln: "live l c = Some ln" "same_link en ln" by (rule same_listE [OF list en])
  have "sees_entry e (handlers l) c (thread ln)" using sees ln(1) by (simp add: sees_def)
  then obtain t where t: "thread ln = Some t" using fin by (auto simp: sees_entry_def split: option.splits)
  obtain pl where pl: "handlers l t = Some (c, pl)"
    by (rule ownedE [OF threads_okD(1) [OF life_okD(1) [OF life_run_ok [OF run]]] ln(1) t])
  have "may_show pl (Some ret)"
    using \<open>sees_entry e (handlers l) c (thread ln)\<close> t pl fin by (simp add: sees_entry_def)
  let ?en = "ln\<lparr>is_active := False, descriptor := ret\<rparr>"
  let ?l1 = "stored l t c ?en (Exited ret)"
  let ?l2 = "?l1\<lparr>main_at := Joined False previous c c\<rparr>"
  have "life_step\<^sup>*\<^sup>* l ?l1" by (rule thread_ends [OF run ln(1) t pl \<open>may_show pl (Some ret)\<close>])
  moreover have "life_step ?l1 (?l1\<lparr>main_at := Joining False previous c\<rparr>)"
    using walk_found [of ?l1 previous c ?en] at by simp
  moreover have "life_step (?l1\<lparr>main_at := Joining False previous c\<rparr>) ?l2"
    using join_thread [of "?l1\<lparr>main_at := Joining False previous c\<rparr>" False previous c ?en t c ret] t by simp
  ultimately have run2: "life_step\<^sup>*\<^sup>* l ?l2" by (meson rtranclp.rtrancl_into_rtrancl)
  have sees1: "sees e ?l1" using sees_ended [OF sees ln(1) fin, of ?en t] by simp
  then have sees2: "sees e (?l1\<lparr>main_at := m\<rparr>)" for m by (simp add: sees_def)
  have same1: "same_acc s (acc ?l1)"
    using same same_list_thread [OF list ln(1), of ?en] by (simp add: same_acc_def same_link_def)
  have "same_run (\<lambda>(s', current) (a', m). same_acc s' a' \<and> m = Walking previous current)
      (Some r) (reap fuel False previous c c (acc ?l1))"
    using reap_round [OF same1 en, of ?en ret previous fuel] round by simp
  then obtain r' where r': "reap fuel False previous c c (acc ?l1) = Some r'"
    and rr: "same_res (\<lambda>(s', current) (a', m). same_acc s' a' \<and> m = Walking previous current) r r'"
    by (cases rule: option.rel_cases) auto
  show ?thesis
  proof (cases r)
    case (Inl f)
    then have "r' = Inl f" using rr by (cases r') simp_all
    then have "life_step ?l2 (?l2\<lparr>main_at := Faulted f\<rparr>)"
      using reap_fault [of ?l2 False previous c c fuel f] r' by simp
    then have "life_step\<^sup>*\<^sup>* l (?l1\<lparr>main_at := Faulted f\<rparr>)"
      using run2 by (simp add: rtranclp.rtrancl_into_rtrancl)
    then show ?thesis using sees2 Inl by (intro exI [of _ "?l1\<lparr>main_at := Faulted f\<rparr>"]) simp
  next
    case (Inr x)
    then obtain s' current a' where a': "r = Inr (s', current)" "r' = Inr (a', Walking previous current)" "same_acc s' a'"
      using rr by (cases r'; cases x) auto
    let ?l3 = "?l2\<lparr>acc := a', main_at := Walking previous current\<rparr>"
    have "life_step ?l2 ?l3"
      using reap_entry [of ?l2 False previous c c fuel] r' a'(2) by simp
    then have "life_step\<^sup>*\<^sup>* l ?l3" by (rule rtranclp.rtrancl_into_rtrancl [OF run2])
    moreover have "sees e ?l3"
    proof -
      have "life_ok ?l2" using run run2 by (intro life_run_ok) (rule rtranclp_trans)
      moreover have "main_at ?l2 = Joined False previous c c" by simp
      moreover have "reap fuel False previous c c (acc ?l2) = Some r'" using r' by simp
      ultimately have "same_but_links (entries a') ((live ?l2)(c := None))"
        by (rule reaped) (use a'(2) in simp)
      then show ?thesis by (rule sees_removed [OF sees2])
    qed
    ultimately show ?thesis using a' by (intro exI [of _ ?l3]) simp
  qed
qed

lemma walk_simulated:
  assumes "join_loop e pfuel fuel previous current s = Some r" and "life_run l"
    and "main_at l = Walking previous current" and "same_acc s (acc l)" and "sees e l"
  shows "\<exists>l'. life_step\<^sup>*\<^sup>* l l' \<and>
    (case r of Inl f \<Rightarrow> main_at l' = Faulted f | Inr s' \<Rightarrow> main_at l' = Accepting \<and> same_acc s' (acc l'))"
  using assms
proof (induction fuel arbitrary: previous current s l)
  case (Suc fuel)
  show ?case
  proof (cases current)
    case None
    then have "life_step l (l\<lparr>main_at := Accepting\<rparr>)" using walk_done Suc.prems(3) by blast
    moreover have "r = Inr s" using Suc.prems(1) None by simp
    ultimately show ?thesis
      using Suc.prems(4) by (intro exI [of _ "l\<lparr>main_at := Accepting\<rparr>"]) (simp add: r_into_rtranclp)
  next
    case (Some c)
    have list: "same_list (entries s) (live l)" using Suc.prems(4) by (simp add: same_acc_def)
    have at: "main_at l = Walking previous (Some c)" using Suc.prems(3) Some by simp
    show ?thesis
    proof (cases "entries s c")
      case None
      then have "r = Inl UseAfterFree" using Suc.prems(1) Some by (simp add: entry_at_def)
      moreover have "life_step l (l\<lparr>main_at := Faulted UseAfterFree\<rparr>)"
        using walk_fault [OF at] same_list_None [OF list, of c] None by simp
      ultimately show ?thesis
        by (intro exI [of _ "l\<lparr>main_at := Faulted UseAfterFree\<rparr>"]) (simp add: r_into_rtranclp)
    next
      case en: (Some en)
      obtain ln where ln: "live l c = Some ln" "same_link en ln" by (rule same_listE [OF list en])
      show ?thesis
      proof (cases "finished e c")
        case None
        have own: "owned (live l) (handlers l) (results l)"
          by (rule threads_okD(1) [OF life_okD(1) [OF life_run_ok [OF Suc.prems(2)]]])
        have seen: "sees_entry e (handlers l) c (thread ln)" using Suc.prems(5) ln(1) by (simp add: sees_def)
        have "is_active ln"
        proof (cases "thread ln")
          case None
          then show ?thesis using unstarted_active [OF own ln(1)] by simp
        next
          case (Some t)
          obtain pl where "handlers l t = Some (c, pl)" "value_ok ln pl" by (rule ownedE [OF own ln(1) Some])
          then show ?thesis using seen Some None by (auto simp: sees_entry_def may_show_def)
        qed
        then have step: "life_step l (l\<lparr>main_at := Walking (Some c) (next_entry en)\<rparr>)"
          using walk_past [OF at ln(1)] ln(2) by (simp add: same_link_def)
        let ?l = "l\<lparr>main_at := Walking (Some c) (next_entry en)\<rparr>"
        have loop: "join_loop e pfuel fuel (Some c) (next_entry en) s = Some r"
          using Suc.prems(1) Some en None by (simp add: entry_at_def)
        have ih: "life_run ?l" "main_at ?l = Walking (Some c) (next_entry en)" "same_acc s (acc ?l)" "sees e ?l"
          using Suc.prems(2,4,5) step by (auto simp: sees_def intro: rtranclp.rtrancl_into_rtrancl)
        show ?thesis
          using Suc.IH [OF loop ih] step by (meson converse_rtranclp_into_rtranclp)
      next
        case (Some ret)
        obtain q where q: "join_round pfuel previous c en ret s = Some q"
          using Suc.prems(1) join_loop_round [OF en Some, of pfuel fuel previous] \<open>current = Some c\<close>
          by (cases "join_round pfuel previous c en ret s") (auto simp: bindL_def)
        have loop: "join_loop e pfuel (Suc fuel) previous (Some c) s =
            bindL (Some q) (\<lambda>(s, current). join_loop e pfuel fuel previous current s)"
          using join_loop_round [OF en Some, of pfuel fuel previous] q by simp
        obtain l1 where l1: "life_step\<^sup>*\<^sup>* l l1" "sees e l1"
          "case q of Inl f \<Rightarrow> main_at l1 = Faulted f
           | Inr (s', current) \<Rightarrow> main_at l1 = Walking previous current \<and> same_acc s' (acc l1)"
          using round_simulated [OF Suc.prems(2) at Suc.prems(4,5) en Some q] by blast
        show ?thesis
        proof (cases q)
          case (Inl f)
          then have "r = Inl f" using Suc.prems(1) loop \<open>current = Some c\<close> by simp
          then show ?thesis using l1 Inl by auto
        next
          case (Inr x)
          obtain s' cur where x: "x = (s', cur)" by (cases x)
          then have "join_loop e pfuel fuel previous cur s' = Some r"
            using Suc.prems(1) loop Inr \<open>current = Some c\<close> by simp
          moreover have "life_run l1" using Suc.prems(2) l1(1) by (rule rtranclp_trans)
          ultimately show ?thesis
            using Suc.IH [of previous cur s' l1] l1 Inr x by (auto intro: rtranclp_trans)
        qed
      qed
    qed
  qed
qed simp

section \<open>One iteration of the main loop\<close>

text \<open>What the functions are told of the thread of the new connection, if it could be started.\<close>

definition sees_new :: "accept_env \<Rightarrow> bool" where
  "sees_new e \<longleftrightarrow> (\<forall>a junk. new_block e = Some (a, junk) \<longrightarrow>
     (if create_ret e = 0 then may_show Handling (finished e a) else finished e a = None))"

lemma sees_started:
  assumes run: "life_run l" and sees: "sees e l" and fresh: "fresh_env e l" and new_sees: "sees_new e"
    and new: "new_connection e (acc l) = Inr s"
  shows "sees e (l\<lparr>acc := s, handlers := start_thread e (handlers l), main_at := m\<rparr>)"
  unfolding sees_def
proof (intro allI impI)
  have ok: "life_ok l" by (rule life_run_ok [OF run])
  obtain xs where xs: "acc_list (acc l) xs" using ok by (rule main_okE)
  obtain a junk where blk: "new_block e = Some (a, junk)" using new by (auto simp: new_connection_def split: option.splits)
  have free: "live l a = None" using fresh blk by (simp add: fresh_env_def)
  let ?es = "(live l)(a \<mapsto> \<lparr>descriptor = accept_ret e, is_active = True,
    thread = (if create_ret e = 0 then Some (new_thread e) else None), next_entry = None\<rparr>)"
  have same: "same_but_links (entries s) ?es" using new_connection_linked [OF xs new blk free] by simp
  let ?l = "l\<lparr>acc := s, handlers := start_thread e (handlers l), main_at := m\<rparr>"
  fix x xn
  assume "live ?l x = Some xn"
  then obtain on where on: "?es x = Some on" "thread on = thread xn"
    using same_but_linksD [OF same, of x xn] by auto
  show "sees_entry e (handlers ?l) x (thread xn)"
  proof (cases "x = a")
    case True
    then have "thread xn = (if create_ret e = 0 then Some (new_thread e) else None)" using on by auto
    then show ?thesis
      using new_sees blk True by (auto simp: sees_entry_def sees_new_def start_thread_def split: if_splits)
  next
    case False
    then have x: "live l x = Some on" using on(1) by simp
    then have seen: "sees_entry e (handlers l) x (thread xn)" using sees on(2) unfolding sees_def by metis
    show ?thesis
    proof (cases "thread xn")
      case None
      then show ?thesis using seen by (simp add: sees_entry_def)
    next
      case (Some t)
      obtain pl where "handlers l t = Some (x, pl)"
        by (rule ownedE [OF threads_okD(1) [OF life_okD(1) [OF ok]] x]) (simp add: on(2) Some)
      then have "t \<noteq> new_thread e \<or> create_ret e \<noteq> 0" using fresh by (auto simp: fresh_env_def)
      then show ?thesis using seen Some by (auto simp: sees_entry_def start_thread_def split: option.splits if_splits)
    qed
  qed
qed

text \<open>
  C12: What the functions compute for an iteration of the main loop, the transition system does: from
  a state with the same list, \<open>tail\<close>, \<open>abort\<close> and joined threads it gets to such a state again, to the
  end of the loop when \<open>accept\<close> fails, or to the same fault. This holds for every state of the
  program and every result of \<open>accept\<close>, \<open>malloc\<close> and \<open>pthread_create\<close>, also when the newest
  connection has been joined, for any exit values that the threads can have at that time.
\<close>

theorem main_loop_simulated:
  assumes "life_run l" and "main_at l = Accepting" and "same_acc s (acc l)" and "\<not> abort s"
    and "sees e l" and "0 < sint (accept_ret e) \<longrightarrow> fresh_env e l \<and> sees_new e"
    and "accept_step e fuel s = Some r"
  shows "\<exists>l'. life_step\<^sup>*\<^sup>* l l' \<and>
    (case r of Inl f \<Rightarrow> main_at l' = Faulted f
     | Inr (s', left) \<Rightarrow> main_at l' = (if left then Ending else Accepting) \<and> same_acc s' (acc l'))"
proof -
  have go: "\<not> abort (acc l)" using assms(3,4) by (simp add: same_acc_def)
  show ?thesis
  proof (cases "sint (accept_ret e) < 0 \<and> \<not> would_block e")
    case True
    let ?l = "l\<lparr>acc := (acc l)\<lparr>abort := True\<rparr>, main_at := Ending\<rparr>"
    have "life_step\<^sup>*\<^sup>* l ?l" using accept_fails [OF assms(2) go] by (rule r_into_rtranclp)
    moreover have "r = Inr (s\<lparr>abort := True\<rparr>, True)" using assms(7) True by (simp add: accept_step_def)
    ultimately show ?thesis using assms(3) by (intro exI [of _ ?l]) (simp add: same_acc_def)
  next
    case no_error: False
    let ?new = "if 0 < sint (accept_ret e) then new_connection e s else Inr s"
    have step: "accept_step e fuel s = bindL (Some ?new) (\<lambda>s. bindL (join_loop e fuel fuel None (head s) s) (\<lambda>s. Some (Inr (s, False))))"
      using no_error by (auto simp: accept_step_def)
    have rest: "\<exists>l'. life_step\<^sup>*\<^sup>* l l' \<and>
        (case r of Inl f \<Rightarrow> main_at l' = Faulted f
         | Inr (s', left) \<Rightarrow> main_at l' = (if left then Ending else Accepting) \<and> same_acc s' (acc l'))"
      if s1: "?new = Inr s1" and l1: "life_step l l1" "main_at l1 = Walking None (head s1)" "same_acc s1 (acc l1)" "sees e l1"
      for s1 l1
    proof -
      obtain q where q: "join_loop e fuel fuel None (head s1) s1 = Some q"
        using assms(7) step s1 by (cases "join_loop e fuel fuel None (head s1) s1") auto
      have r: "r = (case q of Inl f \<Rightarrow> Inl f | Inr s \<Rightarrow> Inr (s, False))"
        using assms(7) step s1 q by (cases q) auto
      have run1: "life_run l1" using assms(1) l1(1) by (rule rtranclp.rtrancl_into_rtrancl)
      obtain l' where l': "life_step\<^sup>*\<^sup>* l1 l'"
        "case q of Inl f \<Rightarrow> main_at l' = Faulted f | Inr s' \<Rightarrow> main_at l' = Accepting \<and> same_acc s' (acc l')"
        using walk_simulated [OF q run1 l1(2-4)] by blast
      have "life_step\<^sup>*\<^sup>* l l'" using l1(1) l'(1) by (rule converse_rtranclp_into_rtranclp)
      then show ?thesis using l'(2) r by (cases q) auto
    qed
    show ?thesis
    proof (cases "0 < sint (accept_ret e)")
      case False
      let ?l = "l\<lparr>main_at := Walking None (head (acc l))\<rparr>"
      have "life_step l ?l" by (rule accept_nothing [OF assms(2) go])
      moreover have "same_acc s (acc ?l)" "head s = head (acc l)" using assms(3) by (simp_all add: same_acc_def)
      moreover have "sees e ?l" using assms(5) by (simp add: sees_def)
      ultimately show ?thesis using rest [of s ?l] False by simp
    next
      case True
      then have fresh: "fresh_env e l" "sees_new e" using assms(6) by simp_all
      have new: "same_res same_acc (new_connection e s) (new_connection e (acc l))"
        by (rule same_new_connection [OF assms(3)])
      show ?thesis
      proof (cases "new_connection e s")
        case (Inl f)
        then have "new_connection e (acc l) = Inl f" using new by (cases "new_connection e (acc l)") simp_all
        then have "life_step l (l\<lparr>main_at := Faulted f\<rparr>)" by (rule accept_fault [OF assms(2) go True fresh(1)])
        moreover have "r = Inl f" using assms(7) step Inl True by simp
        ultimately show ?thesis by (intro exI [of _ "l\<lparr>main_at := Faulted f\<rparr>"]) (simp add: r_into_rtranclp)
      next
        case (Inr s1)
        then obtain a1 where a1: "new_connection e (acc l) = Inr a1" "same_acc s1 a1"
          using new by (cases "new_connection e (acc l)") simp_all
        let ?l = "l\<lparr>acc := a1, handlers := start_thread e (handlers l), main_at := Walking None (head a1)\<rparr>"
        have "life_step l ?l" by (rule accept_conn [OF assms(2) go True fresh(1) a1(1)])
        moreover have "sees e ?l" by (rule sees_started [OF assms(1,5) fresh a1(1)])
        moreover have "head s1 = head a1" using a1(2) by (simp add: same_acc_def)
        ultimately show ?thesis using rest [of s1 ?l] True Inr a1(2) by simp
      qed
    qed
  qed
qed

section \<open>Witness\<close>

text \<open>
  The only connection, of thread 7, has been joined; the next one is accepted into another block,
  while \<open>tail\<close> still points to the freed entry.
\<close>

theorem main_loop_simulated_witness:
  "\<exists>l'. life_step\<^sup>*\<^sup>* (no_entry 7 0 Accepting) l' \<and> main_at l' = Faulted UseAfterFree"
proof -
  let ?l = "no_entry 7 0 Accepting" and ?e = "client_env 3"
  have run: "life_run ?l" by (rule no_entry_run) simp
  have facts: "main_at ?l = Accepting" "same_acc (acc ?l) (acc ?l)" "\<not> abort (acc ?l)" "sees ?e ?l"
    "0 < sint (accept_ret ?e) \<longrightarrow> fresh_env ?e ?l \<and> sees_new ?e"
    by (auto simp: no_entry_def same_acc_def same_list_def sees_def fresh_env_def sees_new_def may_show_def
        client_env_def quiet_env_def)
  have "accept_step ?e 2 (acc ?l) = Some (Inl UseAfterFree)"
    by (simp add: accept_step_def new_connection_def slist_insert_after_def entry_at_def no_entry_def
        client_env_def quiet_env_def)
  from main_loop_simulated [OF run facts this] show ?thesis by simp
qed

end
