(* ===== verification/World.thy ===== *)
theory World
  imports AcceptorLife
begin

text \<open>
  The main thread and the entries of theory EntryLife together with what the threads of the
  connections do, which is left open here: theory ServerWorld puts in the threads that work on a
  regular file, theory DeviceWorld those that work on the device. What the two have in common
  is the locale \<open>worker\<close>.
\<close>

section \<open>Model\<close>

record 'w world =
  life :: entry_life
  part :: 'w

definition thread_at :: "'w world \<Rightarrow> nat \<Rightarrow> handler_place \<Rightarrow> bool" where
  "thread_at w t pl \<longleftrightarrow> (\<exists>a. handlers (life w) t = Some (a, pl))"

text \<open>
  A connection thread begins to work when it has been started; threads that are not in \<open>clients\<close>,
  such as the timer, have no entry. \<open>work i\<close> is a step of thread \<open>i\<close>, and \<open>may_end s i v\<close> says
  that thread \<open>i\<close> has come to the end of its handler and can choose the exit value \<open>v\<close>.
\<close>

inductive world_step ::
  "(nat \<Rightarrow> 'w \<Rightarrow> 'w \<Rightarrow> bool) \<Rightarrow> ('w \<Rightarrow> nat \<Rightarrow> s32 \<Rightarrow> bool) \<Rightarrow> nat set \<Rightarrow> 'w world \<Rightarrow> 'w world \<Rightarrow> bool"
  for work may_end clients where
  works: "i \<in> clients \<longrightarrow> thread_at w i Handling \<Longrightarrow> work i (part w) s' \<Longrightarrow>
    world_step work may_end clients w (w\<lparr>part := s'\<rparr>)"
| entries: "life_step (life w) l' \<Longrightarrow>
    \<forall>t \<in> clients. \<forall>a v. handlers (life w) t = Some (a, Handling) \<longrightarrow> handlers l' t \<noteq> Some (a, Inactive v) \<Longrightarrow>
    world_step work may_end clients w (w\<lparr>life := l'\<rparr>)"
| finish: "i \<in> clients \<Longrightarrow> may_end (part w) i v \<Longrightarrow>
    handlers (life w) i = Some (a, Handling) \<Longrightarrow> live (life w) a = Some en \<Longrightarrow>
    world_step work may_end clients w
      (w\<lparr>life := stored (life w) i a (en\<lparr>is_active := False\<rparr>) (Inactive v)\<rparr>)"

definition world_start :: "'w \<Rightarrow> 'w world" where
  "world_start s = \<lparr>life = life_start, part = s\<rparr>"

inductive part_run :: "(nat \<Rightarrow> 'w \<Rightarrow> 'w \<Rightarrow> bool) \<Rightarrow> 'w \<Rightarrow> 'w \<Rightarrow> bool" for work s\<^sub>0 where
  part_start: "part_run work s\<^sub>0 s\<^sub>0"
| part_step: "part_run work s\<^sub>0 s \<Longrightarrow> work i s s' \<Longrightarrow> part_run work s\<^sub>0 s'"

section \<open>What an exit value means\<close>

lemma life_step_values:
  assumes "life_step l l'" and "handlers l' t = Some (a, pl)" and "value_of pl = Some v"
  shows "\<exists>pl0. handlers l t = Some (a, pl0) \<and> (value_of pl0 = Some v \<or> pl0 = Handling \<and> pl = Inactive v)"
  using assms
  by cases (auto simp: value_of_def start_thread_def split: if_splits handler_place.splits option.splits)

text \<open>
  What the threads have to keep: \<open>ended s i\<close> is the flag \<open>abort\<close> thread \<open>i\<close> has ended its work with,
  a connection that has ended does nothing more, and the exit value 0 needs \<open>abort\<close> to be false.
\<close>

locale worker =
  fixes work :: "nat \<Rightarrow> 'w \<Rightarrow> 'w \<Rightarrow> bool" and may_end :: "'w \<Rightarrow> nat \<Rightarrow> s32 \<Rightarrow> bool"
    and clients :: "nat set" and ended :: "'w \<Rightarrow> nat \<Rightarrow> bool option"
  assumes working: "i \<in> clients \<Longrightarrow> work i s s' \<Longrightarrow> ended s i = None"
    and others: "work i s s' \<Longrightarrow> j \<noteq> i \<Longrightarrow> ended s' j = ended s j"
    and exit_value: "may_end s i v \<Longrightarrow> v = 0 \<or> v = - 1"
    and exit_zero: "may_end s i 0 \<Longrightarrow> ended s i = Some False"
begin

lemma world_parts:
  assumes "(world_step work may_end clients)\<^sup>*\<^sup>* (world_start s\<^sub>0) w"
  shows "life_run (life w) \<and> part_run work s\<^sub>0 (part w)"
  using assms
proof (induction rule: rtranclp_induct)
  case base
  show ?case by (simp add: world_start_def part_start)
next
  case (step w w')
  from step(2) show ?case
  proof cases
    case (works i s')
    then show ?thesis using step(3) part_step by fastforce
  next
    case (entries l')
    then have "life_run l'" using step(3) by (meson rtranclp.rtrancl_into_rtrancl)
    then show ?thesis using entries(1) step(3) by simp
  next
    case (finish i v a en)
    then have "life_step (life w) (life w')"
      using deactivate [OF finish(4,5) exit_value [OF finish(3)]] by simp
    then have "life_run (life w')" using step(3) by (meson rtranclp.rtrancl_into_rtrancl)
    then show ?thesis using step(3) finish(1) by simp
  qed
qed

lemma zero_ended:
  assumes "(world_step work may_end clients)\<^sup>*\<^sup>* (world_start s\<^sub>0) w"
  shows "\<forall>t \<in> clients. \<forall>a pl. handlers (life w) t = Some (a, pl) \<longrightarrow> value_of pl = Some 0 \<longrightarrow>
    ended (part w) t = Some False"
  using assms
proof (induction rule: rtranclp_induct)
  case base
  show ?case by (simp add: world_start_def life_start_def)
next
  case (step w w')
  from step(2) show ?case
  proof cases
    case (works i s')
    show ?thesis
    proof (intro ballI allI impI)
      fix t a pl
      assume t: "t \<in> clients" "handlers (life w') t = Some (a, pl)" "value_of pl = Some 0"
      then have past: "ended (part w) t = Some False" using step(3) works(1) by simp
      then have "t \<noteq> i" using working [OF _ works(3)] t(1) by auto
      then show "ended (part w') t = Some False" using others [OF works(3)] past works(1) by simp
    qed
  next
    case (entries l')
    show ?thesis
    proof (intro ballI allI impI)
      fix t a pl
      assume t: "t \<in> clients" "handlers (life w') t = Some (a, pl)" "value_of pl = Some 0"
      then obtain pl0 where "handlers (life w) t = Some (a, pl0)" "value_of pl0 = Some 0"
        using life_step_values [OF entries(2), of t a pl 0] entries(1,3) by auto
      then show "ended (part w') t = Some False" using step(3) t(1) entries(1) by simp
    qed
  next
    case (finish i v a en)
    then show ?thesis using step(3) exit_zero by (auto split: if_splits)
  qed
qed

text \<open>The main thread has read 0, so the thread has got through its handler without an error.\<close>

lemma joined_zero:
  assumes "(world_step work may_end clients)\<^sup>*\<^sup>* (world_start s\<^sub>0) w"
    and "t \<in> clients" and "(t, 0) \<in> set (results (life w))"
  shows "part_run work s\<^sub>0 (part w) \<and> ended (part w) t = Some False"
proof -
  have "life_run (life w)" using world_parts [OF assms(1)] by simp
  then obtain a where "handlers (life w) t = Some (a, Exited 0)"
    using threads_okD(3) [OF life_okD(1) [OF life_run_ok]] assms(3) unfolding joined_ok_def by blast
  then show ?thesis using zero_ended [OF assms(1)] world_parts [OF assms(1)] assms(2) by auto
qed

end

section \<open>One connection from the start to the end\<close>

lemma world_works:
  assumes "part_run work s\<^sub>0 s" and "\<forall>i \<in> clients. thread_at w i Handling" and "part w = s\<^sub>0"
  shows "(world_step work may_end clients)\<^sup>*\<^sup>* w (w\<lparr>part := s\<rparr>)"
  using assms(1)
proof (induction rule: part_run.induct)
  case part_start
  have "w\<lparr>part := s\<^sub>0\<rparr> = w" using assms(3) by (cases w) simp
  then show ?case by simp
next
  case (part_step s i s')
  have "world_step work may_end clients (w\<lparr>part := s\<rparr>) (w\<lparr>part := s'\<rparr>)"
    using works [of i clients "w\<lparr>part := s\<rparr>" work s' may_end] part_step.hyps(2) assms(2)
    by (simp add: thread_at_def)
  with part_step.IH show ?case by (rule rtranclp.rtrancl_into_rtrancl)
qed

lemma started_stays:
  "life_step l l' \<Longrightarrow> handlers l t = Some (a, pl) \<Longrightarrow> pl \<noteq> Handling \<Longrightarrow>
   \<exists>pl'. handlers l' t = Some (a, pl') \<and> pl' \<noteq> Handling"
  by (cases rule: life_step.cases) (auto simp: start_thread_def fresh_env_def split: option.splits if_splits)

lemma world_lives:
  assumes "life_step\<^sup>*\<^sup>* l l'" and "\<forall>t \<in> clients. \<exists>a pl. handlers l t = Some (a, pl) \<and> pl \<noteq> Handling"
  shows "(world_step work may_end clients)\<^sup>*\<^sup>* \<lparr>life = l, part = s\<rparr> \<lparr>life = l', part = s\<rparr> \<and>
    (\<forall>t \<in> clients. \<exists>a pl. handlers l' t = Some (a, pl) \<and> pl \<noteq> Handling)"
  using assms(1)
proof (induction rule: rtranclp_induct)
  case base
  show ?case using assms(2) by simp
next
  case (step l1 l2)
  have "world_step work may_end clients \<lparr>life = l1, part = s\<rparr> (\<lparr>life = l1, part = s\<rparr>\<lparr>life := l2\<rparr>)"
    by (rule entries) (use step in \<open>fastforce+\<close>)
  then have "(world_step work may_end clients)\<^sup>*\<^sup>* \<lparr>life = l, part = s\<rparr> \<lparr>life = l2, part = s\<rparr>"
    using step(3) by (auto intro: rtranclp.rtrancl_into_rtrancl)
  moreover have "\<forall>t \<in> clients. \<exists>a pl. handlers l2 t = Some (a, pl) \<and> pl \<noteq> Handling"
    using step(3) started_stays [OF step(2)] by fastforce
  ultimately show ?case by simp
qed

lemma one_entry_gone:
  "life_step\<^sup>*\<^sup>* (one_entry t False 7 (Inactive 0) Accepting) (no_entry t 0 (Walking None None))"
  using one_entry_exits [of t 7 0 Accepting] one_entry_joined [of t 0] one_entry_reaped [of t 0]
  by (meson rtranclp_trans rtranclp.rtrancl_into_rtrancl)

lemma one_connection:
  assumes "part_run work s\<^sub>0 s" and "may_end s t 0"
  obtains w where "(world_step work may_end {t})\<^sup>*\<^sup>* (world_start s\<^sub>0) w"
    and "results (life w) = [(t, 0)]" and "part w = s"
proof -
  let ?step = "world_step work may_end {t}"
  let ?k = "one_entry t True 7 Handling (Walking None (Some 0))" and ?l1 = "one_entry t True 7 Handling Accepting"
  let ?l2 = "one_entry t False 7 (Inactive 0) Accepting" and ?l = "no_entry t 0 (Walking None None)"
  have "?step (world_start s\<^sub>0) \<lparr>life = ?k, part = s\<^sub>0\<rparr>"
    using entries [of "world_start s\<^sub>0" ?k "{t}"] one_entry_accepted [of t]
    by (simp add: world_start_def life_start_def)
  moreover have "?step \<lparr>life = ?k, part = s\<^sub>0\<rparr> \<lparr>life = one_entry t True 7 Handling (Walking (Some 0) None), part = s\<^sub>0\<rparr>"
    using entries [of "\<lparr>life = ?k, part = s\<^sub>0\<rparr>" "one_entry t True 7 Handling (Walking (Some 0) None)" "{t}"]
      walk_past [of ?k None 0] by (simp add: one_entry_def)
  moreover have "?step \<lparr>life = one_entry t True 7 Handling (Walking (Some 0) None), part = s\<^sub>0\<rparr> \<lparr>life = ?l1, part = s\<^sub>0\<rparr>"
    using entries [of "\<lparr>life = one_entry t True 7 Handling (Walking (Some 0) None), part = s\<^sub>0\<rparr>" ?l1 "{t}"]
      walk_done [of "one_entry t True 7 Handling (Walking (Some 0) None)" "Some 0"] by (simp add: one_entry_def)
  moreover have "?step\<^sup>*\<^sup>* \<lparr>life = ?l1, part = s\<^sub>0\<rparr> (\<lparr>life = ?l1, part = s\<^sub>0\<rparr>\<lparr>part := s\<rparr>)"
    by (rule world_works [OF assms(1)]) (simp_all add: thread_at_def one_entry_def)
  moreover have "?step \<lparr>life = ?l1, part = s\<rparr> \<lparr>life = ?l2, part = s\<rparr>"
    using finish [of t "{t}" may_end "\<lparr>life = ?l1, part = s\<rparr>" 0 0
        "\<lparr>descriptor = 7, is_active = True, thread = Some t, next_entry = None\<rparr>" work] assms(2)
    by (simp add: one_entry_def)
  moreover have "?step\<^sup>*\<^sup>* \<lparr>life = ?l2, part = s\<rparr> \<lparr>life = ?l, part = s\<rparr>"
    by (rule conjunct1 [OF world_lives [OF one_entry_gone]]) (simp add: one_entry_def)
  ultimately have "?step\<^sup>*\<^sup>* (world_start s\<^sub>0) \<lparr>life = ?l, part = s\<rparr>"
    by (simp add: converse_rtranclp_into_rtranclp)
  then show thesis using that [of "\<lparr>life = ?l, part = s\<rparr>"] by (simp add: no_entry_def)
qed

end
