(* ===== verification/IoMutex.thy ===== *)
theory IoMutex
  imports PutLoops "HOL-Library.Sublist"
begin

text \<open>
  The sections of \<open>conn_handler\<close> (\<open>server/src/connection.c\<close>) and \<open>timer_handler\<close>
  (\<open>server/src/signal.c\<close>) that append a record to the file while they hold \<open>io_mutex\<close>, for any
  number of threads whose calls of \<open>write\<close> interleave.
\<close>

section \<open>Model\<close>

text \<open>
  \<open>pending s i\<close> are the records thread \<open>i\<close> has still to append: one packet for a connection,
  a time stamp for every alarm of the timer. \<open>place s i\<close> is where the thread is inside
  \<open>putchars\<close> for the first of them, \<open>buf_head\<close> and \<open>bytes_left\<close>, or \<open>None\<close> outside the section.
  \<open>failed\<close> says that a write of the thread failed, after which it appends nothing more.
\<close>

record 'f shared =
  shared_file :: 'f
  holder :: "nat option"
  pending :: "nat \<Rightarrow> byte list list"
  place :: "nat \<Rightarrow> (nat \<times> size_t) option"
  failed :: "nat \<Rightarrow> bool"

inductive locked_step :: "'f sink \<Rightarrow> nat \<Rightarrow> 'f shared \<Rightarrow> 'f shared \<Rightarrow> bool" for w i where
  enter: "place s i = None \<Longrightarrow> holder s = None \<Longrightarrow> \<not> failed s i \<Longrightarrow> pending s i = buf # rest \<Longrightarrow>
    locked_step w i s (s\<lparr>holder := Some i,
      place := (place s)(i \<mapsto> (0, of_nat (length buf)))\<rparr>)"
| call: "place s i = Some (head, left) \<Longrightarrow> left \<noteq> 0 \<Longrightarrow> pending s i = buf # rest \<Longrightarrow>
    w (shared_file s) (take (unat left) (drop head buf)) = Inr (f, n) \<Longrightarrow> 0 \<le> sint n \<Longrightarrow>
    locked_step w i s (s\<lparr>shared_file := f,
      place := (place s)(i \<mapsto> (head + unat n, left - n))\<rparr>)"
| fail: "place s i = Some (head, left) \<Longrightarrow> left \<noteq> 0 \<Longrightarrow> pending s i = buf # rest \<Longrightarrow>
    w (shared_file s) (take (unat left) (drop head buf)) = Inr (f, n) \<Longrightarrow> sint n < 0 \<Longrightarrow>
    locked_step w i s (s\<lparr>shared_file := f, holder := None, place := (place s)(i := None),
      pending := (pending s)(i := rest), failed := (failed s)(i := True)\<rparr>)"
| leave: "place s i = Some (head, 0) \<Longrightarrow> pending s i = buf # rest \<Longrightarrow>
    locked_step w i s (s\<lparr>holder := None, place := (place s)(i := None),
      pending := (pending s)(i := rest)\<rparr>)"

definition locked_start :: "'f \<Rightarrow> (nat \<Rightarrow> byte list list) \<Rightarrow> 'f shared" where
  "locked_start f recs =
     \<lparr>shared_file = f, holder = None, pending = recs, place = (\<lambda>_. None), failed = (\<lambda>_. False)\<rparr>"

inductive locked_run :: "'f sink \<Rightarrow> 'f shared \<Rightarrow> 'f shared \<Rightarrow> bool" for w s\<^sub>0 where
  start: "locked_run w s\<^sub>0 s\<^sub>0"
| more: "locked_run w s\<^sub>0 s \<Longrightarrow> locked_step w i s s' \<Longrightarrow> locked_run w s\<^sub>0 s'"

section \<open>What is in the file\<close>

text \<open>
  The records appended so far, in the order of the mutex: the thread, the record, and how
  many bytes of it were written.
\<close>

type_synonym history = "(nat \<times> byte list \<times> nat) list"

definition written :: "history \<Rightarrow> byte list" where
  "written h = concat (map (\<lambda>(i, bs, m). take m bs) h)"

definition records_of :: "nat \<Rightarrow> history \<Rightarrow> byte list list" where
  "records_of i h = map (\<lambda>(j, bs, m). bs) (filter (\<lambda>(j, bs, m). j = i) h)"

lemma history_simps [simp]:
  "written [] = []" "records_of i [] = []"
  "written (h @ [(j, bs, m)]) = written h @ take m bs"
  "records_of i (h @ [(j, bs, m)]) = records_of i h @ (if j = i then [bs] else [])"
  by (simp_all add: written_def records_of_def)

text \<open>The piece of the record that is being written.\<close>

definition piece :: "'f shared \<Rightarrow> byte list" where
  "piece s = (case holder s of None \<Rightarrow> []
     | Some i \<Rightarrow> (case place s i of None \<Rightarrow> [] | Some (head, left) \<Rightarrow> take head (hd (pending s i))))"

definition locked_inv ::
  "('f \<Rightarrow> byte list) \<Rightarrow> 'f \<Rightarrow> (nat \<Rightarrow> byte list list) \<Rightarrow> history \<Rightarrow> 'f shared \<Rightarrow> bool" where
  "locked_inv taken f recs h s \<longleftrightarrow>
     taken (shared_file s) = taken f @ written h @ piece s \<and>
     (\<forall>i. records_of i h @ pending s i = recs i) \<and>
     (\<forall>i bs m. (i, bs, m) \<in> set h \<longrightarrow> m = length bs \<or> failed s i) \<and>
     (\<forall>i. place s i \<noteq> None \<longleftrightarrow> holder s = Some i) \<and>
     (\<forall>i head left. place s i = Some (head, left) \<longrightarrow>
        (\<exists>buf rest. pending s i = buf # rest \<and> head + unat left = length buf))"

lemma sink_ok_call:
  assumes "sink_ok taken w" and "w f bs = Inr (f', n)"
  shows "if sint n < 0 then taken f' = taken f
    else unat n \<le> length bs \<and> taken f' = taken f @ take (unat n) bs"
proof -
  obtain g m where "w f bs = Inr (g, m)" "m = - 1 \<and> taken g = taken f \<or>
      0 \<le> sint m \<and> unat m \<le> length bs \<and> taken g = taken f @ take (unat m) bs"
    using assms(1) unfolding sink_ok_def by blast
  then show ?thesis using assms(2) by auto
qed

lemma locked_inv_start: "locked_inv taken f recs [] (locked_start f recs)"
  by (simp add: locked_inv_def locked_start_def piece_def)

lemma locked_inv_step:
  assumes step: "locked_step w i s s'" and inv: "locked_inv taken f recs h s"
    and sink: "sink_ok taken w" and small: "\<forall>bs \<in> set (recs i). length bs < 2 ^ 64"
  shows "\<exists>h'. locked_inv taken f recs h' s'"
proof -
  have content: "taken (shared_file s) = taken f @ written h @ piece s"
    and recs: "\<And>j. records_of j h @ pending s j = recs j"
    and whole: "\<forall>j bs m. (j, bs, m) \<in> set h \<longrightarrow> m = length bs \<or> failed s j"
    and own: "\<And>j. place s j \<noteq> None \<longleftrightarrow> holder s = Some j"
    and inside: "\<And>j head left. place s j = Some (head, left) \<Longrightarrow>
      \<exists>buf rest. pending s j = buf # rest \<and> head + unat left = length buf"
    using inv by (simp_all add: locked_inv_def)
  from step show ?thesis
  proof cases
    case (enter buf rest)
    have "buf \<in> set (recs i)" using recs [of i] enter by (metis in_set_conv_decomp append.assoc append_Cons)
    then have "unat (of_nat (length buf) :: size_t) = length buf"
      using small by (intro unat_of_nat_fits) auto
    moreover have "place s j = None" for j using own [of j] enter by (cases "place s j") auto
    moreover have "piece s = []" using enter by (simp add: piece_def)
    ultimately show ?thesis
      using enter content recs whole unfolding enter(1) locked_inv_def
      by (intro exI [of _ h]) (auto simp: piece_def)
  next
    case (call head left buf rest f' n)
    have hold: "holder s = Some i" using own [of i] call by simp
    have len: "head + unat left = length buf" using inside [OF call(2)] call(4) by auto
    have n: "unat n \<le> unat left" "taken f' = taken (shared_file s) @ take (unat n) (drop head buf)"
      using sink_ok_call [OF sink call(5)] call(6) len by auto
    have "piece s = take head buf" using hold call by (simp add: piece_def)
    then have "taken f' = taken f @ written h @ take (head + unat n) buf"
      using content n(2) by (simp add: take_add)
    moreover have "place s j = None" if "j \<noteq> i" for j using own [of j] hold that by (cases "place s j") auto
    moreover have "unat (left - n) = unat left - unat n" using n(1) by (rule unat_sub_fits)
    ultimately show ?thesis
      using hold call(2,4) recs whole n(1) len unfolding call(1) locked_inv_def
      by (intro exI [of _ h]) (auto simp: piece_def)
  next
    case (fail head left buf rest f' n)
    have hold: "holder s = Some i" using own [of i] fail by simp
    have len: "head + unat left = length buf" using inside [OF fail(2)] fail(4) by auto
    have "taken f' = taken (shared_file s)"
      using sink_ok_call [OF sink fail(5)] fail(6) by auto
    moreover have "piece s = take head buf" using hold fail by (simp add: piece_def)
    ultimately have "taken f' = taken f @ written (h @ [(i, buf, head)])"
      using content by simp
    moreover have "place s j = None" if "j \<noteq> i" for j using own [of j] hold that by (cases "place s j") auto
    moreover have "records_of j (h @ [(i, buf, head)]) @ (if j = i then rest else pending s j) = recs j" for j
      using recs [of j] fail(4) by auto
    ultimately show ?thesis
      using whole unfolding fail(1) locked_inv_def
      by (intro exI [of _ "h @ [(i, buf, head)]"]) (auto simp: piece_def)
  next
    case (leave head buf rest)
    have hold: "holder s = Some i" using own [of i] leave by simp
    have len: "head = length buf" using inside [OF leave(2)] leave(3) by auto
    have "piece s = buf" using hold leave len by (simp add: piece_def)
    then have "taken (shared_file s) = taken f @ written (h @ [(i, buf, length buf)])"
      using content by simp
    moreover have "place s j = None" if "j \<noteq> i" for j using own [of j] hold that by (cases "place s j") auto
    moreover have "records_of j (h @ [(i, buf, length buf)]) @ (if j = i then rest else pending s j) = recs j" for j
      using recs [of j] leave(3) by auto
    ultimately show ?thesis
      using whole unfolding leave(1) locked_inv_def
      by (intro exI [of _ "h @ [(i, buf, length buf)]"]) (auto simp: piece_def)
  qed
qed

lemma locked_inv_run:
  assumes "sink_ok taken w" and "\<forall>i. \<forall>bs \<in> set (recs i). length bs < 2 ^ 64"
    and "locked_run w (locked_start f recs) s"
  shows "\<exists>h. locked_inv taken f recs h s"
  using assms(3)
proof (induction rule: locked_run.induct)
  case start
  show ?case by (rule exI [of _ "[]"]) (rule locked_inv_start)
next
  case (more s i s')
  then obtain h where "locked_inv taken f recs h s" by blast
  from locked_inv_step [OF more(2) this assms(1)] assms(2) show ?case by simp
qed

section \<open>The steps of one thread\<close>

lemma section_runs_loop:
  assumes "place s i = Some (head, left)" and "pending s i = buf # rest"
    and "putchars_loop w fuel (shared_file s) buf head left = Some (Inr (f, ret))"
  shows "(ret = 0 \<or> ret = - 1) \<and> (locked_step w i)\<^sup>*\<^sup>* s (s\<lparr>shared_file := f, holder := None,
    place := (place s)(i := None), pending := (pending s)(i := rest),
    failed := (failed s)(i := failed s i \<or> ret \<noteq> 0)\<rparr>)"
  using assms
proof (induction fuel arbitrary: s head left)
  case (Suc fuel)
  show ?case
  proof (cases "left = 0")
    case True
    then have "locked_step w i s (s\<lparr>holder := None, place := (place s)(i := None),
        pending := (pending s)(i := rest)\<rparr>)"
      using Suc.prems by (intro leave) simp_all
    moreover have "f = shared_file s" "ret = 0" using Suc.prems True by simp_all
    moreover have "(failed s)(i := failed s i \<or> (0 :: s32) \<noteq> 0) = failed s" by simp
    ultimately show ?thesis by (simp only: simp_thms) (simp add: r_into_rtranclp)
  next
    case False
    obtain g n where g: "w (shared_file s) (take (unat left) (drop head buf)) = Inr (g, n)"
      using Suc.prems(3) False
      by (cases "w (shared_file s) (take (unat left) (drop head buf))")
        (auto simp: word_neq_0_conv split: if_splits)
    show ?thesis
    proof (cases "sint n < 0")
      case True
      then have "f = g" "ret = - 1"
        using Suc.prems(3) False g by (auto simp: word_neq_0_conv split: if_splits)
      moreover have "locked_step w i s (s\<lparr>shared_file := g, holder := None,
          place := (place s)(i := None), pending := (pending s)(i := rest),
          failed := (failed s)(i := True)\<rparr>)"
        by (rule locked_step.fail [where head = head and left = left and buf = buf and rest = rest])
          (fact Suc.prems False g True)+
      moreover have "(failed s)(i := failed s i \<or> (- 1 :: s32) \<noteq> 0) = (failed s)(i := True)" by simp
      ultimately show ?thesis by (simp only: simp_thms r_into_rtranclp)
    next
      case ok: False
      let ?s = "s\<lparr>shared_file := g, place := (place s)(i \<mapsto> (head + unat n, left - n))\<rparr>"
      have first: "locked_step w i s ?s"
        by (rule call [where head = head and left = left and buf = buf and rest = rest])
          (use Suc.prems False g ok in simp_all)
      have "putchars_loop w fuel (shared_file ?s) buf (head + unat n) (left - n) = Some (Inr (f, ret))"
        using Suc.prems(3) False g ok by (auto simp: word_neq_0_conv split: if_splits)
      moreover have "place ?s i = Some (head + unat n, left - n)" "pending ?s i = buf # rest"
        using Suc.prems(2) by simp_all
      ultimately have "(ret = 0 \<or> ret = - 1) \<and> (locked_step w i)\<^sup>*\<^sup>* ?s (?s\<lparr>shared_file := f,
          holder := None, place := (place ?s)(i := None), pending := (pending ?s)(i := rest),
          failed := (failed ?s)(i := failed ?s i \<or> ret \<noteq> 0)\<rparr>)" by (intro Suc.IH)
      also have "?s\<lparr>shared_file := f,
          holder := None, place := (place ?s)(i := None), pending := (pending ?s)(i := rest),
          failed := (failed ?s)(i := failed ?s i \<or> ret \<noteq> 0)\<rparr> =
        s\<lparr>shared_file := f, holder := None, place := (place s)(i := None),
          pending := (pending s)(i := rest), failed := (failed s)(i := failed s i \<or> ret \<noteq> 0)\<rparr>"
        by simp
      finally have "(ret = 0 \<or> ret = - 1) \<and> (locked_step w i)\<^sup>*\<^sup>* ?s (s\<lparr>shared_file := f,
          holder := None, place := (place s)(i := None),
          pending := (pending s)(i := rest), failed := (failed s)(i := failed s i \<or> ret \<noteq> 0)\<rparr>)" .
      with first show ?thesis by (blast intro: converse_rtranclp_into_rtranclp)
    qed
  qed
qed simp

section \<open>Properties\<close>

text \<open>
  C7: Records are not mixed up. However the calls of the connection threads and of the timer
  interleave, and however many bytes the kernel takes at a time, what the file has grown by
  is a sequence of records in the order in which the mutex was taken, followed by a piece of
  the record of the thread that holds it. Every record of the sequence is whole unless a
  write of its thread failed, and each thread's records are there in its own order.
\<close>

theorem records_not_mixed:
  assumes "sink_ok taken w" and "\<forall>i. \<forall>bs \<in> set (recs i). length bs < 2 ^ 64"
    and "locked_run w (locked_start f recs) s"
  shows "\<exists>h. taken (shared_file s) = taken f @ written h @ piece s \<and>
    (\<forall>i. records_of i h @ pending s i = recs i) \<and>
    (\<forall>i bs m. (i, bs, m) \<in> set h \<longrightarrow> m = length bs \<or> failed s i) \<and>
    (\<forall>i. holder s = Some i \<longrightarrow> prefix (piece s) (hd (pending s i))) \<and> (holder s = None \<longrightarrow> piece s = [])"
proof -
  obtain h where h: "locked_inv taken f recs h s" using locked_inv_run [OF assms] by blast
  then have "prefix (piece s) (hd (pending s i))" if "holder s = Some i" for i
    using that by (auto simp: piece_def take_is_prefix split: option.split)
  moreover have "holder s = None \<longrightarrow> piece s = []" by (simp add: piece_def)
  ultimately show ?thesis using h unfolding locked_inv_def by (intro exI [of _ h]) simp
qed

text \<open>
  The steps of a thread are the code's \<open>putchars\<close>. A thread that takes the free mutex and is
  not disturbed goes through its section to the state that the function \<open>putchars\<close> computes:
  the file is the one \<open>putchars\<close> leaves, the record is off the list, the mutex is free, and
  the thread has failed exactly when \<open>putchars\<close> returned an error.
\<close>

theorem section_runs_putchars:
  assumes "place s i = None" and "holder s = None" and "\<not> failed s i" and "pending s i = buf # rest"
    and "putchars w fuel (shared_file s) buf (of_nat (length buf)) = Some (Inr (f, ret))"
  shows "(locked_step w i)\<^sup>*\<^sup>* s
    (s\<lparr>shared_file := f, pending := (pending s)(i := rest), failed := (failed s)(i := (ret \<noteq> 0))\<rparr>)"
proof -
  let ?s = "s\<lparr>holder := Some i, place := (place s)(i \<mapsto> (0, of_nat (length buf)))\<rparr>"
  have first: "locked_step w i s ?s" by (rule enter [OF assms(1-4)])
  have "putchars_loop w fuel (shared_file ?s) buf 0 (of_nat (length buf)) = Some (Inr (f, ret))"
    using assms(5) by (simp add: putchars_def)
  from section_runs_loop [OF _ _ this, of i rest] assms(4)
  have "(locked_step w i)\<^sup>*\<^sup>* ?s (?s\<lparr>shared_file := f, holder := None, place := (place ?s)(i := None),
      pending := (pending s)(i := rest), failed := (failed s)(i := failed s i \<or> ret \<noteq> 0)\<rparr>)"
    by simp
  moreover have "?s\<lparr>shared_file := f, holder := None, place := (place ?s)(i := None),
      pending := (pending s)(i := rest), failed := (failed s)(i := failed s i \<or> ret \<noteq> 0)\<rparr> =
    s\<lparr>shared_file := f, pending := (pending s)(i := rest), failed := (failed s)(i := (ret \<noteq> 0))\<rparr>"
    using assms(1-3) by (simp add: fun_upd_idem)
  ultimately have "(locked_step w i)\<^sup>*\<^sup>* ?s
      (s\<lparr>shared_file := f, pending := (pending s)(i := rest), failed := (failed s)(i := (ret \<noteq> 0))\<rparr>)"
    by (simp only:)
  with first show ?thesis by (rule converse_rtranclp_into_rtranclp [of "locked_step w i"])
qed

section \<open>Witnesses\<close>

text \<open>Two threads with a record each; the first is in the middle of its record.\<close>

definition two_records :: "nat \<Rightarrow> byte list list" where
  "two_records i = (if i = 0 then [[1, 2, 3]] else if i = 1 then [[7]] else [])"

definition half_written :: "byte list shared" where
  "half_written = (locked_start [] two_records)\<lparr>holder := Some 0, shared_file := [1, 2],
     place := (\<lambda>_. None)(0 \<mapsto> (2, 1))\<rparr>"

lemma half_written_run: "locked_run two_at_a_time (locked_start [] two_records) half_written"
proof -
  let ?s = "locked_start [] two_records :: byte list shared"
  let ?s1 = "?s\<lparr>holder := Some 0, place := (place ?s)(0 \<mapsto> (0, of_nat (length [1, 2, 3 :: byte])))\<rparr>"
  have "locked_step two_at_a_time 0 ?s ?s1"
    by (rule enter [where rest = "[]"]) (simp_all add: locked_start_def two_records_def)
  then have 1: "locked_run two_at_a_time ?s ?s1" by (rule more [OF locked_run.start])
  have "locked_step two_at_a_time 0 ?s1 (?s1\<lparr>shared_file := [1, 2],
      place := (place ?s1)(0 \<mapsto> (0 + unat (2 :: ssize_t), 3 - 2))\<rparr>)"
    by (rule call [where head = 0 and left = 3 and buf = "[1, 2, 3]" and rest = "[]"])
      (simp_all add: locked_start_def two_records_def two_at_a_time_def)
  then have "locked_run two_at_a_time ?s (?s1\<lparr>shared_file := [1, 2],
      place := (place ?s1)(0 \<mapsto> (0 + unat (2 :: ssize_t), 3 - 2))\<rparr>)" by (rule more [OF 1])
  then show ?thesis by (simp add: half_written_def locked_start_def flip: numeral_2_eq_2)
qed

theorem records_not_mixed_witness:
  "\<exists>h. shared_file half_written = written h @ piece half_written \<and> prefix (piece half_written) [1, 2, 3]"
proof -
  have small: "\<forall>i. \<forall>bs \<in> set (two_records i). length bs < 2 ^ 64" by (simp add: two_records_def)
  have hold: "holder half_written = Some 0" "pending half_written 0 = [[1, 2, 3]]"
    by (simp_all add: half_written_def locked_start_def two_records_def)
  show ?thesis
    using records_not_mixed [OF two_at_a_time_ok(1) small half_written_run] hold by auto
qed

theorem section_runs_putchars_witness:
  "\<exists>s. (locked_step two_at_a_time 0)\<^sup>*\<^sup>* (locked_start [] two_records) s \<and> shared_file s = [1, 2, 3] \<and>
     holder s = None"
proof -
  have "putchars two_at_a_time 4 [] [1, 2, 3] 3 = Some (Inr ([1, 2, 3], 0))" by code_simp
  then have "putchars two_at_a_time 4 (shared_file (locked_start [] two_records)) [1, 2, 3]
      (of_nat (length [1, 2, 3 :: byte])) = Some (Inr ([1, 2, 3], 0))"
    by (simp add: locked_start_def)
  from section_runs_putchars [OF _ _ _ _ this, of 0 "[]"] show ?thesis
    by (intro exI conjI) (assumption | simp add: locked_start_def two_records_def)+
qed

end
