(* ===== verification/ServerFile.thy ===== *)
theory ServerFile
  imports IoMutex ConnectionRun
begin

text \<open>
  All threads of the server at work on one regular file: the connection threads append their
  packets under \<open>io_mutex\<close> (theory IoMutex) and then, without the mutex, rewind and send the
  file to their clients, while others and the timer thread go on appending.
\<close>

section \<open>Model\<close>

text \<open>
  Where a connection thread is (\<open>server/src/connection.c\<close>): up to the end of its section, in
  front of a \<open>read\<close> at a file position, in front of \<open>sock_putchars\<close> with the bytes that were
  read, or past the loop, with the flag \<open>abort\<close>.
\<close>

datatype conn_place =
  Appending | Reading nat | Sending nat "byte list" | Past bool

text \<open>
  \<open>io\<close> is what the threads share, \<open>conn_places\<close> and \<open>peer\<close> belong to one thread each: \<open>peer s i\<close> is
  the state behind the socket of thread \<open>i\<close>.
\<close>

record ('f, 'k) serving =
  io :: "'f shared"
  conn_places :: "nat \<Rightarrow> conn_place"
  peer :: "nat \<Rightarrow> 'k"

text \<open>
  \<open>read\<close> of a regular file at a position: the result and the bytes that reached the buffer. It
  may fail at any time.
\<close>

type_synonym 'f reader = "'f \<Rightarrow> nat \<Rightarrow> size_t \<Rightarrow> ssize_t \<times> byte list"

definition reader_ok :: "('f \<Rightarrow> byte list) \<Rightarrow> 'f reader \<Rightarrow> bool" where
  "reader_ok taken rd \<longleftrightarrow>
     (\<forall>f p n. case rd f p n of (ret, bs) \<Rightarrow> sint ret < 0 \<or>
        ret = of_nat (length bs) \<and> prefix bs (drop p (taken f)) \<and> length bs \<le> unat n \<and>
        (bs = [] \<and> 0 < unat n \<longrightarrow> drop p (taken f) = []))"

definition set_place :: "nat \<Rightarrow> conn_place \<Rightarrow> ('f, 'k) serving \<Rightarrow> ('f, 'k) serving" where
  "set_place i pl s = s\<lparr>conn_places := (conn_places s)(i := pl)\<rparr>"

text \<open>
  One step of thread \<open>i\<close>; \<open>clients\<close> are the connection threads, all other threads only append.
  \<open>w\<close> is \<open>write\<close> of the file, \<open>rd\<close> its \<open>read\<close>, \<open>tx\<close> the \<open>send\<close> of the sockets, \<open>pfuel\<close> the
  fuel of \<open>sock_putchars\<close>.
\<close>

inductive serve_step ::
  "'f sink \<Rightarrow> 'f reader \<Rightarrow> 'k sink \<Rightarrow> nat \<Rightarrow> nat set \<Rightarrow> nat \<Rightarrow>
   ('f, 'k) serving \<Rightarrow> ('f, 'k) serving \<Rightarrow> bool" for w rd tx pfuel clients i where
  append: "conn_places s i = Appending \<Longrightarrow> locked_step w i (io s) io' \<Longrightarrow>
    serve_step w rd tx pfuel clients i s (s\<lparr>io := io'\<rparr>)"
| append_failed: "i \<in> clients \<Longrightarrow> conn_places s i = Appending \<Longrightarrow> failed (io s) i \<Longrightarrow>
    serve_step w rd tx pfuel clients i s (set_place i (Past True) s)"
| rewind: "i \<in> clients \<Longrightarrow> conn_places s i = Appending \<Longrightarrow> \<not> failed (io s) i \<Longrightarrow>
    pending (io s) i = [] \<Longrightarrow> pl = Reading 0 \<or> pl = Past True \<Longrightarrow>
    serve_step w rd tx pfuel clients i s (set_place i pl s)"
| read_some: "conn_places s i = Reading p \<Longrightarrow>
    rd (shared_file (io s)) p (of_nat CONN_BUFSIZE) = (ret, bs) \<Longrightarrow> 0 < sint ret \<Longrightarrow>
    serve_step w rd tx pfuel clients i s (set_place i (Sending (p + length bs) bs) s)"
| read_none: "conn_places s i = Reading p \<Longrightarrow>
    rd (shared_file (io s)) p (of_nat CONN_BUFSIZE) = (ret, bs) \<Longrightarrow> \<not> 0 < sint ret \<Longrightarrow>
    serve_step w rd tx pfuel clients i s (set_place i (Past (sint ret < 0)) s)"
| send: "conn_places s i = Sending p bs \<Longrightarrow>
    sock_putchars tx pfuel (peer s i) bs (of_nat (length bs)) = Some (Inr (k, ret)) \<Longrightarrow>
    serve_step w rd tx pfuel clients i s
      (set_place i (if sint ret < 0 then Past True else Reading p) (s\<lparr>peer := (peer s)(i := k)\<rparr>))"

definition serve_start :: "'f \<Rightarrow> (nat \<Rightarrow> byte list list) \<Rightarrow> (nat \<Rightarrow> 'k) \<Rightarrow> ('f, 'k) serving" where
  "serve_start f recs peers =
     \<lparr>io = locked_start f recs, conn_places = (\<lambda>_. Appending), peer = peers\<rparr>"

inductive serve_run ::
  "'f sink \<Rightarrow> 'f reader \<Rightarrow> 'k sink \<Rightarrow> nat \<Rightarrow> nat set \<Rightarrow> ('f, 'k) serving \<Rightarrow> ('f, 'k) serving \<Rightarrow> bool"
  for w rd tx pfuel clients s\<^sub>0 where
  run_start: "serve_run w rd tx pfuel clients s\<^sub>0 s\<^sub>0"
| run_step: "serve_run w rd tx pfuel clients s\<^sub>0 s \<Longrightarrow> serve_step w rd tx pfuel clients i s s' \<Longrightarrow>
    serve_run w rd tx pfuel clients s\<^sub>0 s'"

section \<open>The file only grows\<close>

lemma set_place_simps [simp]:
  "io (set_place i pl s) = io s" "peer (set_place i pl s) = peer s"
  "conn_places (set_place i pl s) = (conn_places s)(i := pl)"
  by (simp_all add: set_place_def)

lemma locked_step_grows:
  assumes "locked_step w i s s'" and "sink_ok taken w"
  shows "prefix (taken (shared_file s)) (taken (shared_file s'))"
  using assms(1)
proof cases
  case (call head left buf rest f n)
  then show ?thesis using sink_ok_call [OF assms(2) call(5)] by simp
next
  case (fail head left buf rest f n)
  then show ?thesis using sink_ok_call [OF assms(2) fail(5)] by simp
qed simp_all

text \<open>The packet \<open>P\<close> is, in one piece, in what has been appended to \<open>init\<close>.\<close>

definition contains_packet :: "byte list \<Rightarrow> byte list \<Rightarrow> byte list \<Rightarrow> bool" where
  "contains_packet init P xs \<longleftrightarrow> (\<exists>ys zs. xs = init @ ys @ P @ zs)"

lemma contains_packet_grows:
  "contains_packet init P xs \<Longrightarrow> prefix xs ys \<Longrightarrow> contains_packet init P ys"
  by (auto simp: contains_packet_def prefix_def) (metis append.assoc)

lemma record_in_history:
  assumes "locked_inv taken f recs h s" and "\<not> failed s i" and "pending s i = []" and "recs i = [P]"
  shows "contains_packet (taken f) P (taken (shared_file s))"
proof -
  have "records_of i h @ pending s i = recs i" using assms(1) by (simp add: locked_inv_def)
  then have "records_of i h = [P]" using assms(3,4) by simp
  then obtain m where m: "(i, P, m) \<in> set h" by (force simp: records_of_def filter_eq_Cons_iff)
  then have "m = length P" using assms(1,2) by (auto simp: locked_inv_def)
  moreover obtain h1 h2 where "h = h1 @ (i, P, m) # h2" using m by (auto dest: split_list)
  ultimately have "written h = written h1 @ P @ written h2" by (simp add: written_def)
  moreover have "taken (shared_file s) = taken f @ written h @ piece s"
    using assms(1) by (simp add: locked_inv_def)
  ultimately show ?thesis by (auto simp: contains_packet_def)
qed

section \<open>What the clients have been sent\<close>

text \<open>
  \<open>client_ok\<close> relates the bytes \<open>out\<close> a client has been sent to the contents \<open>xs\<close> of the file, its
  packet \<open>P\<close> and the place of its thread.
\<close>

definition client_ok :: "byte list \<Rightarrow> byte list \<Rightarrow> byte list \<Rightarrow> conn_place \<Rightarrow> byte list \<Rightarrow> bool" where
  "client_ok init P xs pl out \<longleftrightarrow>
     (case pl of
        Appending \<Rightarrow> out = []
      | Reading p \<Rightarrow> contains_packet init P xs \<and> p \<le> length xs \<and> out = take p xs
      | Sending p bs \<Rightarrow> contains_packet init P xs \<and> p \<le> length xs \<and> out @ bs = take p xs \<and>
          length bs \<le> CONN_BUFSIZE
      | Past abort \<Rightarrow> prefix out xs \<and> (\<not> abort \<longrightarrow> contains_packet init P out))"

lemma client_ok_grows:
  assumes "client_ok init P xs pl out" and "prefix xs ys"
  shows "client_ok init P ys pl out"
proof -
  obtain zs where ys: "ys = xs @ zs" using assms(2) by (rule prefixE)
  show ?thesis
    using assms contains_packet_grows [of init P xs ys]
    by (cases pl) (auto simp: client_ok_def ys)
qed

definition serve_inv ::
  "('f \<Rightarrow> byte list) \<Rightarrow> ('k \<Rightarrow> byte list) \<Rightarrow> 'f \<Rightarrow> (nat \<Rightarrow> byte list list) \<Rightarrow> (nat \<Rightarrow> 'k) \<Rightarrow> nat set \<Rightarrow>
   ('f, 'k) serving \<Rightarrow> bool" where
  "serve_inv taken got f recs peers clients s \<longleftrightarrow>
     (\<exists>h. locked_inv taken f recs h (io s)) \<and>
     (\<forall>i P. i \<in> clients \<and> recs i = [P] \<longrightarrow> (\<exists>out. got (peer s i) = got (peers i) @ out \<and>
        client_ok (taken f) P (taken (shared_file (io s))) (conn_places s i) out))"

lemma serve_inv_start: "serve_inv taken got f recs peers clients (serve_start f recs peers)"
  unfolding serve_inv_def
proof (intro conjI allI impI)
  show "\<exists>h. locked_inv taken f recs h (io (serve_start f recs peers))"
    using locked_inv_start [of taken f recs] by (auto simp: serve_start_def)
qed (simp add: serve_start_def client_ok_def)

text \<open>A step of thread \<open>i\<close> that leaves the file alone changes what is known of client \<open>i\<close> only.\<close>

lemma serve_inv_local:
  assumes inv: "serve_inv taken got f recs peers clients s"
    and io: "io s' = io s" and others: "\<And>j. j \<noteq> i \<Longrightarrow> peer s' j = peer s j \<and> conn_places s' j = conn_places s j"
    and client: "\<And>P out. i \<in> clients \<Longrightarrow> recs i = [P] \<Longrightarrow> got (peer s i) = got (peers i) @ out \<Longrightarrow>
      client_ok (taken f) P (taken (shared_file (io s))) (conn_places s i) out \<Longrightarrow>
      \<exists>out'. got (peer s' i) = got (peers i) @ out' \<and>
        client_ok (taken f) P (taken (shared_file (io s))) (conn_places s' i) out'"
  shows "serve_inv taken got f recs peers clients s'"
  unfolding serve_inv_def io
proof (intro conjI allI impI)
  show "\<exists>h. locked_inv taken f recs h (io s)" using inv by (simp add: serve_inv_def)
  fix j P
  assume j: "j \<in> clients \<and> recs j = [P]"
  then obtain out where out: "got (peer s j) = got (peers j) @ out"
      "client_ok (taken f) P (taken (shared_file (io s))) (conn_places s j) out"
    using inv by (auto simp: serve_inv_def)
  show "\<exists>out. got (peer s' j) = got (peers j) @ out \<and>
      client_ok (taken f) P (taken (shared_file (io s))) (conn_places s' j) out"
  proof (cases "j = i")
    case True
    then show ?thesis using client j out by blast
  next
    case False
    then show ?thesis using others out by auto
  qed
qed

lemma reader_ok_call:
  assumes "reader_ok taken rd" and "rd f p (of_nat CONN_BUFSIZE) = (ret, bs)" and "\<not> sint ret < 0"
  shows "prefix bs (drop p (taken f))" and "bs = [] \<longleftrightarrow> \<not> 0 < sint ret" and "bs = [] \<Longrightarrow> drop p (taken f) = []"
    and "length bs \<le> CONN_BUFSIZE"
proof -
  have n: "unat (of_nat CONN_BUFSIZE :: size_t) = 256" by (simp add: CONN_BUFSIZE_def)
  have *: "ret = of_nat (length bs)" "prefix bs (drop p (taken f))" "length bs \<le> 256"
    "bs = [] \<Longrightarrow> drop p (taken f) = []"
    using assms(1) [unfolded reader_ok_def, THEN spec [of _ f], THEN spec [of _ p],
        THEN spec [of _ "of_nat CONN_BUFSIZE"]] assms(2,3) n
    by auto
  then have "sint ret = int (length bs)" using sint_of_nat_fits [of "length bs"] by simp
  then show "bs = [] \<longleftrightarrow> \<not> 0 < sint ret" by simp
  show "prefix bs (drop p (taken f))" "length bs \<le> CONN_BUFSIZE" "bs = [] \<Longrightarrow> drop p (taken f) = []"
    using * by (simp_all add: CONN_BUFSIZE_def)
qed

lemma prefix_drop_take:
  "prefix bs (drop p xs) \<Longrightarrow> p \<le> length xs \<Longrightarrow>
   p + length bs \<le> length xs \<and> take (p + length bs) xs = take p xs @ bs"
  by (auto simp: prefix_def take_add) (metis diff_add_inverse2 le_add1 length_append length_drop
      ordered_cancel_comm_monoid_diff_class.le_diff_conv2 add.commute)

lemma serve_inv_step:
  assumes step: "serve_step w rd tx pfuel clients i s s'"
    and inv: "serve_inv taken got f recs peers clients s"
    and sinks: "sink_ok taken w" "sink_ok got tx" and rd: "reader_ok taken rd"
    and small: "\<forall>i. \<forall>bs \<in> set (recs i). length bs < 2 ^ 64"
  shows "serve_inv taken got f recs peers clients s'"
  using step
proof cases
  case (append io')
  obtain h where h: "locked_inv taken f recs h (io s)" using inv by (auto simp: serve_inv_def)
  have "\<exists>h'. locked_inv taken f recs h' io'"
    by (rule locked_inv_step [OF append(3) h sinks(1)]) (use small in simp)
  then show ?thesis
    using inv client_ok_grows locked_step_grows [OF append(3) sinks(1)]
    unfolding append(1) serve_inv_def by fastforce
next
  case append_failed
  show ?thesis
    by (rule serve_inv_local [OF inv, of _ i]) (use append_failed in \<open>auto simp: client_ok_def\<close>)
next
  case (rewind pl)
  obtain h where h: "locked_inv taken f recs h (io s)" using inv by (auto simp: serve_inv_def)
  show ?thesis
    by (rule serve_inv_local [OF inv, of _ i])
      (use rewind record_in_history [OF h rewind(4,5)] in \<open>auto simp: client_ok_def\<close>)
next
  case (read_some p ret bs)
  have bs: "prefix bs (drop p (taken (shared_file (io s))))"
    using reader_ok_call(1) [OF rd read_some(3)] read_some(4) by simp
  show ?thesis
    by (rule serve_inv_local [OF inv, of _ i])
      (use read_some prefix_drop_take [OF bs] reader_ok_call(4) [OF rd read_some(3)] in \<open>auto simp: client_ok_def\<close>)
next
  case (read_none p ret bs)
  have end_of_file: "drop p (taken (shared_file (io s))) = []" if "\<not> sint ret < 0"
    using reader_ok_call [OF rd read_none(3) that] read_none(4) by blast
  show ?thesis
    by (rule serve_inv_local [OF inv, of _ i])
      (use read_none end_of_file in \<open>auto simp: client_ok_def take_is_prefix\<close>)
next
  case (send p bs k ret)
  show ?thesis
  proof (rule serve_inv_local [OF inv, of _ i])
    fix P out
    assume client: "got (peer s i) = got (peers i) @ out"
      "client_ok (taken f) P (taken (shared_file (io s))) (conn_places s i) out"
    let ?xs = "taken (shared_file (io s))"
    have *: "contains_packet (taken f) P ?xs" "p \<le> length ?xs" "out @ bs = take p ?xs" "length bs \<le> 256"
      using client(2) send(2) by (simp_all add: client_ok_def CONN_BUFSIZE_def)
    obtain m where m: "got k = got (peer s i) @ take m bs" "ret = 0 \<and> take m bs = bs \<or> ret = - 1"
      using sock_putchars_result [OF sinks(2) _ send(3)] *(4) by auto
    have "prefix (out @ take m bs) (out @ bs)" by (simp add: take_is_prefix)
    also have "out @ bs = take p ?xs" by (rule *(3))
    finally have "prefix (out @ take m bs) ?xs" using take_is_prefix prefix_order.trans by blast
    then have "client_ok (taken f) P ?xs (conn_places s' i) (out @ take m bs)"
      using m(2) * send(1) by (auto simp: client_ok_def)
    then show "\<exists>out'. got (peer s' i) = got (peers i) @ out' \<and>
        client_ok (taken f) P ?xs (conn_places s' i) out'"
      using m(1) client(1) send(1) by (intro exI [of _ "out @ take m bs"]) simp
  qed (use send in simp_all)
qed

lemma serve_inv_run:
  assumes "sink_ok taken w" and "sink_ok got tx" and "reader_ok taken rd"
    and "\<forall>i. \<forall>bs \<in> set (recs i). length bs < 2 ^ 64"
    and "serve_run w rd tx pfuel clients (serve_start f recs peers) s"
  shows "serve_inv taken got f recs peers clients s"
  using assms(5)
proof (induction rule: serve_run.induct)
  case run_start
  show ?case by (rule serve_inv_start)
next
  case (run_step s i s')
  show ?case by (rule serve_inv_step [OF run_step(2,3) assms(1-4)])
qed

lemma client_ok_prefix:
  assumes "client_ok init P xs pl out"
  shows "prefix out xs"
proof (cases pl)
  case (Sending p bs)
  then have "out @ bs = take p xs" using assms by (simp add: client_ok_def)
  then have "prefix (out @ bs) xs" by (simp add: take_is_prefix)
  then show ?thesis by (rule append_prefixD)
qed (use assms in \<open>simp_all add: client_ok_def take_is_prefix\<close>)

section \<open>The steps are those of the handler\<close>

lemma set_place_twice: "set_place i a (set_place i b s) = set_place i a s"
  by (simp add: set_place_def)

lemma client_runs_loop:
  assumes e: "file_read e = (\<lambda>(f, p) n. let (ret, bs) = rd f p n in Inr ((f, p + length bs), ret, bs))"
      "sock_send e = tx" and rd: "reader_ok taken rd"
    and "conn_places s i = Reading p" and "tmpfile st = (shared_file (io s), p)" and "peer_in st = peer s i"
    and "send_file_loop e pfuel fuel st = Some (Inr (st', abort))"
  shows "(serve_step w rd tx pfuel clients i)\<^sup>*\<^sup>* s
    (set_place i (Past abort) (s\<lparr>peer := (peer s)(i := peer_in st')\<rparr>))"
  using assms(4-)
proof (induction fuel arbitrary: s p st)
  case (Suc fuel)
  obtain ret bs where r: "rd (shared_file (io s)) p (of_nat CONN_BUFSIZE) = (ret, bs)" by force
  let ?st = "st\<lparr>tmpfile := (shared_file (io s), p + length bs)\<rparr>"
  have "send_file_loop e pfuel (Suc fuel) st =
      (if CONN_BUFSIZE < length bs then Some (Inl OutOfBounds)
      else if 0 < sint ret then
        bindL (sock_putchars tx pfuel (peer s i) bs ret) (\<lambda>(k, r).
        if sint r < 0 then Some (Inr (?st\<lparr>peer_in := k\<rparr>, True))
        else send_file_loop e pfuel fuel (?st\<lparr>peer_in := k\<rparr>))
      else Some (Inr (?st, sint ret < 0)))"
    unfolding send_file_loop.simps e Suc.prems(2) prod.case r
    using Suc.prems(3) by (simp add: Let_def r)
  note loop = this [symmetric, THEN trans, OF Suc.prems(4)]
  show ?case
  proof (cases "0 < sint ret")
    case False
    then have "st' = ?st" "abort = (sint ret < 0)" using loop by (auto split: if_splits)
    moreover have "s\<lparr>peer := (peer s)(i := peer s i)\<rparr> = s" by simp
    moreover have "serve_step w rd tx pfuel clients i s (set_place i (Past (sint ret < 0)) s)"
      by (rule read_none [where rd = rd and p = p and bs = bs]) (fact Suc.prems(1) r False)+
    ultimately show ?thesis using Suc.prems(3) by (simp add: r_into_rtranclp)
  next
    case True
    have "ret = of_nat (length bs)"
      using rd [unfolded reader_ok_def, THEN spec [of _ "shared_file (io s)"], THEN spec [of _ p],
          THEN spec [of _ "of_nat CONN_BUFSIZE"]] r True by auto
    then obtain k q where k: "sock_putchars tx pfuel (peer s i) bs (of_nat (length bs)) = Some (Inr (k, q))"
      and rest: "(if sint q < 0 then Some (Inr (?st\<lparr>peer_in := k\<rparr>, True))
        else send_file_loop e pfuel fuel (?st\<lparr>peer_in := k\<rparr>)) = Some (Inr (st', abort))"
      using loop True by (auto simp: bindL_eq_Some_Inr split: if_splits)
    let ?s1 = "set_place i (Sending (p + length bs) bs) s"
    let ?s2 = "set_place i (if sint q < 0 then Past True else Reading (p + length bs))
      (?s1\<lparr>peer := (peer ?s1)(i := k)\<rparr>)"
    have "serve_step w rd tx pfuel clients i s ?s1" 
      by (rule read_some [where rd = rd and ret = ret]) (fact Suc.prems(1) r True)+
    moreover have "serve_step w rd tx pfuel clients i ?s1 ?s2" 
      by (rule send [where k = k and pfuel = pfuel]) (simp, simp only: set_place_simps k)
    ultimately have two: "(serve_step w rd tx pfuel clients i)\<^sup>*\<^sup>* s ?s2" by simp
    show ?thesis
    proof (cases "sint q < 0")
      case True
      then have "peer_in st' = k" "abort" using rest by auto
      then have "?s2 = set_place i (Past abort) (s\<lparr>peer := (peer s)(i := peer_in st')\<rparr>)"
        using True by (simp add: set_place_def del: fun_upd_apply)
      with two show ?thesis by (simp only:)
    next
      case False
      have "(serve_step w rd tx pfuel clients i)\<^sup>*\<^sup>* ?s2
          (set_place i (Past abort) (?s2\<lparr>peer := (peer ?s2)(i := peer_in st')\<rparr>))"
        by (rule Suc.IH [where st = "?st\<lparr>peer_in := k\<rparr>"]) (use False rest in simp_all)
      moreover have "set_place i (Past abort) (?s2\<lparr>peer := (peer ?s2)(i := peer_in st')\<rparr>) =
          set_place i (Past abort) (s\<lparr>peer := (peer s)(i := peer_in st')\<rparr>)"
        by (simp add: set_place_def)
      ultimately show ?thesis using two by (metis rtranclp_trans)
    qed
  qed
qed simp

section \<open>Properties\<close>

text \<open>
  C6: What the clients see. However the calls of all threads interleave, what a client has been
  sent is at every moment the beginning of the file as it is then: no byte is left out,
  repeated or out of order, although the thread reads without the mutex. When its handler
  gets through without an error, it has been sent everything the file held at the start and
  its own packet in one piece.
\<close>

theorem clients_see_prefix:
  assumes "sink_ok taken w" and "sink_ok got tx" and "reader_ok taken rd"
    and "\<forall>i. \<forall>bs \<in> set (recs i). length bs < 2 ^ 64"
    and "serve_run w rd tx pfuel clients (serve_start f recs peers) s"
    and "i \<in> clients" and "recs i = [P]"
  shows "\<exists>out. got (peer s i) = got (peers i) @ out \<and> prefix out (taken (shared_file (io s))) \<and>
    (conn_places s i = Past False \<longrightarrow> contains_packet (taken f) P out)"
proof -
  have "serve_inv taken got f recs peers clients s" by (rule serve_inv_run [OF assms(1-5)])
  then obtain out where "got (peer s i) = got (peers i) @ out"
      "client_ok (taken f) P (taken (shared_file (io s))) (conn_places s i) out"
    using assms(6,7) by (auto simp: serve_inv_def)
  then show ?thesis
    using client_ok_prefix by (intro exI [of _ out]) (auto simp: client_ok_def)
qed

text \<open>
  C37: The steps of a client are the code's loop. A thread that is in front of its first \<open>read\<close> and
  is not disturbed gets to the state the function \<open>send_file_loop\<close> of the handler computes:
  the client has been sent the same, and the flag \<open>abort\<close> is the same.
\<close>

theorem client_runs_handler:
  assumes "file_read e = (\<lambda>(f, p) n. let (ret, bs) = rd f p n in Inr ((f, p + length bs), ret, bs))"
    and "sock_send e = tx" and "reader_ok taken rd" and "conn_places s i = Reading 0"
    and "tmpfile st = (shared_file (io s), 0)" and "peer_in st = peer s i"
    and "send_file_loop e pfuel fuel st = Some (Inr (st', abort))"
  shows "(serve_step w rd tx pfuel clients i)\<^sup>*\<^sup>* s
    (set_place i (Past abort) (s\<lparr>peer := (peer s)(i := peer_in st')\<rparr>))"
  by (rule client_runs_loop [OF assms])

section \<open>Witnesses\<close>

text \<open>
  A file read to its end by every call that asks for enough, and the two records of theory
  IoMutex: thread 0 is a connection, thread 1 only appends.
\<close>

definition whole_reader :: "byte list reader" where
  "whole_reader f p n = (let bs = take (unat n) (drop p f) in (of_nat (length bs), bs))"

lemma whole_reader_ok: "reader_ok id whole_reader"
  by (auto simp: reader_ok_def whole_reader_def Let_def take_is_prefix)

definition reading_env :: "(byte list \<times> nat, byte list) conn_env" where
  "reading_env = env_example\<lparr>file_read := (\<lambda>(f, p) n. let (ret, bs) = whole_reader f p n
     in Inr ((f, p + length bs), ret, bs))\<rparr>"

lemma reading_env_simps:
  "file_read reading_env = (\<lambda>(f, p) n. let (ret, bs) = whole_reader f p n
     in Inr ((f, p + length bs), ret, bs))"
  "sock_send reading_env = two_at_a_time"
  by (simp_all add: reading_env_def env_example_def)

definition record_written :: "byte list shared" where
  "record_written = (locked_start [] two_records)\<lparr>shared_file := [1, 2, 3],
     pending := two_records(0 := [])\<rparr>"

lemma record_written_run: "locked_run two_at_a_time (locked_start [] two_records) record_written"
proof -
  let ?s1 = "half_written\<lparr>shared_file := [1, 2, 3], place := (place half_written)(0 \<mapsto> (3, 0))\<rparr>"
  have "locked_step two_at_a_time 0 half_written (half_written\<lparr>shared_file := [1, 2, 3],
      place := (place half_written)(0 \<mapsto> (2 + unat (1 :: ssize_t), 1 - 1))\<rparr>)"
    by (rule call [where buf = "[1, 2, 3]" and rest = "[]"])
      (simp_all add: half_written_def locked_start_def two_records_def two_at_a_time_def)
  then have "locked_run two_at_a_time (locked_start [] two_records) ?s1"
    using half_written_run by (auto intro: more)
  moreover have "locked_step two_at_a_time 0 ?s1 (?s1\<lparr>holder := None,
      place := (place ?s1)(0 := None), pending := (pending ?s1)(0 := [])\<rparr>)"
    by (rule leave [where head = 3 and buf = "[1, 2, 3]"])
      (simp_all add: half_written_def locked_start_def two_records_def)
  ultimately have "locked_run two_at_a_time (locked_start [] two_records) (?s1\<lparr>holder := None,
      place := (place ?s1)(0 := None), pending := (pending ?s1)(0 := [])\<rparr>)"
    by (rule more)
  moreover have "?s1\<lparr>holder := None, place := (place ?s1)(0 := None),
      pending := (pending ?s1)(0 := [])\<rparr> = record_written"
    by (simp add: record_written_def half_written_def locked_start_def)
  ultimately show ?thesis by (simp only:)
qed

lemma serve_run_append:
  assumes "locked_run w (locked_start f recs) x"
  shows "serve_run w rd tx pfuel clients (serve_start f recs peers) ((serve_start f recs peers)\<lparr>io := x\<rparr>)"
  using assms
proof (induction rule: locked_run.induct)
  case start
  show ?case using run_start [of w rd tx pfuel clients] by (simp add: serve_start_def)
next
  case (more x i y)
  let ?s = "(serve_start f recs peers)\<lparr>io := x\<rparr>"
  have "serve_step w rd tx pfuel clients i ?s (?s\<lparr>io := y\<rparr>)"
    by (rule append) (simp_all add: serve_start_def more.hyps)
  from run_step [OF more.IH this] show ?case by simp
qed

lemma serve_run_steps:
  assumes "(serve_step w rd tx pfuel clients i)\<^sup>*\<^sup>* s s'" and "serve_run w rd tx pfuel clients s\<^sub>0 s"
  shows "serve_run w rd tx pfuel clients s\<^sub>0 s'"
  using assms by (induction rule: rtranclp_induct) (auto intro: run_step)

definition in_front_of_read :: "(byte list, byte list) serving" where
  "in_front_of_read = set_place 0 (Reading 0)
     ((serve_start [] two_records (\<lambda>_. []))\<lparr>io := record_written\<rparr>)"

lemma in_front_of_read_run:
  "serve_run two_at_a_time whole_reader two_at_a_time 4 {0} (serve_start [] two_records (\<lambda>_. [])) in_front_of_read"
proof (rule run_step [OF serve_run_append [OF record_written_run]])
  show "serve_step two_at_a_time whole_reader two_at_a_time 4 {0} 0
      ((serve_start [] two_records (\<lambda>_. []))\<lparr>io := record_written\<rparr>) in_front_of_read"
    unfolding in_front_of_read_def
    by (rule rewind) (simp_all add: serve_start_def record_written_def locked_start_def)
qed

definition reading_state :: "(byte list \<times> nat, byte list) conn_state" where
  "reading_state = conn_example\<lparr>tmpfile := ([1, 2, 3], 0)\<rparr>"

lemma reading_sends:
  obtains st' where "send_file_loop reading_env 4 3 reading_state = Some (Inr (st', False))"
    and "peer_in st' = [1, 2, 3]"
proof -
  have "case send_file_loop reading_env 4 3 reading_state of
      Some (Inr (st', abort)) \<Rightarrow> \<not> abort \<and> peer_in st' = [1, 2, 3] | _ \<Rightarrow> False"
    by code_simp
  then show thesis using that by (auto split: option.splits sum.splits)
qed

theorem client_runs_handler_witness:
  "(serve_step two_at_a_time whole_reader two_at_a_time 4 {0} 0)\<^sup>*\<^sup>* in_front_of_read
     (set_place 0 (Past False) (in_front_of_read\<lparr>peer := (\<lambda>_. [])(0 := [1, 2, 3])\<rparr>))"
proof -
  obtain st' where st': "send_file_loop reading_env 4 3 reading_state = Some (Inr (st', False))"
    and sent: "peer_in st' = [1, 2, 3]" by (rule reading_sends)
  have peer: "peer in_front_of_read = (\<lambda>_. [])"
    by (simp add: in_front_of_read_def serve_start_def)
  have "(serve_step two_at_a_time whole_reader two_at_a_time 4 {0} 0)\<^sup>*\<^sup>* in_front_of_read
      (set_place 0 (Past False)
        (in_front_of_read\<lparr>peer := (peer in_front_of_read)(0 := peer_in st')\<rparr>))"
    by (rule client_runs_handler [OF reading_env_simps whole_reader_ok _ _ _ st'])
      (simp_all add: in_front_of_read_def reading_state_def conn_example_def serve_start_def
        record_written_def)
  then show ?thesis unfolding sent peer .
qed

lemma served_run:
  obtains s where "serve_run two_at_a_time whole_reader two_at_a_time 4 {0}
      (serve_start [] two_records (\<lambda>_. [])) s" and "conn_places s 0 = Past False"
proof -
  obtain st' where st': "send_file_loop reading_env 4 3 reading_state = Some (Inr (st', False))"
    by (rule reading_sends)
  have steps: "(serve_step two_at_a_time whole_reader two_at_a_time 4 {0} 0)\<^sup>*\<^sup>* in_front_of_read
      (set_place 0 (Past False)
        (in_front_of_read\<lparr>peer := (peer in_front_of_read)(0 := peer_in st')\<rparr>))" (is "rtranclp _ _ ?s")
    by (rule client_runs_loop [OF reading_env_simps whole_reader_ok _ _ _ st'])
      (simp_all add: in_front_of_read_def reading_state_def conn_example_def serve_start_def
        record_written_def)
  show thesis
    by (rule that [of ?s], rule serve_run_steps [OF steps in_front_of_read_run]) simp
qed

theorem clients_see_prefix_witness:
  "\<exists>s out. serve_run two_at_a_time whole_reader two_at_a_time 4 {0}
       (serve_start [] two_records (\<lambda>_. [])) s \<and>
     conn_places s 0 = Past False \<and> peer s 0 = out \<and> prefix out (shared_file (io s)) \<and>
     contains_packet [] [1, 2, 3] out"
proof -
  obtain s where run: "serve_run two_at_a_time whole_reader two_at_a_time 4 {0}
      (serve_start [] two_records (\<lambda>_. [])) s" and past: "conn_places s 0 = Past False"
    by (rule served_run)
  have small: "\<forall>i. \<forall>bs \<in> set (two_records i). length bs < 2 ^ 64" by (simp add: two_records_def)
  have "\<exists>out. id (peer s 0) = id [] @ out \<and> prefix out (id (shared_file (io s))) \<and>
      (conn_places s 0 = Past False \<longrightarrow> contains_packet (id []) [1, 2, 3] out)"
    by (rule clients_see_prefix [OF two_at_a_time_ok(1) two_at_a_time_ok(1) whole_reader_ok small run])
      (simp_all add: two_records_def)
  then show ?thesis using run past by auto
qed

end
