(* ===== verification/ServerWorld.thy ===== *)
theory ServerWorld
  imports World ServerFile
begin

text \<open>
  The whole server with a regular file as one transition system: the main thread with its list of
  entries as theory EntryLife has them, the connection threads and the timer of theory ServerFile. What the main
  thread learns by joining a thread is related to what its client has been sent.
\<close>

section \<open>Model\<close>

text \<open>
  At its end a connection closes its descriptors, which may fail, and the exit value is 0 only if
  the flag \<open>abort\<close> was not set (from the label \<open>cleanup_fd\<close> of \<open>conn_handler\<close> on); before it appends
  it may end because it has no packet or no file.
\<close>

definition may_end :: "('f, 'k) serving \<Rightarrow> nat \<Rightarrow> s32 \<Rightarrow> bool" where
  "may_end s i v \<longleftrightarrow>
     (case conn_places s i of
        Past failed_before \<Rightarrow> v = - 1 \<or> v = 0 \<and> \<not> failed_before
      | Appending \<Rightarrow> v = - 1 \<and> place (io s) i = None
      | _ \<Rightarrow> False)"

abbreviation server_step ::
  "'f sink \<Rightarrow> 'f reader \<Rightarrow> 'k sink \<Rightarrow> nat \<Rightarrow> nat set \<Rightarrow> ('f, 'k) serving world \<Rightarrow> ('f, 'k) serving world \<Rightarrow> bool"
  where "server_step wr rd tx pfuel clients \<equiv> world_step (serve_step wr rd tx pfuel clients) may_end clients"

section \<open>The threads as workers\<close>

definition conn_ended :: "('f, 'k) serving \<Rightarrow> nat \<Rightarrow> bool option" where
  "conn_ended s i = (case conn_places s i of Past failed_before \<Rightarrow> Some failed_before | _ \<Rightarrow> None)"

lemma conn_ended_Some [simp]: "conn_ended s i = Some b \<longleftrightarrow> conn_places s i = Past b"
  by (auto simp: conn_ended_def split: conn_place.splits)

interpretation fw: worker "serve_step wr rd tx pfuel clients" may_end clients conn_ended for wr rd tx pfuel clients
proof
  fix i j :: nat and s s' :: "('a, 'b) serving" and v :: s32
  show "conn_ended s i = None" if "serve_step wr rd tx pfuel clients i s s'"
    using that by cases (simp_all add: conn_ended_def)
  show "conn_ended s' j = conn_ended s j" if "serve_step wr rd tx pfuel clients i s s'" "j \<noteq> i"
    using that by cases (auto simp: conn_ended_def set_place_def)
  show "v = 0 \<or> v = - 1" if "may_end s i v"
    using that by (auto simp: may_end_def split: conn_place.splits)
  show "conn_ended s i = Some False" if "may_end s i 0"
    using that by (auto simp: may_end_def split: conn_place.splits)
qed

lemma serve_run_part: "part_run (serve_step wr rd tx pfuel clients) s\<^sub>0 s \<longleftrightarrow> serve_run wr rd tx pfuel clients s\<^sub>0 s"
proof
  show "serve_run wr rd tx pfuel clients s\<^sub>0 s" if "part_run (serve_step wr rd tx pfuel clients) s\<^sub>0 s"
    using that by (induction rule: part_run.induct) (auto intro: run_start run_step)
  show "part_run (serve_step wr rd tx pfuel clients) s\<^sub>0 s" if "serve_run wr rd tx pfuel clients s\<^sub>0 s"
    using that by (induction rule: serve_run.induct) (auto intro: part_start part_step)
qed

section \<open>Properties\<close>

text \<open>
  C4: What an exit value means, for the whole server. However the main thread with its linked list,
  the connections and the timer interleave, also after connections were lost from the list, after
  \<open>malloc\<close> or \<open>pthread_create\<close> have failed and in the last loop: when the main thread has joined a
  connection and read the exit value 0, the client of that connection has been sent the beginning
  of the file, with everything the file held at the start and the client's own packet in one
  piece.
\<close>

theorem joined_client_served:
  assumes "sink_ok taken wr" and "sink_ok got tx" and "reader_ok taken rd"
    and "\<forall>i. \<forall>bs \<in> set (recs i). length bs < 2 ^ 64"
    and "(server_step wr rd tx pfuel clients)\<^sup>*\<^sup>* (world_start (serve_start f recs peers)) w"
    and "t \<in> clients" and "recs t = [P]" and "(t, 0) \<in> set (results (life w))"
  shows "\<exists>out. got (peer (part w) t) = got (peers t) @ out \<and>
    prefix out (taken (shared_file (io (part w)))) \<and> contains_packet (taken f) P out"
proof -
  have run: "serve_run wr rd tx pfuel clients (serve_start f recs peers) (part w)"
    and past: "conn_places (part w) t = Past False"
    using fw.joined_zero [OF assms(5,6,8)] by (simp_all add: serve_run_part)
  have "serve_inv taken got f recs peers clients (part w)"
    by (rule serve_inv_run [OF assms(1-4) run])
  then obtain out where "got (peer (part w) t) = got (peers t) @ out"
      "client_ok (taken f) P (taken (shared_file (io (part w)))) (conn_places (part w) t) out"
    using assms(6,7) by (auto simp: serve_inv_def)
  then show ?thesis using past by (auto simp: client_ok_def)
qed

section \<open>Witness\<close>

text \<open>One connection, thread 0, from the start to the end.\<close>

theorem joined_client_served_witness:
  "\<exists>w out. (server_step two_at_a_time whole_reader two_at_a_time 4 {0})\<^sup>*\<^sup>*
       (world_start (serve_start [] two_records (\<lambda>_. []))) w \<and> results (life w) = [(0, 0)] \<and>
     peer (part w) 0 = out \<and> contains_packet [] [1, 2, 3] out"
proof -
  obtain s where run: "serve_run two_at_a_time whole_reader two_at_a_time 4 {0}
      (serve_start [] two_records (\<lambda>_. [])) s" and past: "conn_places s 0 = Past False"
    by (rule served_run)
  obtain w where w: "(server_step two_at_a_time whole_reader two_at_a_time 4 {0})\<^sup>*\<^sup>*
      (world_start (serve_start [] two_records (\<lambda>_. []))) w" and joined: "results (life w) = [(0, 0)]"
    by (rule one_connection [of "serve_step two_at_a_time whole_reader two_at_a_time 4 {0}" _ s may_end 0])
      (use run past in \<open>auto simp: serve_run_part may_end_def\<close>)
  have small: "\<forall>i. \<forall>bs \<in> set (two_records i). length bs < 2 ^ 64" by (simp add: two_records_def)
  have "\<exists>out. id (peer (part w) 0) = id [] @ out \<and>
      prefix out (id (shared_file (io (part w)))) \<and> contains_packet (id []) [1, 2, 3] out"
    by (rule joined_client_served [OF two_at_a_time_ok(1) two_at_a_time_ok(1) whole_reader_ok small w])
      (simp_all add: two_records_def joined)
  then show ?thesis using w joined by auto
qed

end
