(* ===== verification/DeviceWorld.thy ===== *)
theory DeviceWorld
  imports World DeviceReaders
begin

text \<open>
  The whole server in the build for the character device as one transition system: the main
  thread and the entries of theory EntryLife, the connection threads with every call of the
  driver a step of its own, and other processes that use the device at the same time. This
  build has no timer thread.
\<close>

section \<open>Model\<close>

text \<open>
  Where a connection thread is (\<open>server/src/connection.c\<close>): in front of \<open>open\<close>, of
  \<open>sock_getline\<close>, in the section under \<open>io_mutex\<close> with the bytes \<open>putchars\<close> has still to write
  or after its failure, in front of \<open>lseek\<close>, of \<open>read\<close>, of \<open>sock_putchars\<close>, at the label
  \<open>cleanup\<close> with the flag \<open>abort\<close>, and behind \<open>close(fd)\<close>.
\<close>

datatype dev_place =
  Fresh | Ready | InSection "byte list" | Failed | Written | AtRead | AtSend "byte list"
  | AtClose bool | Closed bool

text \<open>
  The open file of thread \<open>i\<close> is the file \<open>i\<close> of \<open>sys\<close>. \<open>stored\<close> is not in the code: all writes
  that succeeded, each with the process it came from, in the order of the driver's mutex.
\<close>

record 'k dev_serving =
  sys :: system
  dev_at :: "nat \<Rightarrow> dev_place"
  sockets :: "nat \<Rightarrow> 'k"
  io_holder :: "nat option"
  stored :: "(nat \<times> byte list) list"

definition dev_set :: "nat \<Rightarrow> dev_place \<Rightarrow> 'k dev_serving \<Rightarrow> 'k dev_serving" where
  "dev_set i pl s = s\<lparr>dev_at := (dev_at s)(i := pl)\<rparr>"

definition dev_put :: "nat \<Rightarrow> drv \<Rightarrow> open_file \<Rightarrow> 'k dev_serving \<Rightarrow> 'k dev_serving" where
  "dev_put i d filp s = s\<lparr>sys := \<lparr>sdrv = d, files = (files (sys s))(i \<mapsto> filp)\<rparr>\<rparr>"

text \<open>\<open>lseek(fd, 0, SEEK_SET)\<close> in the kernel: it goes to the start or fails.\<close>

definition rewinds :: "kenv \<Rightarrow> bool" where
  "rewinds e \<longleftrightarrow> (\<forall>pos sz. case fixed_size_llseek e pos 0 0 sz of (ret, pos') \<Rightarrow>
     ret = 0 \<and> pos' = 0 \<or> sint ret < 0)"

text \<open>
  One step of thread \<open>i\<close>. \<open>packets\<close> are the packets the clients send, \<open>tx\<close> is the \<open>send\<close> of the
  sockets, \<open>pfuel\<close> the fuel of \<open>sock_putchars\<close>; a thread outside \<open>clients\<close> stands for another
  process with open files of its own. Locking succeeds; the handler's branch for a failing
  lock is in theory Connection.
\<close>

inductive dev_step ::
  "'k sink \<Rightarrow> nat \<Rightarrow> (nat \<Rightarrow> byte list) \<Rightarrow> nat set \<Rightarrow> nat \<Rightarrow> 'k dev_serving \<Rightarrow> 'k dev_serving \<Rightarrow> bool"
  for tx pfuel packets clients i where
  dev_open: "i \<in> clients \<Longrightarrow> dev_at s i = Fresh \<Longrightarrow> files (sys s) i = None \<Longrightarrow>
    aesd_open \<lparr>f_pos = 0, private_data = False\<rparr> = (filp, 0) \<Longrightarrow>
    dev_step tx pfuel packets clients i s (dev_set i Ready (dev_put i (sdrv (sys s)) filp s))"
| dev_no_file: "i \<in> clients \<Longrightarrow> dev_at s i = Fresh \<Longrightarrow>
    dev_step tx pfuel packets clients i s (dev_set i (Closed True) s)"
| dev_no_packet: "i \<in> clients \<Longrightarrow> dev_at s i = Ready \<Longrightarrow>
    dev_step tx pfuel packets clients i s (dev_set i (AtClose True) s)"
| dev_bad_seek: "i \<in> clients \<Longrightarrow> dev_at s i = Ready \<Longrightarrow>
    strncmp_eq (packets i @ nul # rest) SEEKTO_PREFIX = Inr True \<Longrightarrow>
    parse_seekto (packets i @ nul # rest) = Inr None \<Longrightarrow>
    dev_step tx pfuel packets clients i s (dev_set i (AtClose True) s)"
| dev_seek: "i \<in> clients \<Longrightarrow> dev_at s i = Ready \<Longrightarrow>
    strncmp_eq (packets i @ nul # rest) SEEKTO_PREFIX = Inr True \<Longrightarrow>
    parse_seekto (packets i @ nul # rest) = Inr (Some arg) \<Longrightarrow> files (sys s) i = Some filp \<Longrightarrow> kenv_ok e \<Longrightarrow>
    aesd_ioctl e (sdrv (sys s)) filp AESDCHAR_IOCSEEKTO arg = Inr (d, filp', ret) \<Longrightarrow>
    dev_step tx pfuel packets clients i s
      (dev_set i (if sint ret < 0 then AtClose True else AtRead) (dev_put i d filp' s))"
| dev_lock: "i \<in> clients \<Longrightarrow> dev_at s i = Ready \<Longrightarrow>
    strncmp_eq (packets i @ nul # rest) SEEKTO_PREFIX = Inr False \<Longrightarrow> io_holder s = None \<Longrightarrow>
    dev_step tx pfuel packets clients i s (dev_set i (InSection (packets i)) (s\<lparr>io_holder := Some i\<rparr>))"
| dev_write: "i \<in> clients \<Longrightarrow> dev_at s i = InSection left \<Longrightarrow> left \<noteq> [] \<Longrightarrow>
    files (sys s) i = Some filp \<Longrightarrow> kenv_ok e \<Longrightarrow> write_fits (sdrv (sys s)) left (of_nat (length left)) \<Longrightarrow>
    aesd_write e (sdrv (sys s)) filp left (of_nat (length left)) (f_pos filp) = Inr (d, pos, ret) \<Longrightarrow>
    dev_step tx pfuel packets clients i s
      (dev_set i (if sint ret < 0 then Failed else InSection (drop (unat ret) left))
        (dev_put i d (filp\<lparr>f_pos := pos\<rparr>)
          (s\<lparr>stored := stored s @ map (Pair i) (writes [write_event left ret])\<rparr>)))"
| dev_unlock: "i \<in> clients \<Longrightarrow> dev_at s i = InSection [] \<and> pl = Written \<or> dev_at s i = Failed \<and> pl = AtClose True \<Longrightarrow>
    dev_step tx pfuel packets clients i s (dev_set i pl (s\<lparr>io_holder := None\<rparr>))"
| dev_unlock_fails: "i \<in> clients \<Longrightarrow> dev_at s i = InSection [] \<or> dev_at s i = Failed \<Longrightarrow>
    dev_step tx pfuel packets clients i s (dev_set i (AtClose True) s)"
| dev_rewind: "i \<in> clients \<Longrightarrow> dev_at s i = Written \<Longrightarrow> files (sys s) i = Some filp \<Longrightarrow> kenv_ok e \<Longrightarrow>
    rewinds e \<Longrightarrow> aesd_llseek e (sdrv (sys s)) filp 0 0 = Inr (d, filp', ret) \<Longrightarrow>
    dev_step tx pfuel packets clients i s
      (dev_set i (if sint ret < 0 then AtClose True else AtRead) (dev_put i d filp' s))"
| dev_read: "i \<in> clients \<Longrightarrow> dev_at s i = AtRead \<Longrightarrow> files (sys s) i = Some filp \<Longrightarrow> kenv_ok e \<Longrightarrow>
    aesd_read e (sdrv (sys s)) filp (of_nat CONN_BUFSIZE) (f_pos filp) = Inr (d, pos, ret, bs) \<Longrightarrow>
    dev_step tx pfuel packets clients i s
      (dev_set i (if 0 < sint ret then AtSend bs else AtClose (sint ret < 0))
        (dev_put i d (filp\<lparr>f_pos := pos\<rparr>) s))"
| dev_send: "i \<in> clients \<Longrightarrow> dev_at s i = AtSend bs \<Longrightarrow>
    sock_putchars tx pfuel (sockets s i) bs (of_nat (length bs)) = Some (Inr (k, ret)) \<Longrightarrow>
    dev_step tx pfuel packets clients i s
      (dev_set i (if sint ret < 0 then AtClose True else AtRead) (s\<lparr>sockets := (sockets s)(i := k)\<rparr>))"
| dev_close: "i \<in> clients \<Longrightarrow> dev_at s i = AtClose failed_before \<Longrightarrow> files (sys s) i = Some filp \<Longrightarrow>
    aesd_release filp = (filp', ret) \<Longrightarrow> failed_before \<longrightarrow> failed_now \<Longrightarrow>
    dev_step tx pfuel packets clients i s
      (dev_set i (Closed failed_now) (s\<lparr>sys := (sys s)\<lparr>files := (files (sys s))(i := None)\<rparr>\<rparr>))"
| dev_other: "i \<notin> clients \<Longrightarrow> sys_step (sys s) ev s' \<Longrightarrow> \<forall>t \<in> clients. files s' t = files (sys s) t \<Longrightarrow>
    dev_step tx pfuel packets clients i s
      (s\<lparr>sys := s', stored := stored s @ map (Pair i) (writes [ev])\<rparr>)"

text \<open>The exit value of a thread at the end of its handler; closing the socket may fail.\<close>

definition dev_may_end :: "'k dev_serving \<Rightarrow> nat \<Rightarrow> s32 \<Rightarrow> bool" where
  "dev_may_end s i v \<longleftrightarrow>
     (case dev_at s i of Closed failed_before \<Rightarrow> v = - 1 \<or> v = 0 \<and> \<not> failed_before | _ \<Rightarrow> False)"

definition dev_start :: "system \<Rightarrow> (nat \<Rightarrow> 'k) \<Rightarrow> 'k dev_serving" where
  "dev_start s\<^sub>0 peers =
     \<lparr>sys = s\<^sub>0, dev_at = (\<lambda>_. Fresh), sockets = peers, io_holder = None, stored = []\<rparr>"

abbreviation device_server_step ::
  "'k sink \<Rightarrow> nat \<Rightarrow> (nat \<Rightarrow> byte list) \<Rightarrow> nat set \<Rightarrow> 'k dev_serving world \<Rightarrow> 'k dev_serving world \<Rightarrow> bool"
  where "device_server_step tx pfuel packets clients \<equiv>
    world_step (dev_step tx pfuel packets clients) dev_may_end clients"

section \<open>The threads as workers\<close>

lemma dev_set_simps [simp]:
  "sys (dev_set i pl s) = sys s" "sockets (dev_set i pl s) = sockets s" "stored (dev_set i pl s) = stored s"
  "io_holder (dev_set i pl s) = io_holder s" "dev_at (dev_set i pl s) = (dev_at s)(i := pl)"
  by (simp_all add: dev_set_def)

lemma dev_put_simps [simp]:
  "sys (dev_put i d filp s) = \<lparr>sdrv = d, files = (files (sys s))(i \<mapsto> filp)\<rparr>"
  "sockets (dev_put i d filp s) = sockets s" "stored (dev_put i d filp s) = stored s"
  "io_holder (dev_put i d filp s) = io_holder s" "dev_at (dev_put i d filp s) = dev_at s"
  by (simp_all add: dev_put_def)

definition dev_ended :: "'k dev_serving \<Rightarrow> nat \<Rightarrow> bool option" where
  "dev_ended s i = (case dev_at s i of Closed failed_before \<Rightarrow> Some failed_before | _ \<Rightarrow> None)"

lemma dev_ended_Some [simp]: "dev_ended s i = Some b \<longleftrightarrow> dev_at s i = Closed b"
  by (auto simp: dev_ended_def split: dev_place.splits)

text \<open>A step of one thread does not touch what belongs to another.\<close>

lemma dev_step_others:
  assumes "dev_step tx pfuel packets clients i s s'" and "t \<noteq> i"
  shows "dev_at s' t = dev_at s t \<and> sockets s' t = sockets s t \<and>
    (t \<in> clients \<longrightarrow> files (sys s') t = files (sys s) t)"
  using assms by cases auto

interpretation dw: worker "dev_step tx pfuel packets clients" dev_may_end clients dev_ended
  for tx pfuel packets clients
proof
  fix i j :: nat and s s' :: "'a dev_serving" and v :: s32
  show "dev_ended s i = None" if "i \<in> clients" "dev_step tx pfuel packets clients i s s'"
    using that(2) by cases (use that(1) in \<open>auto simp: dev_ended_def\<close>)
  show "dev_ended s' j = dev_ended s j" if "dev_step tx pfuel packets clients i s s'" "j \<noteq> i"
    using dev_step_others [OF that] by (simp add: dev_ended_def)
  show "v = 0 \<or> v = - 1" if "dev_may_end s i v"
    using that by (auto simp: dev_may_end_def split: dev_place.splits)
  show "dev_ended s i = Some False" if "dev_may_end s i 0"
    using that by (auto simp: dev_may_end_def split: dev_place.splits)
qed

section \<open>Steps of the device\<close>

text \<open>Every step is one operation on the device or leaves it alone.\<close>

lemma dev_step_device:
  assumes "dev_step tx pfuel packets clients i s s'"
  shows "sys s' = sys s \<and> stored s' = stored s \<or>
    (\<exists>ev. sys_step (sys s) ev (sys s') \<and> stored s' = stored s @ map (Pair i) (writes [ev]))"
  using assms
proof cases
  case (dev_open filp)
  then have "sys_step (sys s) Quiet \<lparr>sdrv = sdrv (sys s), files = (files (sys s))(i \<mapsto> filp)\<rparr>"
    using step_open [OF dev_open(4,5)] by (cases "sys s") simp
  then show ?thesis
    using dev_open(1) by (auto intro!: exI [of _ Quiet] simp del: fun_upd_apply)
next
  case (dev_seek rest arg filp e d filp' ret)
  then show ?thesis
    using step_ioctl [OF dev_seek(6-8)] by (auto intro!: exI [of _ Quiet] simp del: fun_upd_apply)
next
  case (dev_write left filp e d pos ret)
  then show ?thesis
    using step_write [OF dev_write(5-8)] by (auto intro!: exI [of _ "write_event left ret"] simp del: fun_upd_apply)
next
  case (dev_rewind filp e d filp' ret)
  then show ?thesis
    using step_llseek [OF dev_rewind(4,5,7)] by (auto intro!: exI [of _ Quiet] simp del: fun_upd_apply)
next
  case (dev_read filp e d pos ret bs)
  then show ?thesis
    using step_read [OF dev_read(4-6)] by (auto intro!: exI [of _ Quiet] simp del: fun_upd_apply)
next
  case (dev_close failed_before filp filp' ret failed_now)
  then show ?thesis
    using step_release [OF dev_close(4,5)] by (auto intro!: exI [of _ Quiet] simp del: fun_upd_apply)
next
  case (dev_other ev s')
  then show ?thesis by auto
qed simp_all

section \<open>What the clients have been sent\<close>

text \<open>
  The commands that have been stored since thread \<open>t\<close> wrote its packet \<open>P\<close>, those the device
  held before included; \<open>L\<close> is what the device held at the start.
\<close>

definition since :: "cmd_log \<Rightarrow> (nat \<times> byte list) list \<Rightarrow> nat \<Rightarrow> byte list \<Rightarrow> (nat \<times> byte list) list \<Rightarrow> byte list list" where
  "since L ws t P vs = all_cmds (foldl write_log L (map snd (ws @ [(t, P)]))) (map snd vs)"

definition served ::
  "cmd_log \<Rightarrow> nat \<Rightarrow> byte list \<Rightarrow> (nat \<times> byte list) list \<Rightarrow> byte list \<Rightarrow> bool" where
  "served L t P st out \<longleftrightarrow> (\<exists>ws vs. st = ws @ (t, P) # vs \<and>
     subseq out (concat (since L ws t P vs)) \<and>
     (length (since L ws t P vs) \<le> AESDCHAR_MAX_WRITE_OPERATIONS_SUPPORTED \<longrightarrow>
        prefix out (concat (since L ws t P vs)) \<and> (\<exists>ys zs. out = ys @ P @ zs)))"

definition reading :: "cmd_log \<Rightarrow> nat \<Rightarrow> byte list \<Rightarrow> 'k dev_serving \<Rightarrow> byte list \<Rightarrow> bool" where
  "reading L t P s out \<longleftrightarrow> (\<exists>ws vs. stored s = ws @ (t, P) # vs \<and>
     reader_inv (foldl write_log L (map snd (ws @ [(t, P)]))) t (map snd vs) out (sys s))"

definition sent_ok :: "cmd_log \<Rightarrow> nat \<Rightarrow> byte list \<Rightarrow> 'k dev_serving \<Rightarrow> byte list \<Rightarrow> bool" where
  "sent_ok L t P s out \<longleftrightarrow>
     (case dev_at s t of
        Fresh \<Rightarrow> out = [] | Ready \<Rightarrow> out = []
      | InSection left \<Rightarrow> out = [] \<and> (left = P \<or> left = [] \<and> (t, P) \<in> set (stored s))
      | Failed \<Rightarrow> True
      | Written \<Rightarrow> out = [] \<and> (t, P) \<in> set (stored s)
      | AtRead \<Rightarrow> reading L t P s out
      | AtSend bs \<Rightarrow> reading L t P s (out @ bs) \<and> length bs \<le> CONN_BUFSIZE
      | AtClose failed_before \<Rightarrow> failed_before \<or> served L t P (stored s) out
      | Closed failed_before \<Rightarrow> failed_before \<or> served L t P (stored s) out)"

text \<open>A packet that is appended to the device.\<close>

definition plain_packet :: "byte list \<Rightarrow> bool" where
  "plain_packet P \<longleftrightarrow> P \<noteq> [] \<and> last P = newline \<and> take 19 P \<noteq> SEEKTO_PREFIX"

definition dev_inv ::
  "('k \<Rightarrow> byte list) \<Rightarrow> (nat \<Rightarrow> byte list) \<Rightarrow> (nat \<Rightarrow> 'k) \<Rightarrow> nat set \<Rightarrow> cmd_log \<Rightarrow> 'k dev_serving \<Rightarrow> bool" where
  "dev_inv got packets peers clients L s \<longleftrightarrow>
     sys_inv (sys s) \<and> dev_abs (sdrv (sys s)) = foldl write_log L (map snd (stored s)) \<and>
     (\<forall>t \<in> clients. plain_packet (packets t) \<longrightarrow>
        (\<exists>out. got (sockets s t) = got (peers t) @ out \<and> sent_ok L t (packets t) s out))"

lemma since_grows: "prefix (since L ws t P vs) (since L ws t P (vs @ xs))"
  by (simp add: since_def all_cmds_append)

lemma served_grows: "served L t P st out \<Longrightarrow> served L t P (st @ xs) out"
  unfolding served_def
proof (elim exE conjE)
  fix ws vs
  assume *: "st = ws @ (t, P) # vs" "subseq out (concat (since L ws t P vs))"
    "length (since L ws t P vs) \<le> 10 \<longrightarrow> prefix out (concat (since L ws t P vs)) \<and> (\<exists>ys zs. out = ys @ P @ zs)"
  obtain cs where cs: "since L ws t P (vs @ xs) = since L ws t P vs @ cs"
    using since_grows by (rule prefixE)
  have "subseq out (concat (since L ws t P (vs @ xs)))"
    using *(2) by (simp add: cs subseq_order.trans [OF _ prefix_imp_subseq])
  then show "\<exists>ws vs. st @ xs = ws @ (t, P) # vs \<and> subseq out (concat (since L ws t P vs)) \<and>
      (length (since L ws t P vs) \<le> 10 \<longrightarrow>
         prefix out (concat (since L ws t P vs)) \<and> (\<exists>ys zs. out = ys @ P @ zs))"
    using * by (intro exI [of _ ws] exI [of _ "vs @ xs"]) (auto simp: cs)
qed

text \<open>A step of another thread.\<close>

lemma reading_other:
  assumes r: "reading L t P s out" and step: "sys_step (sys s) ev (sys s')"
    and same: "files (sys s') t = files (sys s) t" and st: "stored s' = stored s @ map (Pair i) (writes [ev])"
  shows "reading L t P s' out"
proof -
  obtain ws vs where *: "stored s = ws @ (t, P) # vs"
    "reader_inv (foldl write_log L (map snd (ws @ [(t, P)]))) t (map snd vs) out (sys s)"
    using r by (auto simp: reading_def)
  have "map snd (map (Pair i) (writes [ev])) = writes [ev]" by (simp add: comp_def)
  then show ?thesis
    using reader_inv_other [OF *(2) step same] *(1) st unfolding reading_def
    by (intro exI [of _ ws] exI [of _ "vs @ map (Pair i) (writes [ev])"]) simp
qed

lemma sent_ok_other:
  assumes ok: "sent_ok L t P s out" and step: "dev_step tx pfuel packets clients i s s'"
    and t: "t \<noteq> i" "t \<in> clients"
  shows "sent_ok L t P s' out"
proof -
  have same: "dev_at s' t = dev_at s t" "files (sys s') t = files (sys s) t"
    using dev_step_others [OF step t(1)] t(2) by simp_all
  show ?thesis
    using dev_step_device [OF step]
  proof (elim disjE conjE exE)
    assume "sys s' = sys s" "stored s' = stored s"
    then show ?thesis using ok same by (simp add: sent_ok_def reading_def split: dev_place.splits)
  next
    fix ev
    assume ev: "sys_step (sys s) ev (sys s')" "stored s' = stored s @ map (Pair i) (writes [ev])"
    then show ?thesis
      using ok same reading_other [OF _ ev(1) same(2) ev(2)] served_grows
      by (auto simp: sent_ok_def split: dev_place.splits)
  qed
qed

text \<open>A step of the thread itself, first the calls of the driver.\<close>

lemma plain_not_seek: "plain_packet P \<Longrightarrow> strncmp_eq (P @ nul # rest) SEEKTO_PREFIX = Inr False"
proof -
  assume "plain_packet P"
  moreover have "nul \<notin> set SEEKTO_PREFIX" "length SEEKTO_PREFIX = 19" by (simp_all add: SEEKTO_PREFIX_def)
  ultimately show ?thesis using strncmp_string [of SEEKTO_PREFIX P rest] by (simp add: plain_packet_def)
qed

lemma cmds_bounded:
  "length (cmds L) \<le> AESDCHAR_MAX_WRITE_OPERATIONS_SUPPORTED \<Longrightarrow>
   length (cmds (foldl write_log L ws)) \<le> AESDCHAR_MAX_WRITE_OPERATIONS_SUPPORTED"
  by (simp add: foldl_write_log keep_last_def)

lemma write_result:
  assumes "sys_inv s" and "files s i = Some filp" and "kenv_ok e"
    and fits: "write_fits (sdrv s) left (of_nat (length left))"
    and w: "aesd_write e (sdrv s) filp left (of_nat (length left)) pos = Inr (d, pos', ret)"
  shows "sint ret < 0 \<or> drop (unat ret) left = [] \<and> write_event left ret = Wrote left"
proof -
  have "dev_wf (sdrv s)" "private_data filp" using assms(1,2) by (auto simp: sys_inv_def ran_def)
  then have "ret = of_nat (length left) \<or> ret \<in> {- ERESTARTSYS, - ENOMEM, - EFAULT}"
    using aesd_write_cases [OF _ _ assms(3) fits, of filp pos] w by auto
  then show ?thesis
  proof
    assume ret: "ret = of_nat (length left)"
    then have "unat ret = length left" using fits by (simp add: write_fits_def)
    then show ?thesis using write_event_cases(1) [OF fits] ret by simp
  qed auto
qed

lemma rewind_result:
  assumes "sys_inv s" and "files s i = Some filp" and "rewinds e"
    and l: "aesd_llseek e (sdrv s) filp 0 0 = Inr (d, filp', ret)"
  shows "sint ret < 0 \<or> f_pos filp' = 0"
proof -
  have ok: "dev_wf (sdrv s)" "private_data filp" using assms(1,2) by (auto simp: sys_inv_def ran_def)
  show ?thesis
  proof (cases "mutex_lock_interruptible e = 0")
    case True
    let ?n = "of_nat (length (content (dev_abs (sdrv s)))) :: loff_t"
    obtain r p where r: "fixed_size_llseek e (f_pos filp) 0 0 ?n = (r, p)" by force
    have "r = 0 \<and> p = 0 \<or> sint r < 0"
      using assms(3) r unfolding rewinds_def by (metis (mono_tags, lifting) case_prod_conv)
    then show ?thesis using aesd_llseek_eq [OF ok True, of 0 0] l r by auto
  next
    case False
    then show ?thesis using l ok(2) by (simp add: aesd_llseek_def)
  qed
qed

lemma read_result:
  assumes "sys_inv s" and "files s i = Some filp" and "kenv_ok e"
    and r: "aesd_read e (sdrv s) filp n pos = Inr (d, pos', ret, bs)" and "0 < sint ret"
  shows "length bs \<le> unat n"
proof -
  have ok: "dev_wf (sdrv s)" "private_data filp" using assms(1,2) by (auto simp: sys_inv_def ran_def)
  have "mutex_lock_interruptible e = 0"
  proof (rule ccontr)
    assume "mutex_lock_interruptible e \<noteq> 0"
    then show False using r \<open>0 < sint ret\<close> ok(2) by (simp add: aesd_read_def)
  qed
  then show ?thesis
    using aesd_read_eq [OF ok _ assms(3), of n pos] r \<open>0 < sint ret\<close> length_chunk_at
    by (auto simp: Let_def split: if_splits)
qed

lemma reading_starts:
  assumes "sys_inv (sys s)" and "dev_abs (sdrv (sys s)) = foldl write_log L (map snd (stored s))"
    and "files (sys s) t = Some filp" and "f_pos filp = 0" and "(t, P) \<in> set (stored s)"
  shows "reading L t P s []"
proof -
  obtain ws vs where "stored s = ws @ (t, P) # vs" using split_list [OF assms(5)] by blast
  then show ?thesis
    using assms(1-4) unfolding reading_def by (intro exI [of _ ws] exI [of _ vs]) (simp add: reader_inv_def)
qed

lemma reading_chunk:
  assumes "reading L t P s out" and "length (cmds L) \<le> AESDCHAR_MAX_WRITE_OPERATIONS_SUPPORTED"
    and "files (sys s) t = Some filp" and "kenv_ok e"
    and "aesd_read e (sdrv (sys s)) filp n (f_pos filp) = Inr (d, pos, ret, bs)" and "0 < sint ret"
    and "sys s' = \<lparr>sdrv = d, files = (files (sys s))(t \<mapsto> filp\<lparr>f_pos := pos\<rparr>)\<rparr>" and "stored s' = stored s"
  shows "reading L t P s' (out @ bs)"
proof -
  obtain ws vs where *: "stored s = ws @ (t, P) # vs"
    "reader_inv (foldl write_log L (map snd (ws @ [(t, P)]))) t (map snd vs) out (sys s)"
    using assms(1) by (auto simp: reading_def)
  show ?thesis
    using reader_inv_chunk [OF *(2) cmds_bounded [OF assms(2)] assms(3-6)] *(1) assms(7,8)
    unfolding reading_def by (intro exI [of _ ws] exI [of _ vs]) simp
qed

lemma reading_ends:
  assumes r: "reading L t P s out" and cap: "length (cmds L) \<le> AESDCHAR_MAX_WRITE_OPERATIONS_SUPPORTED"
    and P: "P \<noteq> []" "last P = newline" and filp: "files (sys s) t = Some filp" and e: "kenv_ok e"
    and read: "aesd_read e (sdrv (sys s)) filp (of_nat CONN_BUFSIZE) (f_pos filp) = Inr (d, pos, 0, bs)"
  shows "served L t P (stored s) out"
proof -
  obtain ws vs where st: "stored s = ws @ (t, P) # vs"
    and inv: "reader_inv (foldl write_log L (map snd (ws @ [(t, P)]))) t (map snd vs) out (sys s)"
    using r by (auto simp: reading_def)
  let ?cs = "since L ws t P vs"
  have "subseq out (take (evicted ?cs + unat (f_pos filp)) (concat ?cs))"
    and upto: "length ?cs \<le> 10 \<Longrightarrow> out = take (unat (f_pos filp)) (concat ?cs)"
    using inv filp by (simp_all add: reader_inv_def since_def Let_def)
  then have sub: "subseq out (concat ?cs)"
    using subseq_order.trans [OF _ prefix_imp_subseq [OF take_is_prefix]] by blast
  have "out = concat ?cs" if small: "length ?cs \<le> 10"
  proof -
    have "content (dev_abs (sdrv (sys s))) = concat ?cs"
      using reader_cmds [OF inv cmds_bounded [OF cap]] small by (simp add: content_def since_def)
    moreover have "length (content (dev_abs (sdrv (sys s)))) \<le> unat (f_pos filp)"
      by (rule read_nothing [OF _ _ e _ read])
        (use inv filp in \<open>auto simp: reader_inv_def sys_inv_def ran_def CONN_BUFSIZE_def\<close>)
    ultimately show ?thesis using upto [OF small] by simp
  qed
  moreover have "\<exists>ys zs. concat ?cs = ys @ P @ zs"
    using packet_stored [OF P, of "foldl write_log L (map snd ws)"] by (simp add: since_def)
  ultimately show ?thesis using st sub unfolding served_def by (intro exI [of _ ws] exI [of _ vs]) auto
qed

lemma reading_cong: "sys s' = sys s \<Longrightarrow> stored s' = stored s \<Longrightarrow> reading L t P s' out = reading L t P s out"
  by (simp add: reading_def)

lemma dev_inv_device:
  assumes "dev_step tx pfuel packets clients i s s'" and "sys_inv (sys s)"
    and "dev_abs (sdrv (sys s)) = foldl write_log L (map snd (stored s))"
  shows "sys_inv (sys s') \<and> dev_abs (sdrv (sys s')) = foldl write_log L (map snd (stored s'))"
  using dev_step_device [OF assms(1)]
proof (elim disjE conjE exE)
  fix ev
  assume ev: "sys_step (sys s) ev (sys s')" "stored s' = stored s @ map (Pair i) (writes [ev])"
  then show ?thesis
    using sys_step_inv [OF ev(1) assms(2)] assms(3) by (cases ev) (simp_all add: apply_event_def)
qed (use assms in simp)

lemma sent_ok_own:
  assumes step: "dev_step tx pfuel packets clients i s s'" and i: "i \<in> clients"
    and P: "plain_packet P" "packets i = P" and tx: "sink_ok got tx"
    and cap: "length (cmds L) \<le> AESDCHAR_MAX_WRITE_OPERATIONS_SUPPORTED"
    and inv: "sys_inv (sys s)" "dev_abs (sdrv (sys s)) = foldl write_log L (map snd (stored s))"
    and out: "got (sockets s i) = got (peers i) @ out" "sent_ok L i P s out"
  shows "\<exists>out. got (sockets s' i) = got (peers i) @ out \<and> sent_ok L i P s' out"
  using step
proof cases
  case (dev_bad_seek rest)
  then show ?thesis using plain_not_seek [OF P(1), of rest] P(2) by simp
next
  case (dev_seek rest arg filp e d filp' ret)
  then show ?thesis using plain_not_seek [OF P(1), of rest] P(2) by simp
next
  case (dev_write left filp e d pos ret)
  then have left: "left = P" "out = []" using out(2) by (auto simp: sent_ok_def)
  show ?thesis
    using write_result [OF inv(1) dev_write(5-8)] left out(1)
    by (intro exI [of _ "[]"]) (auto simp: dev_write(1) sent_ok_def)
next
  case (dev_unlock pl)
  then show ?thesis using out P(1) by (intro exI [of _ out]) (auto simp: sent_ok_def plain_packet_def)
next
  case (dev_rewind filp e d filp' ret)
  have none: "out = []" "(i, P) \<in> set (stored s)" using out(2) dev_rewind(3) by (simp_all add: sent_ok_def)
  have "reading L i P s' []" if "\<not> sint ret < 0"
    by (rule reading_starts [of _ _ _ filp'])
      (use dev_inv_device [OF step inv] rewind_result [OF inv(1) dev_rewind(4,6,7)] that none(2)
        in \<open>simp_all add: dev_rewind(1)\<close>)
  then show ?thesis using out(1) none by (intro exI [of _ "[]"]) (auto simp: dev_rewind(1) sent_ok_def)
next
  case (dev_read filp e d pos ret bs)
  have r: "reading L i P s out" using out(2) dev_read(3) by (simp add: sent_ok_def)
  have n: "unat (of_nat CONN_BUFSIZE :: size_t) = CONN_BUFSIZE" by (simp add: CONN_BUFSIZE_def)
  have "reading L i P s' (out @ bs) \<and> length bs \<le> CONN_BUFSIZE" if "0 < sint ret"
    using reading_chunk [OF r cap dev_read(4-6) that, of s'] read_result [OF inv(1) dev_read(4-6) that]
    by (simp add: n dev_read(1))
  moreover have "sint ret < 0 \<or> served L i P (stored s) out" if "\<not> 0 < sint ret"
  proof (cases "sint ret = 0")
    case True
    then show ?thesis
      using reading_ends [OF r cap _ _ dev_read(4,5)] dev_read(6) P(1)
      by (simp add: plain_packet_def signed_eq_0_iff)
  qed (use that in simp)
  ultimately show ?thesis
    using out(1) by (intro exI [of _ out]) (auto simp: dev_read(1) sent_ok_def)
next
  case (dev_send bs k ret)
  have r: "reading L i P s (out @ bs)" "length bs \<le> 256"
    using out(2) dev_send(3) by (simp_all add: sent_ok_def CONN_BUFSIZE_def)
  obtain m where m: "got k = got (sockets s i) @ take m bs" "ret = 0 \<and> take m bs = bs \<or> ret = - 1"
    using sock_putchars_result [OF tx r(2) dev_send(4)] by blast
  have "reading L i P s' (out @ bs)" using r(1) by (simp add: dev_send(1) reading_def)
  then show ?thesis
    using m out(1) by (intro exI [of _ "out @ take m bs"]) (auto simp: dev_send(1) sent_ok_def)
qed (use i out P(2) in \<open>auto simp: sent_ok_def\<close>)

lemma dev_inv_step:
  assumes step: "dev_step tx pfuel packets clients i s s'" and inv: "dev_inv got packets peers clients L s"
    and "sink_ok got tx" and "length (cmds L) \<le> AESDCHAR_MAX_WRITE_OPERATIONS_SUPPORTED"
  shows "dev_inv got packets peers clients L s'"
proof -
  have dev: "sys_inv (sys s)" "dev_abs (sdrv (sys s)) = foldl write_log L (map snd (stored s))"
    using inv by (simp_all add: dev_inv_def)
  have "\<exists>out. got (sockets s' t) = got (peers t) @ out \<and> sent_ok L t (packets t) s' out"
    if t: "t \<in> clients" "plain_packet (packets t)" for t
  proof -
    obtain out where out: "got (sockets s t) = got (peers t) @ out" "sent_ok L t (packets t) s out"
      using inv t by (auto simp: dev_inv_def)
    show ?thesis
    proof (cases "t = i")
      case True
      then show ?thesis
        using sent_ok_own [OF step _ _ refl assms(3,4) dev, of peers out] t out by simp
    next
      case False
      then show ?thesis
        using sent_ok_other [OF out(2) step False t(1)] dev_step_others [OF step False] out(1) by auto
    qed
  qed
  then show ?thesis using dev_inv_device [OF step dev] by (simp add: dev_inv_def)
qed

lemma sys_cmds_bounded:
  assumes "sys_inv s"
  shows "length (cmds (dev_abs (sdrv s))) \<le> AESDCHAR_MAX_WRITE_OPERATIONS_SUPPORTED"
proof -
  have "dev_wf (sdrv s)" using assms by (simp add: sys_inv_def)
  then obtain b where "buf_wf (heap (sdrv s)) b (wip_entry (aesd_device (sdrv s)))"
    "dev_abs (sdrv s) = buf_abs (heap (sdrv s)) b (wip_entry (aesd_device (sdrv s)))"
    by (rule dev_wfE)
  then show ?thesis using cb_list_bound [of b] by (simp add: buf_abs_def buf_wf_def)
qed

lemma dev_inv_run:
  assumes "part_run (dev_step tx pfuel packets clients) (dev_start s\<^sub>0 peers) s" and "sys_inv s\<^sub>0"
    and "sink_ok got tx"
  shows "dev_inv got packets peers clients (dev_abs (sdrv s\<^sub>0)) s"
  using assms(1)
proof (induction rule: part_run.induct)
  case part_start
  show ?case using assms(2) by (simp add: dev_inv_def dev_start_def sent_ok_def)
next
  case (part_step s i s')
  show ?case by (rule dev_inv_step [OF part_step(2,3) assms(3) sys_cmds_bounded [OF assms(2)]])
qed

lemma content_since:
  assumes "dev_inv got packets peers clients L s" and "stored s = ws @ (t, P) # vs"
    and "length (cmds L) \<le> AESDCHAR_MAX_WRITE_OPERATIONS_SUPPORTED"
    and "length (since L ws t P vs) \<le> AESDCHAR_MAX_WRITE_OPERATIONS_SUPPORTED"
  shows "content (dev_abs (sdrv (sys s))) = concat (since L ws t P vs)"
proof -
  let ?l = "foldl write_log L (map snd (ws @ [(t, P)]))"
  have "dev_abs (sdrv (sys s)) = foldl write_log ?l (map snd vs)"
    using assms(1,2) by (simp add: dev_inv_def)
  then show ?thesis
    using foldl_write_log [OF cmds_bounded [OF assms(3)], of "map snd (ws @ [(t, P)])" "map snd vs"] assms(4)
    by (simp add: content_def since_def all_cmds_def)
qed

section \<open>Properties\<close>

text \<open>
  C5: What an exit value means, for the whole server on the device. However the main thread with its
  list, the connections and other processes that use the device interleave, also after connections
  were lost from the list or a connection was accepted through a stale \<open>tail\<close>: when the main thread
  has joined a connection and has read the exit value 0, and the packet of that connection is a plain
  one, which ends with its newline and is not a seek request (it does not begin with \<open>SEEKTO_PREFIX\<close>),
  then that packet has been written to the device, and the client has been sent bytes of the commands
  that the device held then or that were completed since, in their order and none twice. If these
  are no more than ten, it has been sent the beginning of what the device holds now, with its own
  packet in one piece.
\<close>

theorem joined_device_client_served:
  assumes "sys_inv s\<^sub>0" and "sink_ok got tx"
    and "(device_server_step tx pfuel packets clients)\<^sup>*\<^sup>* (world_start (dev_start s\<^sub>0 peers)) w"
    and "t \<in> clients" and "packets t = P" and "plain_packet P" and "(t, 0) \<in> set (results (life w))"
  shows "\<exists>out ws vs. got (sockets (part w) t) = got (peers t) @ out \<and> stored (part w) = ws @ (t, P) # vs \<and>
    (let l = foldl write_log (dev_abs (sdrv s\<^sub>0)) (map snd (ws @ [(t, P)])); cs = all_cmds l (map snd vs) in
     subseq out (concat cs) \<and>
     (length cs \<le> AESDCHAR_MAX_WRITE_OPERATIONS_SUPPORTED \<longrightarrow>
        prefix out (content (dev_abs (sdrv (sys (part w))))) \<and> (\<exists>ys zs. out = ys @ P @ zs)))"
proof -
  let ?L = "dev_abs (sdrv s\<^sub>0)" and ?s = "part w"
  have run: "part_run (dev_step tx pfuel packets clients) (dev_start s\<^sub>0 peers) ?s"
    and closed: "dev_at ?s t = Closed False"
    using dw.joined_zero [OF assms(3,4,7)] by simp_all
  have inv: "dev_inv got packets peers clients ?L ?s" by (rule dev_inv_run [OF run assms(1,2)])
  then obtain out where out: "got (sockets ?s t) = got (peers t) @ out" "served ?L t P (stored ?s) out"
    using assms(4-6) closed by (auto simp: dev_inv_def sent_ok_def)
  then obtain ws vs where st: "stored ?s = ws @ (t, P) # vs" "subseq out (concat (since ?L ws t P vs))"
    "length (since ?L ws t P vs) \<le> 10 \<longrightarrow>
       prefix out (concat (since ?L ws t P vs)) \<and> (\<exists>ys zs. out = ys @ P @ zs)"
    by (auto simp: served_def)
  have "content (dev_abs (sdrv (sys ?s))) = concat (since ?L ws t P vs)" if "length (since ?L ws t P vs) \<le> 10"
    by (rule content_since [OF inv st(1) sys_cmds_bounded [OF assms(1)] that])
  then show ?thesis using out(1) st by (intro exI [of _ out] exI [of _ ws] exI [of _ vs]) (auto simp: since_def Let_def)
qed

section \<open>Witness\<close>

text \<open>
  On the device with \<open>ab\<close>, \<open>c\<close> and the unfinished \<open>x\<close>, the client 7 writes \<open>hi\<close> and is sent the
  three commands.
\<close>

abbreviation client_file :: "loff_t \<Rightarrow> open_file" where
  "client_file p \<equiv> \<lparr>f_pos = p, private_data = True\<rparr>"

definition client_at ::
  "drv \<Rightarrow> loff_t \<Rightarrow> dev_place \<Rightarrow> byte list \<Rightarrow> nat option \<Rightarrow> (nat \<times> byte list) list \<Rightarrow> byte list dev_serving" where
  "client_at d p pl out h st =
     \<lparr>sys = \<lparr>sdrv = d, files = [7 \<mapsto> client_file p]\<rparr>, dev_at = (\<lambda>_. Fresh)(7 := pl),
      sockets = (\<lambda>_. [])(7 := out), io_holder = h, stored = st\<rparr>"

lemma client_at_simps:
  "sdrv (sys (client_at d p pl out h st)) = d" "files (sys (client_at d p pl out h st)) 7 = Some (client_file p)"
  "dev_at (client_at d p pl out h st) 7 = pl" "sockets (client_at d p pl out h st) 7 = out"
  "io_holder (client_at d p pl out h st) = h" "stored (client_at d p pl out h st) = st"
  "dev_set 7 pl' (client_at d p pl out h st) = client_at d p pl' out h st"
  "dev_put 7 d' (client_file p') (client_at d p pl out h st) = client_at d' p' pl out h st"
  "(client_at d p pl out h st)\<lparr>io_holder := h'\<rparr> = client_at d p pl out h' st"
  "(client_at d p pl out h st)\<lparr>stored := st'\<rparr> = client_at d p pl out h st'"
  "(client_at d p pl out h st)\<lparr>sockets := (sockets (client_at d p pl out h st))(7 := out')\<rparr> =
     client_at d p pl out' h st"
  by (simp_all add: client_at_def dev_set_def dev_put_def)

abbreviation example_step :: "nat \<Rightarrow> byte list dev_serving \<Rightarrow> byte list dev_serving \<Rightarrow> bool" where
  "example_step \<equiv> dev_step two_at_a_time 300 (\<lambda>_. [104, 105, newline]) {7}"

lemma example_write:
  obtains d p where "aesd_write kenv_example drv_example (client_file 0) [104, 105, newline] 3 0 = Inr (d, p, 3)"
    and "dev_wf d" and "cmds (dev_abs d) = [[97, 98, newline], [99, newline], [120, 104, 105, newline]]"
    and "write_fits drv_example [104, 105, newline] 3"
proof -
  have fits: "write_fits drv_example [104, 105, newline] 3"
    by (simp add: write_fits_def drv_example_abs log_bytes_def content_def)
  show thesis
    using aesd_write_eq [OF drv_example_wf _ _ kenv_example_ok fits drv_example_alloc, of "client_file 0" 0]
      that fits
    by (auto simp: write_log_def drv_example_abs)
qed

lemma example_send:
  assumes "length bs \<le> 256"
  shows "sock_putchars two_at_a_time 300 out bs (of_nat (length bs)) = Some (Inr (out @ bs, 0))"
proof -
  have len: "unat (of_nat (length bs) :: size_t) = length bs"
    using assms by (intro unat_of_nat_fits) simp
  obtain r where r: "sock_putchars two_at_a_time 300 out bs (of_nat (length bs)) = Some r"
    using spc.put_terminates [OF two_at_a_time_ok(1,2), of 0 "of_nat (length bs)" bs 300 out] len assms
    by (auto simp: sock_putchars_def)
  obtain k ret m where k: "r = Inr (k, ret)" "k = out @ take m bs" "ret = 0 \<and> m = length bs \<or> ret = - 1"
    using spc.put_result [OF two_at_a_time_ok(1) _ r [unfolded sock_putchars_def]] len by auto
  have "ret = 0"
    using spc.put_total [OF two_at_a_time_ok(1) two_at_a_time_total, of 0 "of_nat (length bs)" bs 300 out k ret]
      r k(1) len by (simp add: sock_putchars_def)
  then show ?thesis using r k by simp
qed

lemma example_read:
  fixes cs :: "byte list list"
  assumes d: "dev_wf d" "cmds (dev_abs d) = cs"
  shows "aesd_read kenv_example d (client_file p) (of_nat CONN_BUFSIZE) p =
    (let bs = chunk_at cs (unat p) CONN_BUFSIZE in
     if length (concat cs) \<le> unat p then Inr (d, p, 0, [])
     else Inr (d, p + of_nat (length bs), of_nat (length bs), bs))"
proof -
  have n: "unat (of_nat CONN_BUFSIZE :: size_t) = CONN_BUFSIZE" by (simp add: CONN_BUFSIZE_def)
  show ?thesis
    using aesd_read_eq [OF d(1) _ _ kenv_example_ok, of "client_file p" "of_nat CONN_BUFSIZE" p] d(2)
    by (simp add: Let_def n content_def)
qed

lemma example_chunk:
  fixes cs :: "byte list list"
  assumes run: "part_run example_step s\<^sub>0 (client_at d p AtRead out h st)"
    and d: "dev_wf d" "cmds (dev_abs d) = cs" and chunk: "chunk_at cs (unat p) CONN_BUFSIZE = bs"
    and more: "unat p < length (concat cs)" "0 < sint (of_nat (length bs) :: ssize_t)" "length bs \<le> 256"
  shows "part_run example_step s\<^sub>0 (client_at d (p + of_nat (length bs)) AtRead (out @ bs) h st)"
proof -
  have "example_step 7 (client_at d p AtRead out h st) (client_at d (p + of_nat (length bs)) (AtSend bs) out h st)"
    using dev_read [of 7 "{7}" "client_at d p AtRead out h st" "client_file p" kenv_example d
        "p + of_nat (length bs)" "of_nat (length bs)" bs] example_read [OF d, of p] chunk more kenv_example_ok
    by (simp add: client_at_simps Let_def)
  moreover have "example_step 7 (client_at d (p + of_nat (length bs)) (AtSend bs) out h st)
      (client_at d (p + of_nat (length bs)) AtRead (out @ bs) h st)"
    using dev_send [of 7 "{7}" "client_at d (p + of_nat (length bs)) (AtSend bs) out h st" bs
        two_at_a_time 300 "out @ bs" 0] example_send [OF more(3), of out]
    by (simp add: client_at_simps)
  ultimately show ?thesis using run by (blast intro: part_step)
qed

lemmas example_run = part_step [where work = example_step and i = 7]

definition example_start :: "byte list dev_serving" where
  "example_start = dev_start \<lparr>sdrv = drv_example, files = Map.empty\<rparr> (\<lambda>_. [])"

lemma example_written:
  obtains d p where "part_run example_step example_start (client_at d p Written [] None [(7, [104, 105, newline])])"
    and "dev_wf d" and "cmds (dev_abs d) = [[97, 98, newline], [99, newline], [120, 104, 105, newline]]"
proof -
  let ?P = "[104, 105, newline]"
  obtain d p where w: "aesd_write kenv_example drv_example (client_file 0) ?P 3 0 = Inr (d, p, 3)"
    and d: "dev_wf d" "cmds (dev_abs d) = [[97, 98, newline], [99, newline], [120, 104, 105, newline]]"
    and fits: "write_fits drv_example ?P 3" by (rule example_write)
  have "strncmp_eq (?P @ nul # []) SEEKTO_PREFIX = Inr False"
    by (rule plain_not_seek) (simp add: plain_packet_def SEEKTO_PREFIX_def)
  then have no_seek: "strncmp_eq [104, 105, newline, nul] SEEKTO_PREFIX = Inr False" by simp
  have none_sent: "(\<lambda>_ :: nat. [] :: byte list)(7 := []) = (\<lambda>_. [])" by (simp add: fun_eq_iff)
  have opened: "example_step 7 example_start (client_at drv_example 0 Ready [] None [])"
    using dev_open [of 7 "{7}" example_start "client_file 0" two_at_a_time 300 "\<lambda>_. ?P"]
    by (simp add: example_start_def dev_start_def aesd_open_def client_at_def dev_set_def dev_put_def none_sent)
  have locked: "example_step 7 (client_at drv_example 0 Ready [] None [])
      (client_at drv_example 0 (InSection ?P) [] (Some 7) [])"
    using dev_lock [of 7 "{7}" "client_at drv_example 0 Ready [] None []" "\<lambda>_. ?P" "[]"] no_seek
    by (simp add: client_at_simps)
  have wrote: "example_step 7 (client_at drv_example 0 (InSection ?P) [] (Some 7) [])
      (client_at d p (InSection []) [] (Some 7) [(7, ?P)])"
    using dev_write [of 7 "{7}" "client_at drv_example 0 (InSection ?P) [] (Some 7) []" ?P "client_file 0"
        kenv_example d p 3] w fits kenv_example_ok write_event_cases(1) [OF fits]
    by (simp add: client_at_simps)
  have unlocked: "example_step 7 (client_at d p (InSection []) [] (Some 7) [(7, ?P)])
      (client_at d p Written [] None [(7, ?P)])"
    using dev_unlock [of 7 "{7}" "client_at d p (InSection []) [] (Some 7) [(7, ?P)]" Written]
    by (simp add: client_at_simps)
  show thesis
    by (rule that [OF example_run [OF example_run [OF example_run [OF example_run [OF part_start opened]
            locked] wrote] unlocked] d])
qed

lemma example_rewind:
  assumes "dev_wf d"
  shows "example_step 7 (client_at d p Written [] None st) (client_at d 0 AtRead [] None st)"
proof -
  let ?n = "length (content (dev_abs d))"
  have "0 \<le> sint (of_nat ?n :: loff_t)"
    using content_bound [OF assms] by (simp add: sint_of_nat_fits)
  then have "aesd_llseek kenv_example d (client_file p) 0 0 = Inr (d, client_file 0, 0)"
    using aesd_llseek_eq [OF assms, of "client_file p" kenv_example 0 0]
    by (simp add: fixed_size_llseek_example_def)
  moreover have "rewinds kenv_example" by (simp add: rewinds_def fixed_size_llseek_example_def Let_def)
  ultimately show ?thesis
    using dev_rewind [of 7 "{7}" "client_at d p Written [] None st" "client_file p" kenv_example d "client_file 0" 0]
      kenv_example_ok by (simp add: client_at_simps)
qed

lemma example_served:
  obtains s where "part_run example_step example_start s" and "dev_at s 7 = Closed False"
    and "sockets s 7 = [97, 98, newline, 99, newline, 120, 104, 105, newline]"
proof -
  let ?cs = "[[97, 98, newline], [99, newline], [120, 104, 105, newline :: byte]]"
  let ?P = "[104, 105, newline]"
  obtain d p where run: "part_run example_step example_start (client_at d p Written [] None [(7, ?P)])"
    and d: "dev_wf d" "cmds (dev_abs d) = ?cs" by (rule example_written)
  have "part_run example_step example_start (client_at d 0 AtRead [] None [(7, ?P)])"
    by (rule part_step [OF run example_rewind [OF d(1)]])
  from example_chunk [OF this d, of "[97, 98, newline]"]
  have "part_run example_step example_start (client_at d 3 AtRead [97, 98, newline] None [(7, ?P)])"
    by (simp add: chunk_at_def CONN_BUFSIZE_def)
  from example_chunk [OF this d, of "[99, newline]"]
  have "part_run example_step example_start (client_at d 5 AtRead [97, 98, newline, 99, newline] None [(7, ?P)])"
    by (simp add: chunk_at_def CONN_BUFSIZE_def)
  from example_chunk [OF this d, of "[120, 104, 105, newline]"]
  have sent: "part_run example_step example_start (client_at d 9 AtRead (concat ?cs) None [(7, ?P)])"
    by (simp add: chunk_at_def CONN_BUFSIZE_def)
  have "example_step 7 (client_at d 9 AtRead (concat ?cs) None [(7, ?P)])
      (client_at d 9 (AtClose False) (concat ?cs) None [(7, ?P)])"
    using dev_read [of 7 "{7}" "client_at d 9 AtRead (concat ?cs) None [(7, ?P)]" "client_file 9" kenv_example d
        9 0 "[]"] example_read [OF d, of 9] kenv_example_ok
    by (simp add: client_at_simps)
  moreover have "example_step 7 (client_at d 9 (AtClose False) (concat ?cs) None [(7, ?P)])
      (dev_set 7 (Closed False) ((client_at d 9 (AtClose False) (concat ?cs) None [(7, ?P)])\<lparr>sys :=
        (sys (client_at d 9 (AtClose False) (concat ?cs) None [(7, ?P)]))\<lparr>files :=
          (files (sys (client_at d 9 (AtClose False) (concat ?cs) None [(7, ?P)])))(7 := None)\<rparr>\<rparr>))"
    (is "example_step 7 _ ?s")
    by (rule dev_close [where failed_before = False and filp = "client_file 9"])
      (simp_all add: client_at_simps aesd_release_def)
  ultimately have "part_run example_step example_start ?s" using sent by (blast intro: part_step)
  then show thesis by (rule that) (simp_all add: client_at_simps)
qed

theorem joined_device_client_served_witness:
  "\<exists>w out. (device_server_step two_at_a_time 300 (\<lambda>_. [104, 105, newline]) {7})\<^sup>*\<^sup>* (world_start example_start) w \<and>
     results (life w) = [(7, 0)] \<and> sockets (part w) 7 = out \<and>
     out = [97, 98, newline, 99, newline, 120, 104, 105, newline] \<and> subseq [104, 105, newline] out \<and>
     (\<exists>ws vs. stored (part w) = ws @ (7, [104, 105, newline]) # vs)"
proof -
  let ?P = "[104, 105, newline]" and ?s0 = "\<lparr>sdrv = drv_example, files = Map.empty\<rparr>"
  obtain s where run: "part_run example_step example_start s" and s: "dev_at s 7 = Closed False"
    "sockets s 7 = [97, 98, newline, 99, newline, 120, 104, 105, newline]" by (rule example_served)
  obtain w where w: "(device_server_step two_at_a_time 300 (\<lambda>_. ?P) {7})\<^sup>*\<^sup>* (world_start example_start) w"
    and joined: "results (life w) = [(7, 0)]" "part w = s"
    by (rule one_connection [OF run, of dev_may_end 7]) (simp add: dev_may_end_def s(1))
  have inv: "sys_inv ?s0" by (simp add: sys_inv_def drv_example_wf)
  have "\<exists>out ws vs. id (sockets (part w) 7) = id [] @ out \<and> stored (part w) = ws @ (7, ?P) # vs \<and>
    (let l = foldl write_log (dev_abs (sdrv ?s0)) (map snd (ws @ [(7, ?P)])); cs = all_cmds l (map snd vs) in
     subseq out (concat cs) \<and>
     (length cs \<le> AESDCHAR_MAX_WRITE_OPERATIONS_SUPPORTED \<longrightarrow>
        prefix out (content (dev_abs (sdrv (sys (part w))))) \<and> (\<exists>ys zs. out = ys @ ?P @ zs)))"
    by (rule joined_device_client_served [OF inv two_at_a_time_ok(1) w [unfolded example_start_def]])
      (simp_all add: joined(1) plain_packet_def SEEKTO_PREFIX_def)
  then have "\<exists>ws vs. stored (part w) = ws @ (7, ?P) # vs" by blast
  moreover have "subseq ?P [97, 98, newline, 99, newline, 120, 104, 105, newline]" by simp
  ultimately show ?thesis using w joined s(2) by (intro exI [of _ w] exI [of _ "sockets s 7"]) simp
qed

end
