(* ===== verification/TimeStamp.thy ===== *)
theory TimeStamp
  imports CString
begin

text \<open>
  The time stamps of \<open>server/src/signal.c\<close>: \<open>strftime\<close> with the format \<open>DATEFMT\<close> into the array
  \<open>now_str\<close>.
\<close>

section \<open>Model\<close>

text \<open>The members of \<open>struct tm\<close> that the format prints.\<close>

record tm =
  tm_sec :: s32
  tm_min :: s32
  tm_hour :: s32
  tm_mday :: s32
  tm_mon :: s32
  tm_year :: s32

text \<open>
  Numbers as \<open>strftime\<close> prints them: \<open>decimal\<close> without, \<open>two_digits\<close> with a leading zero.
\<close>

fun decimal :: "nat \<Rightarrow> byte list" where
  "decimal n =
     (if n < 10 then [48 + of_nat n] else decimal (n div 10) @ [48 + of_nat (n mod 10)])"

declare decimal.simps [simp del]

definition signed_decimal :: "int \<Rightarrow> byte list" where
  "signed_decimal i = (if i < 0 then 45 # decimal (nat (- i)) else decimal (nat i))"

definition two_digits :: "int \<Rightarrow> byte list" where
  "two_digits i = (if 0 \<le> i \<and> i < 10 then 48 # decimal (nat i) else signed_decimal i)"

text \<open>A format is a sequence of characters and of the conversions the program uses.\<close>

datatype date_item =
  Lit byte | Year | Month | Day | Hour | Minute | Second

primrec date_text :: "tm \<Rightarrow> date_item \<Rightarrow> byte list" where
  "date_text t (Lit c) = [c]"
| "date_text t Year = signed_decimal (sint (tm_year t) + 1900)"
| "date_text t Month = two_digits (sint (tm_mon t) + 1)"
| "date_text t Day = two_digits (sint (tm_mday t))"
| "date_text t Hour = two_digits (sint (tm_hour t))"
| "date_text t Minute = two_digits (sint (tm_min t))"
| "date_text t Second = two_digits (sint (tm_sec t))"

text \<open>\<open>"timestamp:%Y_%m_%d_%H:%M:%S\n"\<close>\<close>

definition DATEFMT :: "date_item list" where
  "DATEFMT =
     map Lit [116, 105, 109, 101, 115, 116, 97, 109, 112, 58] @
     [Year, Lit 95, Month, Lit 95, Day, Lit 95, Hour, Lit 58, Minute, Lit 58, Second, Lit newline]"

definition DATESIZE :: size_t where "DATESIZE = 30"

text \<open>
  \<open>strftime\<close> into an array of \<open>maxsize\<close> bytes: the return value, and what is in the array,
  which is indeterminate (\<open>None\<close>) when the text with its terminator does not fit.
\<close>

definition strftime :: "size_t \<Rightarrow> date_item list \<Rightarrow> tm \<Rightarrow> size_t \<times> byte list option" where
  "strftime maxsize fmt t =
     (let s = concat (map (date_text t) fmt) in
      if length s + 1 \<le> unat maxsize then (of_nat (length s), Some (s @ [nul])) else (0, None))"

text \<open>The lines the timer thread fills \<open>now_str\<close> with; \<open>None\<close> when it gives up.\<close>

definition now_str :: "tm \<Rightarrow> byte list option" where
  "now_str t =
     (let (n, buf) = strftime (DATESIZE + 1) DATEFMT t in if n \<noteq> DATESIZE then None else buf)"

section \<open>Numerals\<close>

lemma digit_value:
  assumes "d < 10"
  shows "isdigit (48 + of_nat d)" and "unat (48 + of_nat d :: byte) = 48 + d"
proof -
  have "unat (of_nat d :: byte) = d" using assms by (intro unat_of_nat_fits) simp
  then show u: "unat (48 + of_nat d :: byte) = 48 + d"
    using assms by (subst unat_add_fits) simp_all
  show "isdigit (48 + of_nat d)"
    unfolding isdigit_def word_le_nat_alt u using assms by simp
qed

lemma decimal_digits: "\<forall>c \<in> set (decimal n). isdigit c"
proof (induction n rule: decimal.induct)
  case (1 n)
  then show ?case by (subst decimal.simps) (auto simp: digit_value)
qed

lemma decimal_value: "digits_value (decimal n) = n"
proof (induction n rule: decimal.induct)
  case (1 n)
  then show ?case by (subst decimal.simps) (simp add: digits_value_def digit_value)
qed

lemma decimal_length: "length (decimal n) \<le> Suc k \<longleftrightarrow> n < 10 ^ Suc k"
proof (induction k arbitrary: n)
  case 0
  show ?case by (subst decimal.simps) (auto simp: decimal.simps [of "n div 10"])
next
  case (Suc k)
  show ?case
  proof (cases "n < 10")
    case True
    moreover have "n < 10 ^ Suc (Suc k)"
      by (rule less_le_trans [OF True]) (simp add: self_le_power [of 10 "Suc (Suc k)", simplified])
    ultimately show ?thesis by (subst decimal.simps) simp
  next
    case False
    then show ?thesis
      using Suc.IH [of "n div 10"] by (subst decimal.simps) (simp add: div_less_iff_less_mult mult.commute)
  qed
qed


lemma decimal_length_eq:
  "length (decimal n) = Suc (Suc k) \<longleftrightarrow> 10 ^ Suc k \<le> n \<and> n < 10 ^ Suc (Suc k)"
  using decimal_length [of n k] decimal_length [of n "Suc k"] by linarith

lemma decimal_length_small:
  "length (decimal n) = 2 \<longleftrightarrow> 10 \<le> n \<and> n < 100"
  "length (decimal n) = 3 \<longleftrightarrow> 100 \<le> n \<and> n < 1000"
  "length (decimal n) = 4 \<longleftrightarrow> 1000 \<le> n \<and> n < 10000"
proof -
  have "Suc (Suc 0) = 2" "Suc (Suc 1) = 3" "Suc (Suc 2) = 4" by simp_all
  moreover have "10 ^ Suc 0 = (10 :: nat)" "10 ^ Suc 1 = (100 :: nat)" "10 ^ Suc 2 = (1000 :: nat)"
    "10 ^ 2 = (100 :: nat)" "10 ^ 3 = (1000 :: nat)" "10 ^ 4 = (10000 :: nat)" by simp_all
  ultimately show
    "length (decimal n) = 2 \<longleftrightarrow> 10 \<le> n \<and> n < 100"
    "length (decimal n) = 3 \<longleftrightarrow> 100 \<le> n \<and> n < 1000"
    "length (decimal n) = 4 \<longleftrightarrow> 1000 \<le> n \<and> n < 10000"
    using decimal_length_eq [of n 0] decimal_length_eq [of n 1] decimal_length_eq [of n 2] by metis+
qed

lemma newline_not_digit: "\<not> isdigit newline" and nul_not_digit: "\<not> isdigit nul"
  by (simp_all add: isdigit_def)

lemma two_digits:
  assumes "0 \<le> i" and "i < 100"
  shows "length (two_digits i) = 2" and "digits_value (two_digits i) = nat i"
    and "\<forall>c \<in> set (two_digits i). isdigit c"
proof -
  have n: "nat i < 100" using assms by simp
  show "length (two_digits i) = 2"
  proof (cases "i < 10")
    case True
    then have "nat i < 10" by simp
    then have "decimal (nat i) = [48 + of_nat (nat i)]" by (subst decimal.simps) (simp only: if_True)
    with True assms show ?thesis by (simp add: two_digits_def)
  next
    case False
    then show ?thesis
      using assms by (simp add: two_digits_def signed_decimal_def decimal_length_small le_nat_iff n)
  qed
  have "digits_value (48 # ds) = digits_value ds" for ds by (simp add: digits_value_def)
  then show "digits_value (two_digits i) = nat i"
    using assms by (simp add: two_digits_def signed_decimal_def decimal_value)
  show "\<forall>c \<in> set (two_digits i). isdigit c"
    using assms decimal_digits by (simp add: two_digits_def signed_decimal_def) (simp add: isdigit_def)
qed

section \<open>The text of a time stamp\<close>

text \<open>The ranges the C standard gives for the members of a \<open>struct tm\<close>.\<close>

definition tm_ranges :: "tm \<Rightarrow> bool" where
  "tm_ranges t \<longleftrightarrow>
     0 \<le> sint (tm_sec t) \<and> sint (tm_sec t) \<le> 60 \<and> 0 \<le> sint (tm_min t) \<and> sint (tm_min t) \<le> 59 \<and>
     0 \<le> sint (tm_hour t) \<and> sint (tm_hour t) \<le> 23 \<and> 1 \<le> sint (tm_mday t) \<and> sint (tm_mday t) \<le> 31 \<and>
     0 \<le> sint (tm_mon t) \<and> sint (tm_mon t) \<le> 11"

definition tm_date :: "tm \<Rightarrow> int" where
  "tm_date t = sint (tm_year t) + 1900"

definition timestamp :: "tm \<Rightarrow> byte list" where
  "timestamp t = concat (map (date_text t) DATEFMT)"

definition stamp_word :: "byte list" where
  "stamp_word = [116, 105, 109, 101, 115, 116, 97, 109, 112, 58]"

lemma timestamp_eq:
  "timestamp t = stamp_word @ signed_decimal (tm_date t) @ 95 # two_digits (sint (tm_mon t) + 1) @
     95 # two_digits (sint (tm_mday t)) @ 95 # two_digits (sint (tm_hour t)) @
     58 # two_digits (sint (tm_min t)) @ 58 # two_digits (sint (tm_sec t)) @ [newline]"
  by (simp add: timestamp_def DATEFMT_def stamp_word_def tm_date_def)

lemma signed_decimal_length:
  "length (signed_decimal i) = 4 \<longleftrightarrow> 1000 \<le> i \<and> i \<le> 9999 \<or> - 999 \<le> i \<and> i \<le> - 100"
proof (cases "i < 0")
  case True
  then have "length (signed_decimal i) = 4 \<longleftrightarrow> length (decimal (nat (- i))) = 3"
    by (simp only: signed_decimal_def if_True list.size) simp
  then show ?thesis using True by (auto simp only: decimal_length_small)
next
  case False
  then show ?thesis by (auto simp: signed_decimal_def decimal_length_small)
qed

lemma timestamp_length:
  "tm_ranges t \<Longrightarrow> length (timestamp t) = 26 + length (signed_decimal (tm_date t))"
  unfolding tm_ranges_def timestamp_eq stamp_word_def by (simp add: two_digits(1))

section \<open>Properties\<close>

lemma now_str_SomeD:
  assumes "now_str t = Some buf"
  shows "buf = timestamp t @ [nul]" and "length (timestamp t) = 30"
proof -
  have fits: "length (timestamp t) \<le> 30"
    using assms by (auto simp: now_str_def strftime_def Let_def DATESIZE_def timestamp_def [symmetric] split: if_splits)
  then have n: "unat (of_nat (length (timestamp t)) :: size_t) = length (timestamp t)"
    by (intro unat_of_nat_fits) simp
  have *: "buf = timestamp t @ [nul] \<and> of_nat (length (timestamp t)) = (30 :: size_t)"
    using assms fits
    by (simp add: now_str_def strftime_def Let_def DATESIZE_def timestamp_def [symmetric] split: if_splits)
  then show "buf = timestamp t @ [nul]" by blast
  from * n have "length (timestamp t) = unat (30 :: size_t)" by metis
  then show "length (timestamp t) = 30" by simp
qed

lemma now_str_eq:
  assumes "tm_ranges t"
  shows "now_str t =
    (if 1000 \<le> tm_date t \<and> tm_date t \<le> 9999 \<or> - 999 \<le> tm_date t \<and> tm_date t \<le> - 100
     then Some (timestamp t @ [nul]) else None)"
proof -
  have fits: "unat (of_nat n :: size_t) = n" if "n \<le> 30" for n :: nat
    using that by (intro unat_of_nat_fits) simp
  have *: "length (timestamp t) = 30 \<longleftrightarrow>
      1000 \<le> tm_date t \<and> tm_date t \<le> 9999 \<or> - 999 \<le> tm_date t \<and> tm_date t \<le> - 100"
    using timestamp_length [OF assms] signed_decimal_length [of "tm_date t"] by linarith
  show ?thesis
  proof (cases "length (timestamp t) \<le> 30")
    case True
    have "(of_nat (length (timestamp t)) :: size_t) = 30 \<longleftrightarrow> length (timestamp t) = 30"
    proof
      assume "(of_nat (length (timestamp t)) :: size_t) = 30"
      then have "unat (of_nat (length (timestamp t)) :: size_t) = unat (30 :: size_t)" by (rule arg_cong)
      then show "length (timestamp t) = 30" unfolding fits [OF True] by simp
    qed simp
    with True show ?thesis
      by (simp add: now_str_def strftime_def DATESIZE_def Let_def timestamp_def [symmetric] *)
  next
    case False
    then have "\<not> Suc (length (timestamp t)) \<le> 31" "length (timestamp t) \<noteq> 30" by auto
    with * show ?thesis
      by (simp add: now_str_def strftime_def DATESIZE_def Let_def timestamp_def [symmetric])
  qed
qed

text \<open>
  When the timer thread has a stamp to write. For a time with members in their ranges,
  \<open>strftime\<close> returns \<open>DATESIZE\<close>, and \<open>now_str\<close> holds a string of 30 characters that ends in its
  only newline, exactly when the year takes four characters; in any other year, 10000
  included, the check after \<open>strftime\<close> fails.
\<close>

theorem now_str_fits:
  assumes "tm_ranges t"
  shows "case now_str t of
      None \<Rightarrow> \<not> (1000 \<le> tm_date t \<and> tm_date t \<le> 9999) \<and> \<not> (- 999 \<le> tm_date t \<and> tm_date t \<le> - 100)
    | Some buf \<Rightarrow> buf = timestamp t @ [nul] \<and> length (timestamp t) = unat DATESIZE \<and>
        (\<exists>line. timestamp t = line @ [newline] \<and> newline \<notin> set line \<and> nul \<notin> set (timestamp t)) \<and>
        (1000 \<le> tm_date t \<and> tm_date t \<le> 9999 \<or> - 999 \<le> tm_date t \<and> tm_date t \<le> - 100)"
proof -
  let ?P = "1000 \<le> tm_date t \<and> tm_date t \<le> 9999 \<or> - 999 \<le> tm_date t \<and> tm_date t \<le> - 100"
  have two: "newline \<notin> set (two_digits i)" "nul \<notin> set (two_digits i)" if "0 \<le> i" "i < 100" for i
    using two_digits(3) [OF that] newline_not_digit nul_not_digit by blast+
  have year: "newline \<notin> set (signed_decimal i)" "nul \<notin> set (signed_decimal i)" for i
    using decimal_digits newline_not_digit nul_not_digit by (auto simp: signed_decimal_def)
  let ?line = "stamp_word @ signed_decimal (tm_date t) @ 95 # two_digits (sint (tm_mon t) + 1) @
     95 # two_digits (sint (tm_mday t)) @ 95 # two_digits (sint (tm_hour t)) @
     58 # two_digits (sint (tm_min t)) @ 58 # two_digits (sint (tm_sec t))"
  have "timestamp t = ?line @ [newline]" by (simp add: timestamp_eq)
  moreover have "newline \<notin> set ?line" "nul \<notin> set ?line"
    using assms by (simp_all add: two year stamp_word_def tm_ranges_def)
  ultimately have line: "\<exists>line. timestamp t = line @ [newline] \<and> newline \<notin> set line \<and> nul \<notin> set (timestamp t)"
    by (intro exI [of _ ?line]) simp
  have "length (timestamp t) = unat DATESIZE" if ?P
    using timestamp_length [OF assms] signed_decimal_length [of "tm_date t"] that
    by (simp add: DATESIZE_def)
  with line show ?thesis by (auto simp: now_str_eq [OF assms])
qed

text \<open>Reading a time stamp back: the numbers at their places.\<close>

definition decode_timestamp :: "byte list \<Rightarrow> tm" where
  "decode_timestamp s =
     (let field = (\<lambda>i n. digits_value (take n (drop i s))) in
      \<lparr>tm_sec = of_nat (field 27 2), tm_min = of_nat (field 24 2), tm_hour = of_nat (field 21 2),
       tm_mday = of_nat (field 18 2), tm_mon = of_nat (field 15 2) - 1,
       tm_year = of_nat (field 10 4) - 1900\<rparr>)"

lemma of_nat_sint: "0 \<le> sint (w :: s32) + d \<Longrightarrow> of_nat (nat (sint w + d)) = w + of_int d"
proof -
  assume "0 \<le> sint w + d"
  then have "(of_nat (nat (sint w + d)) :: s32) = of_int (sint w + d)"
    by (metis int_nat_eq of_int_of_nat_eq)
  then show ?thesis by simp
qed

text \<open>
  C34: A time stamp says the time. For every time with members in their ranges and a year of
  1000 to 9999, the fields read back from the line in the file are those of the time.
\<close>

theorem timestamp_roundtrip:
  assumes "tm_ranges t" and "1000 \<le> tm_date t" and "tm_date t \<le> 9999"
  shows "decode_timestamp (timestamp t) = t"
proof -
  have year: "length (signed_decimal (tm_date t)) = 4" "digits_value (signed_decimal (tm_date t)) = nat (tm_date t)"
    using assms(2,3) by (simp_all add: signed_decimal_length) (simp add: signed_decimal_def decimal_value)
  have r: "0 \<le> sint (tm_mon t) + 1" "sint (tm_mon t) + 1 < 100" "0 \<le> sint (tm_mday t)" "sint (tm_mday t) < 100"
    "0 \<le> sint (tm_hour t)" "sint (tm_hour t) < 100" "0 \<le> sint (tm_min t)" "sint (tm_min t) < 100"
    "0 \<le> sint (tm_sec t)" "sint (tm_sec t) < 100"
    using assms(1) by (simp_all add: tm_ranges_def)
  have len: "length stamp_word = 10" by (simp add: stamp_word_def)
  have nat: "of_nat (nat (sint w)) = w" if "0 \<le> sint w" for w :: s32
    using of_nat_sint [of w 0] that by simp
  have mon: "of_nat (nat (sint (tm_mon t) + 1)) = tm_mon t + 1"
    using of_nat_sint [of "tm_mon t" 1] r(1) by simp
  have "0 \<le> sint (tm_year t) + 1900" using assms(2) by (simp add: tm_date_def)
  then have date: "of_nat (nat (tm_date t)) = tm_year t + 1900"
    using of_nat_sint [of "tm_year t" 1900] by (simp add: tm_date_def)
  show ?thesis
    unfolding decode_timestamp_def timestamp_eq Let_def
    using r by (simp add: len year two_digits nat mon date)
qed

text \<open>Midnight of the first of January 2023.\<close>

definition new_year :: tm where
  "new_year = \<lparr>tm_sec = 0, tm_min = 0, tm_hour = 0, tm_mday = 1, tm_mon = 0, tm_year = 123\<rparr>"

lemma new_year: "tm_ranges new_year" "tm_date new_year = 2023"
  by (simp_all add: tm_ranges_def tm_date_def new_year_def)

theorem now_str_fits_witness:
  "now_str new_year = Some (timestamp new_year @ [nul]) \<and> length (timestamp new_year) = 30 \<and>
   now_str (new_year\<lparr>tm_year := 8100\<rparr>) = None"
proof -
  have big: "tm_ranges (new_year\<lparr>tm_year := 8100\<rparr>)" "tm_date (new_year\<lparr>tm_year := 8100\<rparr>) = 10000"
    by (simp_all add: tm_ranges_def tm_date_def new_year_def)
  show ?thesis
    using now_str_fits [OF new_year(1)] now_str_fits [OF big(1)] new_year(2) big(2)
    by (auto simp: DATESIZE_def split: option.splits)
qed

theorem timestamp_roundtrip_witness:
  "decode_timestamp (timestamp new_year) = new_year"
  using timestamp_roundtrip [OF new_year(1)] new_year(2) by simp

end
