(* ===== verification/Timer.thy ===== *)
theory Timer
  imports TimeStamp PutLoops
begin

text \<open>
  \<open>timer_handler\<close> of \<open>server/src/signal.c\<close>, the thread that appends a time stamp to the file
  every ten seconds, and the registration of the exit signals.
\<close>

section \<open>Signals that end the program\<close>

text \<open>\<open>_exit_handler\<close> sets \<open>sig_exit\<close>; \<open>sig_setexit\<close> registers it when \<open>sigaction\<close> succeeds.\<close>

datatype signal = SIGINT | SIGTERM | SIGALRM

record signals_state =
  exit_signals :: "signal set"
  sig_exit :: bool

definition exit_handler :: "signals_state \<Rightarrow> signals_state" where
  "exit_handler s = s\<lparr>sig_exit := True\<rparr>"

definition sig_setexit :: "s32 \<Rightarrow> signal \<Rightarrow> signals_state \<Rightarrow> signals_state \<times> s32" where
  "sig_setexit sigaction signo s =
     (if sint sigaction < 0 then (s, - 1) else (s\<lparr>exit_signals := insert signo (exit_signals s)\<rparr>, 0))"

section \<open>The timer thread\<close>

text \<open>
  The calls made once: the results of \<open>pthread_sigmask\<close>, \<open>timer_create\<close>, \<open>timer_settime\<close>,
  \<open>timer_delete\<close> and \<open>close\<close>, \<open>open\<close> with \<open>O_APPEND\<close> (\<open>None\<close> for an error) and \<open>write\<close>.
\<close>

record 'f timer_env =
  sigmask_ret :: s32
  stamp_open :: "'f \<Rightarrow> 'f option"
  stamp_write :: "'f sink"
  timer_create_ret :: s32
  timer_settime_ret :: s32
  timer_delete_ret :: s32
  stamp_close_ret :: s32

text \<open>
  One round of the loop: whether \<open>sig_exit\<close> is set when it is tested, the result of \<open>sigwait\<close>
  and the signal it stored, the results of \<open>time\<close> and \<open>localtime_r\<close>, and of locking and
  unlocking the mutex.
\<close>

record tick =
  exit_seen :: bool
  sigwait_ret :: s32
  sig_taken :: "signal option"
  time_ret :: "64 word"
  local_time :: "tm option"
  tick_lock :: s32
  tick_unlock :: s32

text \<open>
  \<open>timer_var\<close> is the variable \<open>timer\<close>: \<open>None\<close> before a timer has been stored in it, then whether
  the timer exists. \<open>signo_var\<close> is the variable \<open>signo\<close>.
\<close>

record 'f timer_state =
  stamp_file :: 'f
  stamp_fd_open :: bool
  timer_var :: "bool option"
  signo_var :: "signal option"
  stamp_mutex :: bool

text \<open>Writing the stamp under the mutex: the state and whether the thread has to give up.\<close>

definition print_stamp ::
  "'f timer_env \<Rightarrow> nat \<Rightarrow> tick \<Rightarrow> byte list \<Rightarrow> 'f timer_state \<Rightarrow> ('f timer_state \<times> bool) res option" where
  "print_stamp e fuel k buf st =
     (if tick_lock k = 0 then
        let st = st\<lparr>stamp_mutex := True\<rparr> in
        bindL (putchars (stamp_write e) fuel (stamp_file st) buf DATESIZE) (\<lambda>(f, write_status).
        let st = st\<lparr>stamp_file := f, stamp_mutex := tick_unlock k \<noteq> 0\<rparr> in
        Some (Inr (st, tick_unlock k \<noteq> 0 \<or> sint write_status < 0)))
      else Some (Inr (st, True)))"

text \<open>
  The loop over the rounds; \<open>None\<close> when the rounds, or the fuel of a write, are used up before
  the loop ends. The flag says whether it ends with \<open>abort\<close> set in it.
\<close>

primrec timer_loop ::
  "'f timer_env \<Rightarrow> nat \<Rightarrow> 'f timer_state \<Rightarrow> tick list \<Rightarrow> ('f timer_state \<times> bool) res option" where
  "timer_loop e fuel st [] = None"
| "timer_loop e fuel st (k # ks) =
     (if exit_seen k then Some (Inr (st, False))
      else if sint (sigwait_ret k) < 0 then Some (Inr (st, True))
      else
        let st = (case sig_taken k of None \<Rightarrow> st | Some s \<Rightarrow> st\<lparr>signo_var := Some s\<rparr>) in
        (case signo_var st of
           None \<Rightarrow> Some (Inl Uninitialised)
         | Some signo \<Rightarrow>
             if signo = SIGTERM then Some (Inr (st, False))
             else if time_ret k = - 1 then Some (Inr (st, True))
             else
               (case local_time k of
                  None \<Rightarrow> Some (Inr (st, True))
                | Some t \<Rightarrow>
                    (case now_str t of
                       None \<Rightarrow> Some (Inr (st, True))
                     | Some buf \<Rightarrow>
                         bindL (print_stamp e fuel k buf st) (\<lambda>(st, bad).
                         if bad then Some (Inr (st, True)) else timer_loop e fuel st ks)))))"

text \<open>The labels \<open>file_cleanup\<close> and \<open>cleanup\<close>, with the return value of the thread.\<close>

definition file_cleanup :: "'f timer_env \<Rightarrow> 'f timer_state \<Rightarrow> bool \<Rightarrow> 'f timer_state \<times> s32" where
  "file_cleanup e st abort =
     (let closed = stamp_fd_open st \<and> 0 \<le> sint (stamp_close_ret e);
          abort = (abort \<or> \<not> closed)
      in (st\<lparr>stamp_fd_open := False\<rparr>, if abort then - 1 else 0))"

definition cleanup :: "'f timer_env \<Rightarrow> 'f timer_state \<Rightarrow> bool \<Rightarrow> ('f timer_state \<times> s32) res" where
  "cleanup e st abort =
     (case timer_var st of
        None \<Rightarrow> Inl Uninitialised
      | Some live \<Rightarrow>
          let deleted = live \<and> 0 \<le> sint (timer_delete_ret e);
              st = st\<lparr>timer_var := Some (live \<and> \<not> deleted)\<rparr>
          in Inr (file_cleanup e st (abort \<or> \<not> deleted)))"

definition timer_handler ::
  "'f timer_env \<Rightarrow> nat \<Rightarrow> 'f \<Rightarrow> tick list \<Rightarrow> ('f timer_state \<times> s32) res option" where
  "timer_handler e fuel f ticks =
     (let st = \<lparr>stamp_file = f, stamp_fd_open = False, timer_var = None, signo_var = None,
                stamp_mutex = False\<rparr> in
      if sint (sigmask_ret e) < 0 then Some (Inr (st, - 1))
      else
        (case stamp_open e f of
           None \<Rightarrow> Some (Inr (file_cleanup e st True))
         | Some f' \<Rightarrow>
             let st = st\<lparr>stamp_file := f', stamp_fd_open := True\<rparr> in
             if sint (timer_create_ret e) < 0 then Some (cleanup e st True)
             else
               let st = st\<lparr>timer_var := Some True\<rparr>; abort = sint (timer_settime_ret e) < 0 in
               bindL (timer_loop e fuel st ticks) (\<lambda>(st, bad).
               Some (cleanup e st (abort \<or> bad)))))"

section \<open>One stamp\<close>

lemma DATESIZE_fits: "unat DATESIZE = 30"
  by (simp add: DATESIZE_def)

lemma print_stamp_cases:
  assumes "sink_ok taken (stamp_write e)" and "now_str t = Some buf" and "tick_unlock k = 0"
    and "\<not> stamp_mutex st" and "print_stamp e fuel k buf st = Some r"
  shows "\<exists>f bad m. r = Inr (st\<lparr>stamp_file := f\<rparr>, bad) \<and>
    taken f = taken (stamp_file st) @ take m (timestamp t) \<and> (\<not> bad \<longrightarrow> m = 30)"
proof (cases "tick_lock k = 0")
  case False
  then have "r = Inr (st\<lparr>stamp_file := stamp_file st\<rparr>, True)" using assms(5) by (simp add: print_stamp_def)
  then show ?thesis by (intro exI [of _ "stamp_file st"] exI [of _ True] exI [of _ 0]) simp
next
  case True
  note buf = now_str_SomeD [OF assms(2)]
  obtain p where p: "putchars (stamp_write e) fuel (stamp_file st) buf DATESIZE = Some p"
    using assms(5) True by (cases "putchars (stamp_write e) fuel (stamp_file st) buf DATESIZE")
      (auto simp: print_stamp_def)
  have "0 + unat DATESIZE \<le> length buf" using buf by (simp add: DATESIZE_fits)
  then obtain f ret m where f: "p = Inr (f, ret)" "taken f = taken (stamp_file st) @ take m (drop 0 buf)"
      "m \<le> unat DATESIZE" "ret = 0 \<and> m = unat DATESIZE \<or> ret = - 1"
    using pc.put_result [OF assms(1) _ p [unfolded putchars_def]] by blast
  have "take m (drop 0 buf) = take m (timestamp t)"
    using buf f(3) by (simp add: DATESIZE_fits)
  moreover have "st\<lparr>stamp_mutex := True, stamp_file := f, stamp_mutex := False\<rparr> = st\<lparr>stamp_file := f\<rparr>"
    using assms(4) by simp
  ultimately show ?thesis
    using assms(3,5) True p f
    by (intro exI [of _ f] exI [of _ "ret \<noteq> 0"] exI [of _ m])
      (auto simp: print_stamp_def DATESIZE_fits)
qed

text \<open>Whole stamps, and a piece of one more.\<close>

definition stamps :: "tm list \<Rightarrow> tm \<Rightarrow> nat \<Rightarrow> byte list" where
  "stamps ts t m = concat (map timestamp ts) @ take m (timestamp t)"

definition loop_outcome ::
  "('f \<Rightarrow> byte list) \<Rightarrow> tick list \<Rightarrow> 'f timer_state \<Rightarrow> ('f timer_state \<times> bool) res \<Rightarrow> bool" where
  "loop_outcome taken ks st r \<longleftrightarrow>
     (case r of
        Inl x \<Rightarrow> x = Uninitialised \<and> (\<exists>k \<in> set ks. sig_taken k = None)
      | Inr (st', bad) \<Rightarrow>
          \<not> stamp_mutex st' \<and> stamp_fd_open st' = stamp_fd_open st \<and> timer_var st' = timer_var st \<and>
          (\<exists>ts t m. taken (stamp_file st') = taken (stamp_file st) @ stamps ts t m \<and>
             (\<not> bad \<longrightarrow> m = 0)))"

lemma loop_outcome_here:
  "\<not> stamp_mutex st \<Longrightarrow> loop_outcome taken ks st (Inr (st\<lparr>signo_var := s\<rparr>, bad))"
proof -
  have "taken (stamp_file st) = taken (stamp_file st) @ stamps [] t 0" for t by (simp add: stamps_def)
  then show "\<not> stamp_mutex st \<Longrightarrow> loop_outcome taken ks st (Inr (st\<lparr>signo_var := s\<rparr>, bad))"
    unfolding loop_outcome_def sum.case prod.case by (auto intro!: exI)
qed

lemma loop_outcome_later:
  assumes "loop_outcome taken ks (st\<lparr>signo_var := s, stamp_file := f\<rparr>) r"
    and "taken f = taken (stamp_file st) @ timestamp t"
  shows "loop_outcome taken (k # ks) st r"
proof (cases r)
  case (Inr p)
  obtain st' bad where p: "p = (st', bad)" by force
  obtain ts u m where ts: "taken (stamp_file st') = taken f @ stamps ts u m" "\<not> bad \<longrightarrow> m = 0"
    using assms(1) unfolding Inr p loop_outcome_def by auto
  have "taken (stamp_file st') = taken (stamp_file st) @ stamps (t # ts) u m"
    using ts(1) assms(2) by (simp add: stamps_def)
  then show ?thesis using assms(1) ts(2) unfolding Inr p loop_outcome_def by auto
qed (use assms in \<open>auto simp: loop_outcome_def\<close>)

text \<open>A round that writes a stamp.\<close>

lemma loop_outcome_stamp:
  assumes sink: "sink_ok taken (stamp_write e)" and t: "local_time k = Some t" "now_str t = Some buf"
    and unlock: "tick_unlock k = 0" and free: "\<not> stamp_mutex st"
    and body: "bindL (print_stamp e fuel k buf (st\<lparr>signo_var := v\<rparr>)) (\<lambda>(st, bad).
      if bad then Some (Inr (st, True)) else timer_loop e fuel st ks) = Some r"
    and rest: "\<And>f. timer_loop e fuel (st\<lparr>signo_var := v, stamp_file := f\<rparr>) ks = Some r \<Longrightarrow>
      loop_outcome taken ks (st\<lparr>signo_var := v, stamp_file := f\<rparr>) r"
  shows "loop_outcome taken (k # ks) st r"
proof -
  let ?st1 = "st\<lparr>signo_var := v\<rparr>"
  obtain p where p: "print_stamp e fuel k buf ?st1 = Some p"
    using body by (cases "print_stamp e fuel k buf ?st1") auto
  have "\<not> stamp_mutex ?st1" using free by simp
  then obtain f bad m where f: "p = Inr (?st1\<lparr>stamp_file := f\<rparr>, bad)"
    "taken f = taken (stamp_file st) @ take m (timestamp t)" "\<not> bad \<longrightarrow> m = 30"
    using print_stamp_cases [OF sink t(2) unlock _ p] by auto
  show ?thesis
  proof (cases bad)
    case True
    then have "r = Inr (?st1\<lparr>stamp_file := f\<rparr>, True)" using body p f(1) by simp
    moreover have "taken f = taken (stamp_file st) @ stamps [] t m"
      using f(2) by (simp add: stamps_def)
    ultimately show ?thesis using free unfolding loop_outcome_def by auto
  next
    case False
    then have "timer_loop e fuel (st\<lparr>signo_var := v, stamp_file := f\<rparr>) ks = Some r"
      using body p f(1) by simp
    then have "loop_outcome taken ks (st\<lparr>signo_var := v, stamp_file := f\<rparr>) r" by (rule rest)
    moreover have "taken f = taken (stamp_file st) @ timestamp t"
      using f(2,3) False now_str_SomeD(2) [OF t(2)] by simp
    ultimately show ?thesis by (rule loop_outcome_later)
  qed
qed

lemma timer_loop_outcome:
  assumes sink: "sink_ok taken (stamp_write e)"
  shows "\<forall>k \<in> set ks. tick_unlock k = 0 \<Longrightarrow> \<not> stamp_mutex st \<Longrightarrow> timer_loop e fuel st ks = Some r \<Longrightarrow>
    loop_outcome taken ks st r"
proof (induction ks arbitrary: st)
  case (Cons k ks)
  define st1 where "st1 = (case sig_taken k of None \<Rightarrow> st | Some s \<Rightarrow> st\<lparr>signo_var := Some s\<rparr>)"
  have st1: "st1 = st\<lparr>signo_var := signo_var st1\<rparr>" by (simp add: st1_def split: option.split)
  have here: "loop_outcome taken (k # ks) st (Inr (st, bad))"
      "loop_outcome taken (k # ks) st (Inr (st1, bad))" for bad
    using loop_outcome_here [OF Cons.prems(2), of taken "k # ks" "signo_var st"]
      loop_outcome_here [OF Cons.prems(2), of taken "k # ks" "signo_var st1"] st1 by simp_all
  note run = Cons.prems(3) [unfolded timer_loop.simps Let_def st1_def [symmetric]]
  show ?case
  proof (cases "exit_seen k \<or> sint (sigwait_ret k) < 0")
    case True
    with run here show ?thesis by (auto split: if_splits)
  next
    case go: False
    show ?thesis
    proof (cases "signo_var st1")
      case None
      then have "sig_taken k = None" by (simp add: st1_def split: option.splits)
      then show ?thesis using run go None by (auto simp: loop_outcome_def)
    next
      case (Some signo)
      show ?thesis
      proof (cases "signo = SIGTERM \<or> time_ret k = - 1 \<or> local_time k = None \<or>
          now_str (the (local_time k)) = None")
        case True
        with run go Some here show ?thesis by (auto split: option.splits if_splits)
      next
        case False
        then obtain t buf where t: "local_time k = Some t" "now_str t = Some buf" by auto
        have body: "bindL (print_stamp e fuel k buf (st\<lparr>signo_var := signo_var st1\<rparr>)) (\<lambda>(st, bad).
            if bad then Some (Inr (st, True)) else timer_loop e fuel st ks) = Some r"
          using run go Some False t unfolding st1 [symmetric] by simp
        show ?thesis
          by (rule loop_outcome_stamp [OF sink t _ Cons.prems(2) body]) (use Cons in simp_all)
      qed
    qed
  qed
qed simp

text \<open>The label \<open>cleanup\<close> after the loop.\<close>

lemma cleanup_after_loop:
  assumes "0 \<le> sint (timer_delete_ret e)" and "0 \<le> sint (stamp_close_ret e)"
    and "stamp_fd_open st" and "timer_var st = Some True"
  shows "\<exists>st'. cleanup e st bad = Inr (st', if bad then - 1 else 0) \<and> \<not> stamp_fd_open st' \<and>
    timer_var st' = Some False \<and> stamp_mutex st' = stamp_mutex st \<and> stamp_file st' = stamp_file st"
  using assms by (simp add: cleanup_def file_cleanup_def)

section \<open>Properties\<close>

text \<open>
  C35: However the timer thread ends. If the calls that release things work and the file
  behaves like a file, then a thread that comes to its end has closed the file, deleted its
  timer and does not hold the mutex, and it has appended whole time stamps and at most a
  piece of one more, of which there is none when it reports success. The only undefined
  behaviour is \<open>timer_delete\<close> of a timer that was not created, and the test of a signal that
  a failing \<open>sigwait\<close> has not stored.
\<close>

theorem timer_handler_outcomes:
  assumes "sink_ok taken (stamp_write e)" and "\<forall>f f'. stamp_open e f = Some f' \<longrightarrow> taken f' = taken f"
    and "0 \<le> sint (timer_delete_ret e)" and "0 \<le> sint (stamp_close_ret e)"
    and "\<forall>k \<in> set ticks. tick_unlock k = 0" and "timer_handler e fuel f ticks = Some r"
  shows "case r of
      Inl x \<Rightarrow> x = Uninitialised \<and>
        (sint (timer_create_ret e) < 0 \<or> (\<exists>k \<in> set ticks. sig_taken k = None))
    | Inr (st, ret) \<Rightarrow>
        \<not> stamp_fd_open st \<and> timer_var st \<noteq> Some True \<and> \<not> stamp_mutex st \<and> (ret = 0 \<or> ret = - 1) \<and>
        (\<exists>ts t m. taken (stamp_file st) = taken f @ stamps ts t m \<and> (ret = 0 \<longrightarrow> m = 0))"
proof -
  let ?st = "\<lparr>stamp_file = f, stamp_fd_open = False, timer_var = None, signo_var = None,
    stamp_mutex = False\<rparr>"
  show ?thesis
  proof (cases "sint (sigmask_ret e) < 0 \<or> stamp_open e f = None")
    case True
    then have r: "r = Inr (?st, - 1)"
      using assms(6) by (auto simp: timer_handler_def file_cleanup_def Let_def split: if_splits)
    have "taken f = taken f @ stamps [] new_year 0" by (simp add: stamps_def)
    then show ?thesis unfolding r by (auto intro!: exI)
  next
    case False
    then obtain f' where f': "stamp_open e f = Some f'" by blast
    show ?thesis
    proof (cases "sint (timer_create_ret e) < 0")
      case True
      then show ?thesis
        using assms(6) False f' by (auto simp: timer_handler_def cleanup_def Let_def)
    next
      case created: False
      let ?st = "?st\<lparr>stamp_file := f', stamp_fd_open := True, timer_var := Some True\<rparr>"
      have body: "bindL (timer_loop e fuel ?st ticks)
          (\<lambda>(st, bad). Some (cleanup e st (sint (timer_settime_ret e) < 0 \<or> bad))) = Some r"
        using assms(6) False f' created by (simp add: timer_handler_def Let_def)
      then obtain p where p: "timer_loop e fuel ?st ticks = Some p"
        by (cases "timer_loop e fuel ?st ticks") auto
      have out: "loop_outcome taken ticks ?st p"
        using timer_loop_outcome [OF assms(1,5) _ p] by simp
      show ?thesis
      proof (cases p)
        case (Inl x)
        then show ?thesis using out body p by (auto simp: loop_outcome_def)
      next
        case (Inr q)
        obtain st bad where q: "q = (st, bad)" by force
        obtain ts t m where st: "\<not> stamp_mutex st" "stamp_fd_open st" "timer_var st = Some True"
          "taken (stamp_file st) = taken f @ stamps ts t m" "\<not> bad \<longrightarrow> m = 0"
          using out assms(2) f' unfolding Inr q loop_outcome_def by auto
        have r: "r = cleanup e st (sint (timer_settime_ret e) < 0 \<or> bad)" using body p Inr q by simp
        show ?thesis
          using cleanup_after_loop [OF assms(3,4) st(2,3), of "sint (timer_settime_ret e) < 0 \<or> bad"] st
          unfolding r by fastforce
      qed
    qed
  qed
qed

text \<open>A round in which the timer fires at the time \<open>t\<close> and everything works, and the last one.\<close>

definition alarm_tick :: "tick \<Rightarrow> tm \<Rightarrow> bool" where
  "alarm_tick k t \<longleftrightarrow>
     \<not> exit_seen k \<and> 0 \<le> sint (sigwait_ret k) \<and> sig_taken k = Some SIGALRM \<and> time_ret k \<noteq> - 1 \<and>
     local_time k = Some t \<and> tick_lock k = 0 \<and> tick_unlock k = 0 \<and>
     tm_ranges t \<and> 1000 \<le> tm_date t \<and> tm_date t \<le> 9999"

definition stop_tick :: "tick \<Rightarrow> bool" where
  "stop_tick k \<longleftrightarrow> exit_seen k \<or> 0 \<le> sint (sigwait_ret k) \<and> sig_taken k = Some SIGTERM"

lemma print_stamp_alarm:
  assumes "sink_ok taken (stamp_write e)" and "sink_progress (stamp_write e)" and "sink_total (stamp_write e)"
    and "30 < fuel" and "alarm_tick k t" and "\<not> stamp_mutex st"
  shows "\<exists>f. now_str t = Some (timestamp t @ [nul]) \<and>
    print_stamp e fuel k (timestamp t @ [nul]) st = Some (Inr (st\<lparr>stamp_file := f\<rparr>, False)) \<and>
    taken f = taken (stamp_file st) @ timestamp t"
proof -
  have buf: "now_str t = Some (timestamp t @ [nul])"
    using assms(5) by (simp add: alarm_tick_def now_str_eq)
  note len = now_str_SomeD(2) [OF buf]
  have room: "0 + unat DATESIZE \<le> length (timestamp t @ [nul])" using len by (simp add: DATESIZE_fits)
  obtain p where p: "putchars_loop (stamp_write e) fuel (stamp_file st) (timestamp t @ [nul]) 0 DATESIZE = Some p"
    using pc.put_terminates [OF assms(1,2) room] assms(4) by (auto simp: DATESIZE_fits)
  obtain f ret where f: "p = Inr (f, ret)" using pc.put_result [OF assms(1) room p] by blast
  have "ret = 0" using pc.put_total [OF assms(1,3) room] p f by simp
  then have run: "print_stamp e fuel k (timestamp t @ [nul]) st = Some (Inr (st\<lparr>stamp_file := f\<rparr>, False))"
    using assms(5,6) p f by (simp add: print_stamp_def putchars_def alarm_tick_def)
  have "tick_unlock k = 0" using assms(5) by (simp add: alarm_tick_def)
  from print_stamp_cases [OF assms(1) buf this assms(6) run]
  obtain g where "st\<lparr>stamp_file := f\<rparr> = st\<lparr>stamp_file := g\<rparr>"
      "taken g = taken (stamp_file st) @ timestamp t" using len by auto
  then have "taken f = taken (stamp_file st) @ timestamp t"
    by (auto dest: arg_cong [of _ _ stamp_file])
  with buf run show ?thesis by blast
qed

lemma timer_loop_alarms:
  assumes "sink_ok taken (stamp_write e)" and "sink_progress (stamp_write e)" and "sink_total (stamp_write e)"
    and "30 < fuel" and "stop_tick k" and "list_all2 alarm_tick ks ts" and "\<not> stamp_mutex st"
  shows "\<exists>f s. timer_loop e fuel st (ks @ k # rest) =
      Some (Inr (st\<lparr>stamp_file := f, signo_var := s\<rparr>, False)) \<and>
    taken f = taken (stamp_file st) @ concat (map timestamp ts)"
  using assms(6,7)
proof (induction ks ts arbitrary: st rule: list_all2_induct)
  case Nil
  let ?s = "if exit_seen k then signo_var st else Some SIGTERM"
  have "timer_loop e fuel st ([] @ k # rest) = Some (Inr (st\<lparr>signo_var := ?s\<rparr>, False))"
    using assms(5) by (auto simp: stop_tick_def not_less [symmetric])
  also have "st\<lparr>signo_var := ?s\<rparr> = st\<lparr>stamp_file := stamp_file st, signo_var := ?s\<rparr>" by simp
  finally show ?case by (intro exI conjI) (assumption, simp)
next
  case (Cons k' ks t ts)
  let ?st1 = "st\<lparr>signo_var := Some SIGALRM\<rparr>"
  obtain f where f: "now_str t = Some (timestamp t @ [nul])"
      "print_stamp e fuel k' (timestamp t @ [nul]) ?st1 = Some (Inr (?st1\<lparr>stamp_file := f\<rparr>, False))"
      "taken f = taken (stamp_file st) @ timestamp t"
    using print_stamp_alarm [OF assms(1-4) Cons.hyps(1), of ?st1] Cons.prems by auto
  have "timer_loop e fuel st ((k' # ks) @ k # rest) = timer_loop e fuel (?st1\<lparr>stamp_file := f\<rparr>) (ks @ k # rest)"
    using Cons.hyps(1) f(1,2) by (simp add: alarm_tick_def not_less [symmetric])
  moreover obtain f2 s where "timer_loop e fuel (?st1\<lparr>stamp_file := f\<rparr>) (ks @ k # rest) =
      Some (Inr (?st1\<lparr>stamp_file := f, stamp_file := f2, signo_var := s\<rparr>, False))"
      "taken f2 = taken f @ concat (map timestamp ts)"
    using Cons.IH [of "?st1\<lparr>stamp_file := f\<rparr>"] Cons.prems by auto
  ultimately show ?case
    using f(3) by (intro exI [of _ f2] exI [of _ s]) simp
qed

text \<open>
  C21: The stamps of a working timer. When the calls succeed, the timer fires at the times \<open>ts\<close>,
  each of them in a year of four digits, and then the program is ended (by \<open>SIGTERM\<close> to the
  thread, or \<open>sig_exit\<close>), the file has grown by exactly the stamps of these times, in order;
  the thread returns 0, the file is closed, the timer deleted and the mutex free. More than
  30 calls of \<open>write\<close> are never needed for a stamp.
\<close>

theorem timer_handler_stamps:
  assumes "sink_ok taken (stamp_write e)" and "sink_progress (stamp_write e)" and "sink_total (stamp_write e)"
    and "30 < fuel" and "list_all2 alarm_tick ks ts" and "stop_tick k"
    and "stamp_open e f = Some f'" and "taken f' = taken f"
    and "\<forall>ret \<in> {sigmask_ret e, timer_create_ret e, timer_settime_ret e, timer_delete_ret e,
      stamp_close_ret e}. 0 \<le> sint ret"
  shows "\<exists>st. timer_handler e fuel f (ks @ k # rest) = Some (Inr (st, 0)) \<and>
    taken (stamp_file st) = taken f @ concat (map timestamp ts) \<and>
    \<not> stamp_fd_open st \<and> timer_var st = Some False \<and> \<not> stamp_mutex st"
proof -
  let ?st = "\<lparr>stamp_file = f', stamp_fd_open = True, timer_var = Some True, signo_var = None,
    stamp_mutex = False\<rparr>"
  obtain g s where g: "timer_loop e fuel ?st (ks @ k # rest) =
      Some (Inr (?st\<lparr>stamp_file := g, signo_var := s\<rparr>, False))"
      "taken g = taken f @ concat (map timestamp ts)"
    using timer_loop_alarms [OF assms(1-4,6,5), of ?st rest] assms(8) by auto
  have "timer_handler e fuel f (ks @ k # rest) =
      Some (Inr (\<lparr>stamp_file = g, stamp_fd_open = False, timer_var = Some False, signo_var = s,
        stamp_mutex = False\<rparr>, 0))"
    using assms(7,9) g(1)
    by (simp add: timer_handler_def cleanup_def file_cleanup_def not_less [symmetric])
  then show ?thesis using g(2) by simp
qed

section \<open>Witnesses\<close>

definition timer_env_example :: "byte list timer_env" where
  "timer_env_example =
     \<lparr>sigmask_ret = 0, stamp_open = Some, stamp_write = two_at_a_time,
      timer_create_ret = 0, timer_settime_ret = 0, timer_delete_ret = 0, stamp_close_ret = 0\<rparr>"

definition tick_example :: tick where
  "tick_example =
     \<lparr>exit_seen = False, sigwait_ret = 0, sig_taken = Some SIGALRM, time_ret = 0,
      local_time = Some new_year, tick_lock = 0, tick_unlock = 0\<rparr>"

theorem timer_handler_stamps_witness:
  "\<exists>st. timer_handler timer_env_example 31 [] [tick_example, tick_example\<lparr>exit_seen := True\<rparr>] =
     Some (Inr (st, 0)) \<and> stamp_file st = timestamp new_year"
proof -
  have "alarm_tick tick_example new_year"
    using new_year by (simp add: alarm_tick_def tick_example_def)
  moreover have "stop_tick (tick_example\<lparr>exit_seen := True\<rparr>)" by (simp add: stop_tick_def)
  ultimately show ?thesis
    using timer_handler_stamps [of id timer_env_example 31 "[tick_example]" "[new_year]"
        "tick_example\<lparr>exit_seen := True\<rparr>" "[]" "[]" "[]"]
      two_at_a_time_ok two_at_a_time_total
    by (auto simp: timer_env_example_def)
qed

theorem timer_handler_outcomes_witness:
  "\<exists>x. timer_handler (timer_env_example\<lparr>timer_create_ret := - 1\<rparr>) 31 [] [] = Some (Inl x) \<and>
     x = Uninitialised"
proof -
  have "timer_handler (timer_env_example\<lparr>timer_create_ret := - 1\<rparr>) 31 [] [] = Some (Inl Uninitialised)"
    by (simp add: timer_handler_def cleanup_def timer_env_example_def)
  with timer_handler_outcomes [of id "timer_env_example\<lparr>timer_create_ret := - 1\<rparr>" "[]" 31 "[]" "Inl Uninitialised"]
    two_at_a_time_ok
  show ?thesis by (auto simp: timer_env_example_def)
qed

end
