(* ===== verification/ServerMain.thy ===== *)
theory ServerMain
  imports AcceptorList Timer
begin

text \<open>
  The start and the end of \<open>main\<close> of \<open>server/src/aesdsocket.c\<close> around the loops of theory
  Acceptor, with \<open>sock_create\<close> and \<open>sock_gethost\<close> (\<open>server/src/socket.c\<close>), \<open>usage\<close> and
  \<open>daemonize\<close> (\<open>server/src/utils.c\<close>).
\<close>

section \<open>The process\<close>

text \<open>
  What the descriptors of the process refer to, how many address lists of \<open>getaddrinfo\<close> are
  allocated, the signals, the thread identifier \<open>timer_thread\<close> and whether \<open>TMPFILE\<close> exists.
\<close>

datatype fobj = DevNull | Socket | OtherFile

record process =
  fds :: "s32 \<rightharpoonup> fobj"
  nonblocking :: "s32 set"
  addrinfos :: nat
  signals :: signals_state
  timer_thread :: "nat option"
  file_exists :: bool

section \<open>Sockets\<close>

text \<open>The results of the calls of \<open>sock_create\<close>.\<close>

record sock_env =
  getaddrinfo_ret :: s32
  socket_ret :: s32
  setsockopt_ret :: s32
  bind_ret :: s32

definition sock_create :: "sock_env \<Rightarrow> process \<Rightarrow> process \<times> s32" where
  "sock_create e p =
     (if getaddrinfo_ret e \<noteq> 0 then (p, - 1)
      else
        let p = p\<lparr>addrinfos := addrinfos p + 1\<rparr> in
        if sint (socket_ret e) < 0 then (p, - 1)
        else
          let p = p\<lparr>fds := (fds p)(socket_ret e \<mapsto> Socket)\<rparr> in
          if sint (setsockopt_ret e) < 0 then (p, - 1)
          else if sint (bind_ret e) < 0 then (p, - 1)
          else (p\<lparr>addrinfos := addrinfos p - 1\<rparr>, socket_ret e))"

text \<open>
  \<open>sock_gethost\<close>: \<open>getsockname\<close> stores the address in a \<open>struct sockaddr\<close> of 16 bytes, cut off
  if need be, and its full length in \<open>addrlen\<close>; \<open>getnameinfo\<close> reads \<open>addrlen\<close> bytes of it and
  stores a name that fits into \<open>hostlen\<close> bytes or fails.
\<close>

record host_env =
  getsockname_ret :: s32
  sock_address :: "byte list"
  host_name :: "byte list \<Rightarrow> byte list option"

definition sock_gethost :: "host_env \<Rightarrow> nat \<Rightarrow> (s32 \<times> byte list option) res" where
  "sock_gethost e hostlen =
     (if sint (getsockname_ret e) < 0 then Inr (- 1, None)
      else
        let addr = take 16 (sock_address e); addrlen = length (sock_address e) in
        if length addr < addrlen then Inl OutOfBounds
        else
          (case host_name e (take addrlen addr) of
             None \<Rightarrow> Inr (- 1, None)
           | Some host \<Rightarrow>
               if length host + 1 \<le> hostlen then Inr (0, Some (host @ [nul])) else Inr (- 1, None)))"

section \<open>Becoming a daemon\<close>

record daemon_env =
  fork_ret :: s32
  setsid_ret :: s32
  chdir_ret :: s32
  devnull_ret :: s32
  dup2_fails :: "s32 \<Rightarrow> bool"
  devnull_close_ret :: s32

text \<open>\<open>dup2\<close>: \<open>None\<close> for an error, as for a descriptor that is not open.\<close>

definition dup2 :: "daemon_env \<Rightarrow> s32 \<Rightarrow> s32 \<Rightarrow> (s32 \<rightharpoonup> fobj) \<Rightarrow> (s32 \<rightharpoonup> fobj) option" where
  "dup2 e old new t =
     (case if sint old < 0 then None else t old of
        None \<Rightarrow> None
      | Some x \<Rightarrow> if dup2_fails e new then None else Some (t(new \<mapsto> x)))"

text \<open>The three redirections, and the closing of the descriptor.\<close>

definition redirect_stdio :: "daemon_env \<Rightarrow> s32 \<Rightarrow> process \<Rightarrow> process \<times> s32" where
  "redirect_stdio e fd p =
     (case dup2 e fd 0 (fds p) of
        None \<Rightarrow> (p, - 1)
      | Some t0 \<Rightarrow>
          (case dup2 e fd 1 t0 of
             None \<Rightarrow> (p\<lparr>fds := t0\<rparr>, - 1)
           | Some t1 \<Rightarrow>
               (case dup2 e fd 2 t1 of
                  None \<Rightarrow> (p\<lparr>fds := t1\<rparr>, - 1)
                | Some t2 \<Rightarrow>
                    let p = p\<lparr>fds := t2(fd := None)\<rparr> in
                    if sint (devnull_close_ret e) < 0 then (p, - 1) else (p, 0))))"

text \<open>The result is \<open>None\<close> in the parent, which exits with status 0.\<close>

definition daemonize :: "daemon_env \<Rightarrow> process \<Rightarrow> process \<times> s32 option" where
  "daemonize e p =
     (if fork_ret e = - 1 then (p, Some (- 1))
      else if fork_ret e \<noteq> 0 then (p, None)
      else if sint (setsid_ret e) < 0 then (p, Some (- 1))
      else if sint (chdir_ret e) < 0 then (p, Some (- 1))
      else
        let fd = devnull_ret e;
            p = (if sint fd < 0 then p else p\<lparr>fds := (fds p)(fd \<mapsto> DevNull)\<rparr>);
            (p, ret) = redirect_stdio e fd p
        in (p, Some ret))"

section \<open>The start of the program\<close>

text \<open>The option \<open>-d\<close>: \<open>None\<close> stands for \<open>usage\<close> and \<open>exit(-1)\<close>. \<open>argv\<close> includes the program name.\<close>

definition daemon_option :: "byte list list \<Rightarrow> bool option" where
  "daemon_option argv =
     (if 2 < length argv then None
      else if length argv = 2 then (if argv ! 1 \<noteq> [45, 100] then None else Some True)
      else Some False)"

text \<open>
  The line \<open>usage\<close> prints, and what \<open>main\<close> prints to the standard output on the way to reading the
  option.
\<close>

definition usage :: string where
  "usage = ''aesdsocket: Usage: aesdsocket [-d]'' @ [CHR 0x0A]"

definition main_output :: "byte list list \<Rightarrow> string" where
  "main_output argv =
     (if 2 < length argv then usage
      else if length argv = 2 then (if argv ! 1 \<noteq> [45, 100] then usage else [])
      else [])"

record start_env =
  sigaction_term :: s32
  sigaction_int :: s32
  sock_calls :: sock_env
  daemon_calls :: daemon_env
  listen_fails :: bool
  getfl_ret :: s32
  setfl_ret :: s32
  mask_ret :: s32
  spawn_ret :: s32
  timer_id :: nat

text \<open>\<open>listen\<close> fails on a descriptor that is not a socket.\<close>

definition listen_sock :: "start_env \<Rightarrow> process \<Rightarrow> s32 \<Rightarrow> s32" where
  "listen_sock e p fd = (if fds p fd = Some Socket \<and> \<not> listen_fails e then 0 else - 1)"

datatype started = Exited s32 | Serving s32

text \<open>From \<open>listen\<close> to the creation of the timer thread; \<open>dev\<close> says whether \<open>USE_AESD_CHAR_DEVICE\<close> is defined.\<close>

definition start_serving :: "bool \<Rightarrow> start_env \<Rightarrow> process \<Rightarrow> s32 \<Rightarrow> process \<times> started" where
  "start_serving dev e p fd =
     (if sint (listen_sock e p fd) < 0 then (p, Exited (- 1))
      else if sint (getfl_ret e) < 0 then (p, Exited (- 1))
      else if sint (setfl_ret e) < 0 then (p, Exited (- 1))
      else
        let p = p\<lparr>nonblocking := insert fd (nonblocking p)\<rparr> in
        if dev then (p, Serving fd)
        else if sint (mask_ret e) < 0 then (p, Exited (- 1))
        else
          let p = p\<lparr>timer_thread := if spawn_ret e = 0 then Some (timer_id e) else None\<rparr> in
          if sint (spawn_ret e) < 0 then (p, Exited (- 1)) else (p, Serving fd))"

definition start_main :: "bool \<Rightarrow> start_env \<Rightarrow> byte list list \<Rightarrow> process \<Rightarrow> process \<times> started" where
  "start_main dev e argv p =
     (case daemon_option argv of
        None \<Rightarrow> (p, Exited (- 1))
      | Some daemon_mode \<Rightarrow>
          let (sigs, ret) = sig_setexit (sigaction_term e) SIGTERM (signals p);
              p = p\<lparr>signals := sigs\<rparr> in
          if sint ret < 0 then (p, Exited (- 1))
          else
            let (sigs, ret) = sig_setexit (sigaction_int e) SIGINT (signals p);
                p = p\<lparr>signals := sigs\<rparr> in
            if sint ret < 0 then (p, Exited (- 1))
            else
              let (p, sock_fd) = sock_create (sock_calls e) p in
              if sint sock_fd < 0 then (p, Exited (- 1))
              else if daemon_mode then
                (case daemonize (daemon_calls e) p of
                   (p, None) \<Rightarrow> (p, Exited 0)
                 | (p, Some ret) \<Rightarrow>
                     if sint ret < 0 then (p, Exited (- 1)) else start_serving dev e p sock_fd)
              else start_serving dev e p sock_fd)"

section \<open>The end of the program\<close>

text \<open>
  After the last connection has been joined. \<open>removed\<close> is whether \<open>remove\<close> succeeds; ending
  the timer thread uses the identifier \<open>pthread_create\<close> has stored. \<open>late\<close> says whether an exit
  signal is handled before the last test of \<open>sig_exit\<close>: one that is sent to the server, or the
  \<open>SIGTERM\<close> for the timer thread when it comes before that thread has blocked it.
\<close>

definition finish_main ::
  "bool \<Rightarrow> bool \<Rightarrow> bool \<Rightarrow> process \<Rightarrow> s32 \<Rightarrow> bool \<Rightarrow> (process \<times> s32) res" where
  "finish_main dev removed late p sock_fd aborted =
     (if \<not> dev \<and> timer_thread p = None then Inl Uninitialised
      else
        let p = (if late then p\<lparr>signals := exit_handler (signals p)\<rparr> else p);
            p = (if dev then p else p\<lparr>timer_thread := None,
                   file_exists := file_exists p \<and> \<not> removed\<rparr>);
            p = p\<lparr>fds := (fds p)(sock_fd := None)\<rparr>
        in Inr (p, if aborted \<and> \<not> sig_exit (signals p) then - 1 else 0))"

text \<open>
  The rounds of the accept loop, whether an exit signal has arrived by its end or after it, the
  exit values of the threads joined at the end, and the result of \<open>remove\<close>.
\<close>

record serve_env =
  rounds :: "accept_env list"
  exit_signal :: bool
  late_signal :: bool
  exit_values :: "addr \<Rightarrow> s32"
  remove_ok :: bool

text \<open>
  \<open>main\<close>; \<open>None\<close> also when the rounds end while the server would go on. The state at the end
  is that of the process and of the list of connections.
\<close>

definition server_main ::
  "bool \<Rightarrow> start_env \<Rightarrow> serve_env \<Rightarrow> nat \<Rightarrow> byte list list \<Rightarrow> process \<Rightarrow>
   (process \<times> acceptor \<times> s32) res option" where
  "server_main dev e r fuel argv p =
     (case start_main dev e argv p of
        (p, Exited status) \<Rightarrow> Some (Inr (p, acceptor_start, status))
      | (p, Serving sock_fd) \<Rightarrow>
          bindL (accept_loop (rounds r) fuel acceptor_start) (\<lambda>a.
          if \<not> abort a \<and> \<not> exit_signal r then None
          else
            let p = (if exit_signal r then p\<lparr>signals := exit_handler (signals p)\<rparr> else p) in
            bindL (join_all (exit_values r) fuel a) (\<lambda>a.
            Some (bindR (finish_main dev (remove_ok r) (late_signal r) p sock_fd (abort a)) (\<lambda>(p, status).
            Inr (p, a, status))))))"

section \<open>What the parts do\<close>

text \<open>The usage is printed exactly when \<open>main\<close> gives up on its arguments, before it does anything else.\<close>

lemma main_output_usage: "main_output argv = usage \<longleftrightarrow> daemon_option argv = None"
  by (auto simp: main_output_def daemon_option_def usage_def)

lemma usage_exits: "main_output argv = usage \<Longrightarrow> start_main dev e argv p = (p, Exited (- 1))"
  by (simp add: main_output_usage start_main_def)

text \<open>The success of \<open>sock_create\<close>; its failures leave what has been allocated.\<close>

lemma sock_create_cases:
  "sock_create e p =
    (let got = getaddrinfo_ret e = 0; made = got \<and> 0 \<le> sint (socket_ret e);
         fine = made \<and> 0 \<le> sint (setsockopt_ret e) \<and> 0 \<le> sint (bind_ret e) in
     (p\<lparr>addrinfos := addrinfos p + (if got \<and> \<not> fine then 1 else 0),
        fds := (if made then (fds p)(socket_ret e \<mapsto> Socket) else fds p)\<rparr>,
      if fine then socket_ret e else - 1))"
  by (auto simp: sock_create_def Let_def not_less)

lemma minus_one_negative: "sint (- 1 :: s32) < 0"
  by simp

lemma sock_create_ok:
  assumes "sock_create e p = (p', fd)" and "\<not> sint fd < 0"
  shows "p' = p\<lparr>fds := (fds p)(fd \<mapsto> Socket)\<rparr>" and "fd = socket_ret e"
  using assms by (auto simp: sock_create_cases Let_def split: if_splits)

lemma redirect_stdio_frame:
  assumes "redirect_stdio e fd p = (p', r)"
  shows "addrinfos p' = addrinfos p" and "signals p' = signals p" and "timer_thread p' = timer_thread p"
  using assms by (auto simp: redirect_stdio_def Let_def split: option.splits if_splits)

lemma daemonize_frame:
  assumes "daemonize e p = (p', r)"
  shows "addrinfos p' = addrinfos p" and "signals p' = signals p" and "timer_thread p' = timer_thread p"
  using assms by (auto simp: daemonize_def Let_def redirect_stdio_frame split: if_splits prod.splits)

lemma redirect_stdio_ok:
  assumes "redirect_stdio e fd p = (p', 0)" and "fds p fd = Some DevNull \<or> sint fd < 0"
  shows "fds p' = (fds p)(0 \<mapsto> DevNull, 1 \<mapsto> DevNull, 2 \<mapsto> DevNull, fd := None)"
  using assms by (auto simp: redirect_stdio_def dup2_def Let_def split: option.splits if_splits)

lemma start_serving_ok:
  assumes "start_serving dev e p fd = (p', Serving fd')"
  shows "fd' = fd \<and> fds p fd = Some Socket \<and> fds p' = fds p \<and> fd \<in> nonblocking p' \<and>
    addrinfos p' = addrinfos p \<and> signals p' = signals p \<and>
    timer_thread p' = (if dev then timer_thread p else if spawn_ret e = 0 then Some (timer_id e) else None)"
  using assms by (auto simp: start_serving_def listen_sock_def Let_def split: if_splits)

lemma start_serving_exit: "start_serving dev e p fd = (p', Exited c) \<Longrightarrow> c = - 1"
  by (auto simp: start_serving_def Let_def split: if_splits)

lemma sig_setexit_ok:
  "sig_setexit r signo s = (s', ret) \<Longrightarrow> \<not> sint ret < 0 \<Longrightarrow>
   s' = s\<lparr>exit_signals := insert signo (exit_signals s)\<rparr>"
  by (auto simp: sig_setexit_def split: if_splits)

lemma start_main_mid:
  assumes "start_main dev e argv p = (p', Serving fd)"
  obtains daemon_mode p1 p2 where "daemon_option argv = Some daemon_mode"
    "p1 = p\<lparr>signals := (signals p)\<lparr>exit_signals := {SIGINT, SIGTERM} \<union> exit_signals (signals p)\<rparr>,
       fds := (fds p)(fd \<mapsto> Socket)\<rparr>"
    "fd = socket_ret (sock_calls e)" "\<not> sint fd < 0"
    "if daemon_mode then \<exists>ret. daemonize (daemon_calls e) p1 = (p2, Some ret) \<and> \<not> sint ret < 0 else p2 = p1"
    "start_serving dev e p2 fd = (p', Serving fd)"
proof -
  obtain daemon_mode where d: "daemon_option argv = Some daemon_mode"
    using assms by (cases "daemon_option argv") (simp_all add: start_main_def)
  obtain s1 r1 where s1: "sig_setexit (sigaction_term e) SIGTERM (signals p) = (s1, r1)" by force
  obtain s2 r2 where s2: "sig_setexit (sigaction_int e) SIGINT s1 = (s2, r2)" by force
  obtain q sock where q: "sock_create (sock_calls e) (p\<lparr>signals := s2\<rparr>) = (q, sock)" by force
  have go: "\<not> sint r1 < 0" "\<not> sint r2 < 0" "\<not> sint sock < 0"
    using assms d s1 s2 q by (auto simp: start_main_def Let_def split: if_splits)
  have q': "q = p\<lparr>signals := s2, fds := (fds p)(sock \<mapsto> Socket)\<rparr>" "sock = socket_ret (sock_calls e)"
    using sock_create_ok [OF q go(3)] by simp_all
  have s2': "s2 = (signals p)\<lparr>exit_signals := {SIGINT, SIGTERM} \<union> exit_signals (signals p)\<rparr>"
    using sig_setexit_ok [OF s1 go(1)] sig_setexit_ok [OF s2 go(2)] by simp
  have rest: "(if daemon_mode then
      (case daemonize (daemon_calls e) q of
         (p, None) \<Rightarrow> (p, Exited 0)
       | (p, Some ret) \<Rightarrow> if sint ret < 0 then (p, Exited (- 1)) else start_serving dev e p sock)
      else start_serving dev e q sock) = (p', Serving fd)"
    using assms d s1 s2 q go by (simp add: start_main_def Let_def)
  then obtain q2 where q2: "if daemon_mode then \<exists>ret. daemonize (daemon_calls e) q = (q2, Some ret) \<and> \<not> sint ret < 0
      else q2 = q" "start_serving dev e q2 sock = (p', Serving fd)"
    by (auto split: if_splits prod.splits option.splits)
  then have "fd = sock" using start_serving_ok by blast
  with that [of daemon_mode q q2] d q' s2' go(3) q2 show ?thesis by simp
qed

lemma start_main_outcomes_signals:
  assumes "start_main dev e argv p = (p', Serving fd)"
  shows "sig_exit (signals p') = sig_exit (signals p)"
proof -
  obtain daemon_mode p1 p2 where "p1 = p\<lparr>signals := (signals p)\<lparr>exit_signals := {SIGINT, SIGTERM} \<union> exit_signals (signals p)\<rparr>,
      fds := (fds p)(fd \<mapsto> Socket)\<rparr>"
    and p2: "if daemon_mode then \<exists>ret. daemonize (daemon_calls e) p1 = (p2, Some ret) \<and> \<not> sint ret < 0
      else p2 = p1"
    and serve: "start_serving dev e p2 fd = (p', Serving fd)"
    using start_main_mid [OF assms] by blast
  then show ?thesis
    using start_serving_ok [OF serve] daemonize_frame(2) [of "daemon_calls e" p1 p2] by (auto split: if_splits)
qed

lemma start_main_exit:
  assumes "start_main dev e argv p = (p', Exited c)"
  shows "c = - 1 \<or> c = 0 \<and> daemon_option argv = Some True"
  using assms start_serving_exit
  by (auto simp: start_main_def Let_def split: option.splits prod.splits if_splits)

lemma daemonize_ok:
  assumes "daemonize e p = (p', Some ret)" and "\<not> sint ret < 0"
  shows "fds p' = (fds p)(0 \<mapsto> DevNull, 1 \<mapsto> DevNull, 2 \<mapsto> DevNull, devnull_ret e := None)"
proof -
  let ?fd = "devnull_ret e"
  have ret: "redirect_stdio e fd q = (p', ret) \<Longrightarrow> ret = 0" for fd q
    using assms(2) by (auto simp: redirect_stdio_def Let_def split: option.splits if_splits)
  let ?q = "if sint ?fd < 0 then p else p\<lparr>fds := (fds p)(?fd \<mapsto> DevNull)\<rparr>"
  have "fork_ret e \<noteq> - 1"
  proof
    assume "fork_ret e = - 1"
    then have "ret = - 1" using assms(1) by (simp add: daemonize_def)
    then show False using assms(2) by simp
  qed
  then have run: "redirect_stdio e ?fd ?q = (p', ret)"
    using assms by (auto simp: daemonize_def Let_def split: if_splits prod.splits)
  have "fds ?q ?fd = Some DevNull \<or> sint ?fd < 0" by simp
  from redirect_stdio_ok [OF _ this] run ret [OF run]
  have "fds p' = (fds ?q)(0 \<mapsto> DevNull, 1 \<mapsto> DevNull, 2 \<mapsto> DevNull, ?fd := None)" by simp
  then show ?thesis by (auto simp: fun_eq_iff)
qed


section \<open>Properties\<close>

text \<open>
  C36: The start of the server. \<open>main\<close> exits with status \<open>-1\<close>, or with 0 in the parent process of
  a daemon, or it serves on the socket of \<open>sock_create\<close>: then the options were right, the
  descriptor refers to the socket and does not block, \<open>SIGINT\<close> and \<open>SIGTERM\<close> set \<open>sig_exit\<close>,
  and the address list has been freed. The identifier of the timer thread, in the build that
  has one, may not have been set: a failing \<open>pthread_create\<close> goes unnoticed.
\<close>

theorem start_main_outcomes:
  "case start_main dev e argv p of
      (p', Exited c) \<Rightarrow> c = - 1 \<or> c = 0 \<and> daemon_option argv = Some True
    | (p', Serving fd) \<Rightarrow>
        daemon_option argv \<noteq> None \<and> fd = socket_ret (sock_calls e) \<and> fds p' fd = Some Socket \<and>
        fd \<in> nonblocking p' \<and> {SIGINT, SIGTERM} \<subseteq> exit_signals (signals p') \<and>
        sig_exit (signals p') = sig_exit (signals p) \<and> addrinfos p' = addrinfos p \<and>
        timer_thread p' = (if dev then timer_thread p else if spawn_ret e = 0 then Some (timer_id e) else None)"
proof -
  obtain p' r where run: "start_main dev e argv p = (p', r)" by force
  show ?thesis
  proof (cases r)
    case (Exited c)
    then show ?thesis using start_main_exit run by simp
  next
    case (Serving fd)
    obtain daemon_mode p1 p2 where d: "daemon_option argv = Some daemon_mode"
      and p1: "p1 = p\<lparr>signals := (signals p)\<lparr>exit_signals := {SIGINT, SIGTERM} \<union> exit_signals (signals p)\<rparr>,
        fds := (fds p)(fd \<mapsto> Socket)\<rparr>" "fd = socket_ret (sock_calls e)"
      and p2: "if daemon_mode then \<exists>ret. daemonize (daemon_calls e) p1 = (p2, Some ret) \<and> \<not> sint ret < 0
        else p2 = p1"
      and serve: "start_serving dev e p2 fd = (p', Serving fd)"
      using start_main_mid [OF run [unfolded Serving]] by blast
    have "addrinfos p2 = addrinfos p1 \<and> signals p2 = signals p1 \<and> timer_thread p2 = timer_thread p1"
      using p2 daemonize_frame by (auto split: if_splits)
    then show ?thesis
      using start_serving_ok [OF serve] d p1(2) unfolding run Serving p1(1) by simp
  qed
qed

text \<open>
  A daemon needs its standard streams. When one of the descriptors 0, 1 and 2 is closed as
  the program is started, \<open>socket\<close> returns it, and \<open>daemonize\<close> then redirects it to
  \<open>/dev/null\<close>: the daemon never gets to serve.
\<close>

theorem daemon_loses_socket:
  assumes "daemon_option argv = Some True" and "socket_ret (sock_calls e) \<in> {0, 1, 2}"
  shows "\<exists>p' c. start_main dev e argv p = (p', Exited c) \<and> (c = 0 \<or> c = - 1)"
proof -
  obtain p' r where run: "start_main dev e argv p = (p', r)" by force
  show ?thesis
  proof (cases r)
    case (Exited c)
    then show ?thesis using start_main_exit [OF run [unfolded Exited]] run by blast
  next
    case (Serving fd)
    obtain daemon_mode p1 p2 where d: "daemon_option argv = Some daemon_mode"
      and fd: "fd = socket_ret (sock_calls e)"
      and p2: "if daemon_mode then \<exists>ret. daemonize (daemon_calls e) p1 = (p2, Some ret) \<and> \<not> sint ret < 0
        else p2 = p1"
      and serve: "start_serving dev e p2 fd = (p', Serving fd)"
      using start_main_mid [OF run [unfolded Serving]] by blast
    from d p2 assms(1) obtain ret where "daemonize (daemon_calls e) p1 = (p2, Some ret)" "\<not> sint ret < 0"
      by auto
    from daemonize_ok [OF this] have "fds p2 fd \<noteq> Some Socket"
      using fd assms(2) by auto
    then show ?thesis using start_serving_ok [OF serve] by blast
  qed
qed

text \<open>
  The bounds of \<open>sock_gethost\<close>. Its buffer has the 16 bytes of an IPv4 address; for a socket
  with a longer address, such as the 28 bytes of IPv6, \<open>getnameinfo\<close> is told to read beyond
  it. Otherwise the function returns 0 with a name that fits into \<open>host\<close>, or \<open>-1\<close>.
\<close>

theorem sock_gethost_bounds:
  assumes "0 \<le> sint (getsockname_ret e)"
  shows "case sock_gethost e hostlen of
      Inl f \<Rightarrow> f = OutOfBounds \<and> 16 < length (sock_address e)
    | Inr (ret, host) \<Rightarrow> length (sock_address e) \<le> 16 \<and>
        (case host of
           None \<Rightarrow> ret = - 1
         | Some h \<Rightarrow> ret = 0 \<and> length h \<le> hostlen \<and>
             (\<exists>name. host_name e (sock_address e) = Some name \<and> h = name @ [nul]))"
  using assms by (auto simp: sock_gethost_def Let_def not_less split: option.split)

text \<open>
  C22: The end of the server. When \<open>main\<close> returns after it has served, the threads of all
  connections that were in the list at the end of the accept loop have been joined, in order,
  their entries are freed and no other entry is, the socket is closed, the temporary file is
  gone if it could be removed, and the exit status is \<open>-1\<close> exactly when no exit signal has been
  handled and a thread that was joined, now or in the accept loop, has exited with a negative
  value, or \<open>accept\<close> has failed. (A connection that was lost from the list is not joined, see
  \<open>accept_after_last_joined\<close>; that \<open>pthread_create\<close> returns a negative number does not happen.)
\<close>

theorem server_main_status:
  assumes "start_main dev e argv p = (p1, Serving sock_fd)" and "\<not> sig_exit (signals p)"
    and "server_main dev e r fuel argv p = Some (Inr (p', a, status))"
  shows "(\<exists>a1 xs. accept_loop (rounds r) fuel acceptor_start = Some (Inr a1) \<and>
      linked (entries a1) (head a1) xs \<and> joined a = joined a1 @ joins (entries a1) (exit_values r) xs \<and>
      head a = None \<and> (\<forall>x. entries a x = (if x \<in> set xs then None else entries a1 x))) \<and>
    fds p' sock_fd = None \<and> (\<not> dev \<and> remove_ok r \<longrightarrow> \<not> file_exists p') \<and>
    (status = 0 \<or> status = - 1) \<and>
    (status = - 1 \<longleftrightarrow> \<not> exit_signal r \<and> \<not> late_signal r \<and>
       ((\<exists>(t, v) \<in> set (joined a). sint v < 0) \<or> (\<exists>e \<in> set (rounds r). round_failed e)))"
proof -
  have quiet: "\<not> sig_exit (signals p1)"
    using start_main_outcomes_signals [OF assms(1)] assms(2) by simp
  obtain a1 where a1: "accept_loop (rounds r) fuel acceptor_start = Some (Inr a1)"
    and a: "join_all (exit_values r) fuel a1 = Some (Inr a)"
    and fin: "finish_main dev (remove_ok r) (late_signal r)
      (if exit_signal r then p1\<lparr>signals := exit_handler (signals p1)\<rparr> else p1) sock_fd (abort a) = Inr (p', status)"
    using assms(1,3)
    by (auto simp: server_main_def bindL_eq_Some_Inr bindR_eq_Inr Let_def split: if_splits)
  have "abort_told False acceptor_start" by (simp add: abort_told_def acceptor_start_def)
  from accept_loop_told [OF this a1]
  have told1: "abort_told (\<exists>e \<in> set (rounds r). round_failed e) a1" by simp
  obtain xs where xs: "linked (entries a1) (head a1) xs" "joined a = joined a1 @ joins (entries a1) (exit_values r) xs"
    "head a = None" "\<forall>x. entries a x = (if x \<in> set xs then None else entries a1 x)"
    and told: "abort_told (\<exists>e \<in> set (rounds r). round_failed e) a"
    using join_all_list [OF a, of "\<exists>e \<in> set (rounds r). round_failed e"] told1 by blast
  have "abort a \<longleftrightarrow> (\<exists>(t, v) \<in> set (joined a). sint v < 0) \<or> (\<exists>e \<in> set (rounds r). round_failed e)"
    using told by (auto simp: abort_told_def failed_join_def)
  moreover have "fds p' sock_fd = None" "\<not> dev \<and> remove_ok r \<longrightarrow> \<not> file_exists p'"
    "status = 0 \<or> status = - 1" "status = - 1 \<longleftrightarrow> \<not> exit_signal r \<and> \<not> late_signal r \<and> abort a"
    using fin quiet by (auto simp: finish_main_def exit_handler_def Let_def split: if_splits)
  ultimately show ?thesis using a1 xs by blast
qed

section \<open>Witnesses\<close>

text \<open>
  A server started with its standard streams, or with the standard input closed so that the
  socket gets the descriptor 0.
\<close>

definition process_example :: process where
  "process_example =
     \<lparr>fds = (\<lambda>_. None)(0 \<mapsto> OtherFile, 1 \<mapsto> OtherFile, 2 \<mapsto> OtherFile), nonblocking = {},
      addrinfos = 0, signals = \<lparr>exit_signals = {}, sig_exit = False\<rparr>, timer_thread = None,
      file_exists = True\<rparr>"

definition start_env_example :: "s32 \<Rightarrow> start_env" where
  "start_env_example sock =
     \<lparr>sigaction_term = 0, sigaction_int = 0,
      sock_calls = \<lparr>getaddrinfo_ret = 0, socket_ret = sock, setsockopt_ret = 0, bind_ret = 0\<rparr>,
      daemon_calls = \<lparr>fork_ret = 0, setsid_ret = 0, chdir_ret = 0, devnull_ret = 4,
        dup2_fails = (\<lambda>_. False), devnull_close_ret = 0\<rparr>,
      listen_fails = False, getfl_ret = 0, setfl_ret = 0, mask_ret = 0, spawn_ret = 0, timer_id = 9\<rparr>"

definition serve_env_example :: serve_env where
  "serve_env_example =
     \<lparr>rounds = [], exit_signal = True, late_signal = False, exit_values = (\<lambda>_. 0), remove_ok = True\<rparr>"

lemma start_example:
  "\<exists>p. start_main False (start_env_example 3) [[97], [45, 100]] process_example = (p, Serving 3) \<and>
     timer_thread p = Some 9 \<and> sig_exit (signals p) = False"
  by (simp add: start_main_def daemon_option_def sig_setexit_def sock_create_def daemonize_def
      redirect_stdio_def dup2_def start_serving_def listen_sock_def start_env_example_def process_example_def)

theorem daemon_loses_socket_witness:
  "\<exists>p c. start_main False (start_env_example 0) [[97], [45, 100]] process_example = (p, Exited c)"
proof -
  have "daemon_option [[97], [45, 100]] = Some True" by (simp add: daemon_option_def)
  moreover have "socket_ret (sock_calls (start_env_example 0)) \<in> {0, 1, 2}"
    by (simp add: start_env_example_def)
  ultimately show ?thesis using daemon_loses_socket by blast
qed

definition host_env_example :: "nat \<Rightarrow> host_env" where
  "host_env_example n =
     \<lparr>getsockname_ret = 0, sock_address = replicate n 0, host_name = (\<lambda>_. Some [49])\<rparr>"

theorem sock_gethost_bounds_witness:
  "sock_gethost (host_env_example 28) 64 = Inl OutOfBounds \<and>
   (\<exists>h. sock_gethost (host_env_example 16) 64 = Inr (0, Some h) \<and> length h \<le> 64)"
  using sock_gethost_bounds [of "host_env_example 28" 64] sock_gethost_bounds [of "host_env_example 16" 64]
  by (simp add: sock_gethost_def host_env_example_def)

theorem server_main_status_witness:
  "\<exists>p a. server_main False (start_env_example 3)
       (serve_env_example\<lparr>rounds := [client_env 3], exit_signal := False, exit_values := \<lambda>_. - 1\<rparr>)
       5 [[97], [45, 100]] process_example = None \<and>
     server_main False (start_env_example 3)
       (serve_env_example\<lparr>rounds := [client_env 3], exit_values := \<lambda>_. - 1\<rparr>)
       5 [[97], [45, 100]] process_example = Some (Inr (p, a, 0)) \<and>
     joined a = [(0, - 1)] \<and> \<not> file_exists p \<and> fds p 3 = None"
proof -
  let ?r = "serve_env_example\<lparr>rounds := [client_env 3], exit_values := \<lambda>_. - 1\<rparr>"
  obtain p1 where p1: "start_main False (start_env_example 3) [[97], [45, 100]] process_example = (p1, Serving 3)"
      "timer_thread p1 = Some 9" "sig_exit (signals p1) = False"
    using start_example by blast
  obtain a1 where a1: "accept_loop [client_env 3] 5 acceptor_start = Some (Inr a1)"
    "entries a1 = [3 \<mapsto> \<lparr>descriptor = 7, is_active = True, thread = Some 0, next_entry = None\<rparr>]"
    "head a1 = Some 3" "joined a1 = []" "abort a1 = False"
    by (auto simp: acceptor_start_def accept_step_def new_connection_def set_next_def entry_at_def
        client_env_def quiet_env_def eval_nat_numeral)
  obtain p a where run: "server_main False (start_env_example 3) ?r 5 [[97], [45, 100]] process_example =
      Some (Inr (p, a, 0))"
    using p1 a1 by (simp add: server_main_def serve_env_example_def finish_main_def exit_handler_def
        entry_at_def join_entry_def eval_nat_numeral)
  have off: "server_main False (start_env_example 3)
      (serve_env_example\<lparr>rounds := [client_env 3], exit_signal := False, exit_values := \<lambda>_. - 1\<rparr>)
      5 [[97], [45, 100]] process_example = None"
    using p1 a1 by (simp add: server_main_def serve_env_example_def)
  have "\<not> sig_exit (signals process_example)" by (simp add: process_example_def)
  from server_main_status [OF p1(1) this run] obtain xs where xs: "linked (entries a1) (head a1) xs"
    "joined a = joins (entries a1) (\<lambda>_. - 1) xs" "fds p 3 = None" "\<not> file_exists p"
    using a1(1,4) by (auto simp: serve_env_example_def)
  have "linked (entries a1) (head a1) [3]" by (simp add: a1 linked_def)
  then have "xs = [3]" using xs(1) linked_unique by blast
  then have "joined a = [(0, - 1)]" using xs(2) by (simp add: a1(2) entry_thread_def)
  then show ?thesis using run off xs(3,4) by auto
qed

end
