(* ===== verification/ConnectionThread.thy ===== *)
theory ConnectionThread
  imports ServerMain ConnectionRun
begin

text \<open>
  The whole of \<open>conn_handler\<close> (\<open>server/src/connection.c\<close>): before the part theory Connection models,
  the thread asks for the name of the peer, which its log messages use.
\<close>

section \<open>Model\<close>





section \<open>Properties\<close>



end
