(* ===== verification/SystemCalls.thy ===== *)
theory SystemCalls
  imports Prelude
begin

text \<open>
  \<open>examples/systemcalls/systemcalls.c\<close>: running a command with \<open>system\<close>, or with \<open>fork\<close>, \<open>execv\<close>
  and \<open>waitpid\<close>, and telling from the wait status whether it succeeded.
\<close>

unbundle bit_operations_syntax

section \<open>Processes\<close>

text \<open>
  How a process ends, and the status \<open>waitpid\<close> stores for it on Linux: the exit code in bits 8
  to 15, or the number of the signal in bits 0 to 6, with bit 7 for a core dump. \<open>WEXITSTATUS\<close>
  is the macro of \<open>sys/wait.h\<close>.
\<close>

datatype proc_end = Exited u8 | Killed u8

definition wait_status :: "proc_end \<Rightarrow> s32" where
  "wait_status r = (case r of Exited c \<Rightarrow> push_bit 8 (ucast c) | Killed sig \<Rightarrow> ucast sig)"

definition WEXITSTATUS :: "s32 \<Rightarrow> s32" where
  "WEXITSTATUS s = drop_bit 8 (s AND 0xff00)"

text \<open>
  What the system calls do: \<open>execv\<close> of an argument vector fails (\<open>None\<close>) or turns the process
  into a program that ends in the given way; \<open>fork_ok\<close>, \<open>waitpid_ok\<close>, \<open>open_ok\<close> and \<open>dup2_ok\<close>
  say whether the calls succeed. \<open>system_ret\<close> is the result of \<open>system\<close> for a command: \<open>-1\<close> or
  the status of the shell.
\<close>

record exec_env =
  execv :: "byte list list \<Rightarrow> proc_end option"
  fork_ok :: bool
  waitpid_ok :: bool
  open_ok :: "byte list \<Rightarrow> bool"
  dup2_ok :: bool
  system_ret :: "byte list \<Rightarrow> s32"

section \<open>Model\<close>

definition do_system :: "exec_env \<Rightarrow> byte list \<Rightarrow> bool" where
  "do_system e cmd =
     (let ret = system_ret e cmd in
      if ret = - 1 then False
      else
        let status = WEXITSTATUS ret in
        if status = 127 then False else if status \<noteq> 0 then False else True)"

text \<open>
  The loop that copies \<open>count\<close> variable arguments into the vector \<open>command\<close>. Taking an argument
  that was not passed is undefined.
\<close>

primrec copy_args :: "nat \<Rightarrow> byte list list \<Rightarrow> byte list list \<Rightarrow> byte list list res" where
  "copy_args 0 args command = Inr command"
| "copy_args (Suc n) args command =
     (case args of [] \<Rightarrow> Inl Uninitialised | a # rest \<Rightarrow> copy_args n rest (command @ [a]))"

text \<open>The child process of \<open>do_exec\<close>: the \<open>case 0\<close> of the \<open>switch\<close>.\<close>

definition exec_child :: "exec_env \<Rightarrow> byte list list \<Rightarrow> proc_end" where
  "exec_child e command = (case execv e command of None \<Rightarrow> Exited 127 | Some r \<Rightarrow> r)"

definition exec_verdict :: "s32 \<Rightarrow> bool" where
  "exec_verdict status =
     (let exit_status = WEXITSTATUS status in
      if exit_status = 127 then False else if exit_status \<noteq> 0 then False else True)"

definition do_exec :: "exec_env \<Rightarrow> nat \<Rightarrow> byte list list \<Rightarrow> bool res" where
  "do_exec e count args =
     bindR (copy_args count args []) (\<lambda>command.
     if \<not> fork_ok e then Inr False
     else if \<not> waitpid_ok e then Inr False
     else Inr (exec_verdict (wait_status (exec_child e command))))"

definition redirect_child :: "exec_env \<Rightarrow> byte list list \<Rightarrow> proc_end" where
  "redirect_child e command =
     (if \<not> dup2_ok e then Exited 126
      else case execv e command of None \<Rightarrow> Exited 127 | Some r \<Rightarrow> r)"

definition redirect_verdict :: "s32 \<Rightarrow> bool" where
  "redirect_verdict status =
     (let exit_status = WEXITSTATUS status in
      if exit_status = 126 \<or> exit_status = 127 then False
      else if exit_status \<noteq> 0 then False else True)"

text \<open>The result, and whether the parent still has the output file open when it returns.\<close>

definition do_exec_redirect ::
  "exec_env \<Rightarrow> byte list \<Rightarrow> nat \<Rightarrow> byte list list \<Rightarrow> (bool \<times> bool) res" where
  "do_exec_redirect e outputfile count args =
     bindR (copy_args count args []) (\<lambda>command.
     if \<not> open_ok e outputfile then Inr (False, False)
     else if \<not> fork_ok e then Inr (False, True)
     else if \<not> waitpid_ok e then Inr (False, False)
     else Inr (redirect_verdict (wait_status (redirect_child e command)), False))"

section \<open>The verdict on a status\<close>

lemma WEXITSTATUS_exited: "WEXITSTATUS (wait_status (Exited c)) = ucast c"
proof -
  have mask: "(0xff00 :: s32) = push_bit 8 (mask 8)" by (simp add: mask_eq_exp_minus_1 push_bit_eq_mult)
  show ?thesis
    unfolding WEXITSTATUS_def wait_status_def proc_end.case mask
    by (rule bit_word_eqI) (auto simp: bit_simps dest: bit_imp_le_length)
qed

lemma WEXITSTATUS_killed: "WEXITSTATUS (wait_status (Killed sig)) = 0"
proof -
  have mask: "(0xff00 :: s32) = push_bit 8 (mask 8)" by (simp add: mask_eq_exp_minus_1 push_bit_eq_mult)
  show ?thesis
    unfolding WEXITSTATUS_def wait_status_def proc_end.case mask
    by (rule bit_word_eqI) (auto simp: bit_simps dest: bit_imp_le_length)
qed

locale status_verdict =
  fixes verdict :: "s32 \<Rightarrow> bool"
  assumes verdict: "verdict s \<longleftrightarrow> WEXITSTATUS s = 0"
begin

lemma ucast_zero: "(ucast (c :: u8) :: s32) = 0 \<longleftrightarrow> c = 0"
  by transfer simp

lemma verdict_end: "verdict (wait_status r) \<longleftrightarrow> r = Exited 0 \<or> (\<exists>sig. r = Killed sig)"
  by (cases r) (simp_all add: verdict WEXITSTATUS_exited WEXITSTATUS_killed ucast_zero)

end

interpretation ex: status_verdict exec_verdict
  by unfold_locales (auto simp: exec_verdict_def Let_def)

interpretation rd: status_verdict redirect_verdict
  by unfold_locales (auto simp: redirect_verdict_def Let_def)

lemma copy_args_eq:
  "copy_args n args acc = (if n \<le> length args then Inr (acc @ take n args) else Inl Uninitialised)"
proof (induction n arbitrary: args acc)
  case (Suc n)
  then show ?case by (cases args) auto
qed simp

section \<open>Properties\<close>

text \<open>How a command ended as far as the result can tell: with exit code 0, or by a signal.\<close>

definition ended_well :: "proc_end \<Rightarrow> bool" where
  "ended_well r \<longleftrightarrow> r = Exited 0 \<or> (\<exists>sig. r = Killed sig)"

lemma do_system_eq:
  "do_system e cmd \<longleftrightarrow> system_ret e cmd \<noteq> - 1 \<and> exec_verdict (system_ret e cmd)"
  by (simp add: do_system_def exec_verdict_def Let_def)

text \<open>
  What the results of \<open>do_system\<close> and \<open>do_exec\<close> say. With as many arguments as announced, both
  are false when a call fails, when the program cannot be executed and when it exits with a
  code other than 0. They are true when it exits with 0, but also when it was killed by a
  signal, since \<open>WEXITSTATUS\<close> is used without \<open>WIFEXITED\<close>.
\<close>

theorem exec_verdicts:
  assumes "count \<le> length args" and "system_ret e cmd = - 1 \<or> system_ret e cmd = wait_status r"
  shows "do_exec e count args = Inr (fork_ok e \<and> waitpid_ok e \<and>
      (case execv e (take count args) of None \<Rightarrow> False | Some p \<Rightarrow> ended_well p)) \<and>
    (do_system e cmd \<longleftrightarrow> system_ret e cmd \<noteq> - 1 \<and> ended_well r)"
proof -
  have "do_system e cmd \<longleftrightarrow> system_ret e cmd \<noteq> - 1 \<and> ended_well r"
    using assms(2) by (auto simp: do_system_eq ex.verdict_end ended_well_def)
  then show ?thesis
    using assms(1)
    by (simp add: do_exec_def copy_args_eq exec_child_def ex.verdict_end ended_well_def
        split: option.splits)
qed

text \<open>A machine whose only program is killed by the signal 9.\<close>

definition killed_env :: exec_env where
  "killed_env =
     \<lparr>execv = (\<lambda>command. if command = [[47, 107]] then Some (Killed 9) else None),
      fork_ok = True, waitpid_ok = True, open_ok = (\<lambda>_. True), dup2_ok = True,
      system_ret = (\<lambda>_. 9)\<rparr>"

theorem exec_verdicts_witness:
  "do_exec killed_env 1 [[47, 107]] = Inr True \<and> do_exec killed_env 1 [[47, 120]] = Inr False \<and>
   do_system killed_env [107]"
proof -
  have "system_ret killed_env [107] = wait_status (Killed 9)"
    by (simp add: killed_env_def wait_status_def)
  then show ?thesis
    using exec_verdicts [of 1 "[[47, 107]]" killed_env "[107]" "Killed 9"]
      exec_verdicts [of 1 "[[47, 120]]" killed_env "[107]" "Killed 9"]
    by (simp add: killed_env_def ended_well_def)
qed

text \<open>
  C24: \<open>do_exec_redirect\<close> is \<open>do_exec\<close> when the output file can be opened and connected to the
  standard output of the child; otherwise its result is false. It closes the output file
  except when \<open>fork\<close> fails: then it returns with the file open.
\<close>

theorem redirect_equivalent:
  assumes "count \<le> length args"
  shows "if open_ok e outputfile \<and> dup2_ok e
    then \<exists>r. do_exec e count args = Inr r \<and>
      do_exec_redirect e outputfile count args = Inr (r, \<not> fork_ok e)
    else do_exec_redirect e outputfile count args =
      Inr (False, open_ok e outputfile \<and> \<not> fork_ok e)"
proof -
  have "exec_verdict s = redirect_verdict s" for s by (simp add: ex.verdict rd.verdict)
  moreover have "\<not> redirect_verdict (wait_status (Exited 126))" by (simp add: rd.verdict_end)
  ultimately show ?thesis
    using assms by (auto simp: do_exec_def do_exec_redirect_def copy_args_eq redirect_child_def
        exec_child_def)
qed

theorem redirect_equivalent_witness:
  "do_exec_redirect killed_env [111] 1 [[47, 107]] = Inr (True, False) \<and>
   do_exec_redirect (killed_env\<lparr>fork_ok := False\<rparr>) [111] 1 [[47, 107]] = Inr (False, True)"
  using redirect_equivalent [of 1 "[[47, 107]]" killed_env "[111]"]
    redirect_equivalent [of 1 "[[47, 107]]" "killed_env\<lparr>fork_ok := False\<rparr>" "[111]"]
  by (auto simp: killed_env_def do_exec_def copy_args_eq exec_child_def ex.verdict_end)

end
