(* ===== verification/Threading.thy ===== *)
theory Threading
  imports Memory
begin

unbundle bit_operations_syntax

text \<open>
  \<open>examples/threading/threading.c\<close>: threads that sleep, take a mutex, sleep while they hold it
  and release it, and the function that starts one.
\<close>

section \<open>Starting a thread\<close>

text \<open>
  \<open>struct thread_data\<close> as LP64 lays it out: a pointer at offset 0, the two \<open>int\<close> members at 8
  and 12, the \<open>bool\<close> at 16, and 24 bytes with the padding. The members are stored one after
  the other; \<open>le_bytes n w\<close> are the low \<open>n\<close> bytes of a word, the least significant first.
\<close>

primrec le_bytes :: "nat \<Rightarrow> 64 word \<Rightarrow> byte list" where
  "le_bytes 0 w = []"
| "le_bytes (Suc n) w = ucast w # le_bytes n (drop_bit 8 w)"

definition sizeof_thread_data :: nat where "sizeof_thread_data = 24"

definition sizeof_pointer :: size_t where "sizeof_pointer = 8"

record start_env =
  malloc_data :: "heap \<Rightarrow> size_t \<Rightarrow> (addr \<times> byte list) option"
  pthread_create :: s32

text \<open>
  \<open>start_thread_obtaining_mutex\<close>: the heap, the result, and the argument the new thread was
  given. The block is allocated with the size of a pointer to the struct.
\<close>

definition start_thread_obtaining_mutex ::
  "start_env \<Rightarrow> heap \<Rightarrow> 64 word \<Rightarrow> s32 \<Rightarrow> s32 \<Rightarrow> (heap \<times> bool \<times> addr option) res" where
  "start_thread_obtaining_mutex e h mutex obtain_ms release_ms =
     (let (h1, args) = (case malloc_data e h sizeof_pointer of
          None \<Rightarrow> (h, None) | Some (a, blk) \<Rightarrow> (h(a \<mapsto> blk), Some a)) in
      bindR (store h1 args 0 (le_bytes 8 mutex)) (\<lambda>h2.
      bindR (store h2 args 8 (le_bytes 4 (ucast obtain_ms))) (\<lambda>h3.
      bindR (store h3 args 12 (le_bytes 4 (ucast release_ms))) (\<lambda>h4.
      bindR (store h4 args 16 [0]) (\<lambda>h5.
      if pthread_create e \<noteq> 0
      then bindR (free_block h5 args) (\<lambda>h6. Inr (h6, False, None))
      else Inr (h5, True, args))))))"

section \<open>The thread function\<close>

text \<open>
  The members as \<open>threadfunc\<close> reads them through its parameter.
\<close>

record thread_data =
  wait_to_obtain_ms :: s32
  wait_to_release_ms :: s32
  thread_complete_success :: bool

primrec of_le_bytes :: "byte list \<Rightarrow> 64 word" where
  "of_le_bytes [] = 0"
| "of_le_bytes (b # bs) = push_bit 8 (of_le_bytes bs) OR ucast b"

definition load_le :: "heap \<Rightarrow> addr option \<Rightarrow> nat \<Rightarrow> nat \<Rightarrow> 64 word res" where
  "load_le h p off n = bindR (load h p off n) (\<lambda>bs. Inr (of_le_bytes bs))"

definition thread_args :: "heap \<Rightarrow> addr option \<Rightarrow> (64 word \<times> thread_data) res" where
  "thread_args h p =
     bindR (load_le h p 0 8) (\<lambda>m.
     bindR (load_le h p 8 4) (\<lambda>a.
     bindR (load_le h p 12 4) (\<lambda>b.
     bindR (load_le h p 16 1) (\<lambda>c.
       Inr (m, \<lparr>wait_to_obtain_ms = ucast a, wait_to_release_ms = ucast b,
         thread_complete_success = (c \<noteq> 0)\<rparr>)))))"

text \<open>
  The sleeping times are converted to nanoseconds in \<open>int\<close> arithmetic, whose overflow is
  undefined. \<open>nanosleep_ret\<close> relates a valid request to the results \<open>nanosleep\<close> may have: 0, or
  \<open>-1\<close> if a signal may interrupt it; a request outside 0 to 999999999 is refused.
\<close>

definition ms_to_ns :: "s32 \<Rightarrow> s32 res" where
  "ms_to_ns ms =
     (let p = sint ms * 1000000
      in if - (2 ^ 31) \<le> p \<and> p < 2 ^ 31 then Inr (of_int p) else Inl SignedOverflow)"

definition nanosleep_ret :: "bool \<Rightarrow> s32 \<Rightarrow> s32 \<Rightarrow> bool" where
  "nanosleep_ret signals ns ret \<longleftrightarrow>
     (if 0 \<le> sint ns \<and> sint ns < 1000000000 then ret = 0 \<or> signals \<and> ret = - 1 else ret = - 1)"

text \<open>
  The places between the calls of \<open>threadfunc\<close>: before the declarations, at the first
  \<open>nanosleep\<close>, at \<open>pthread_mutex_lock\<close>, at the second \<open>nanosleep\<close>, at \<open>pthread_mutex_unlock\<close>, and
  after a \<open>return\<close>; \<open>Undefined\<close> is a thread that met undefined behaviour.
\<close>

datatype tpc = Entry | Sleeping | Locking | Working | Unlocking | Returned | Undefined

text \<open>
  Threads that share a mutex: \<open>owner\<close> is the thread that holds it, \<open>mutex_ok\<close> whether it is
  initialised, \<open>signals\<close> whether signals may arrive.
\<close>

record threads =
  pcs :: "nat \<Rightarrow> tpc"
  tdata :: "nat \<Rightarrow> thread_data"
  owner :: "nat option"
  mutex_ok :: bool
  signals :: bool

definition goto :: "nat \<Rightarrow> tpc \<Rightarrow> threads \<Rightarrow> threads" where
  "goto i pc s = s\<lparr>pcs := (pcs s)(i := pc)\<rparr>"

inductive thread_step :: "nat \<Rightarrow> threads \<Rightarrow> threads \<Rightarrow> bool" where
  t_enter: "pcs s i = Entry \<Longrightarrow>
    ms_to_ns (wait_to_obtain_ms (tdata s i)) = Inr a \<Longrightarrow>
    ms_to_ns (wait_to_release_ms (tdata s i)) = Inr b \<Longrightarrow>
    thread_step i s (goto i Sleeping s)"
| t_overflow: "pcs s i = Entry \<Longrightarrow>
    ms_to_ns (wait_to_obtain_ms (tdata s i)) = Inl f \<or>
    ms_to_ns (wait_to_release_ms (tdata s i)) = Inl f \<Longrightarrow>
    thread_step i s (goto i Undefined s)"
| t_sleep: "pcs s i = Sleeping \<Longrightarrow> ms_to_ns (wait_to_obtain_ms (tdata s i)) = Inr ns \<Longrightarrow>
    nanosleep_ret (signals s) ns ret \<Longrightarrow>
    thread_step i s (goto i (if ret \<noteq> 0 then Returned else Locking) s)"
| t_lock: "pcs s i = Locking \<Longrightarrow> mutex_ok s \<Longrightarrow> owner s = None \<Longrightarrow>
    thread_step i s (goto i Working (s\<lparr>owner := Some i\<rparr>))"
| t_lock_error: "pcs s i = Locking \<Longrightarrow> \<not> mutex_ok s \<Longrightarrow> thread_step i s (goto i Returned s)"
| t_work: "pcs s i = Working \<Longrightarrow> ms_to_ns (wait_to_release_ms (tdata s i)) = Inr ns \<Longrightarrow>
    nanosleep_ret (signals s) ns ret \<Longrightarrow>
    thread_step i s (goto i (if ret \<noteq> 0 then Returned else Unlocking) s)"
| t_unlock: "pcs s i = Unlocking \<Longrightarrow> mutex_ok s \<Longrightarrow>
    thread_step i s (goto i Returned (s\<lparr>owner := None,
      tdata := (tdata s)(i := (tdata s i)\<lparr>thread_complete_success := True\<rparr>)\<rparr>))"
| t_unlock_error: "pcs s i = Unlocking \<Longrightarrow> \<not> mutex_ok s \<Longrightarrow>
    thread_step i s (goto i Returned s)"

inductive_cases thread_stepE: "thread_step i s s'"

text \<open>\<open>n\<close> threads, started with the given waiting times, after \<open>k\<close> steps.\<close>

definition threads_start :: "bool \<Rightarrow> bool \<Rightarrow> (nat \<Rightarrow> s32 \<times> s32) \<Rightarrow> threads" where
  "threads_start ok sig waits =
     \<lparr>pcs = (\<lambda>_. Entry),
      tdata = (\<lambda>i. \<lparr>wait_to_obtain_ms = fst (waits i), wait_to_release_ms = snd (waits i),
        thread_complete_success = False\<rparr>),
      owner = None, mutex_ok = ok, signals = sig\<rparr>"

inductive thread_run :: "nat \<Rightarrow> threads \<Rightarrow> nat \<Rightarrow> threads \<Rightarrow> bool" for n s\<^sub>0 where
  run_start: "thread_run n s\<^sub>0 0 s\<^sub>0"
| run_step: "thread_run n s\<^sub>0 k s \<Longrightarrow> i < n \<Longrightarrow> thread_step i s s' \<Longrightarrow>
    thread_run n s\<^sub>0 (Suc k) s'"

section \<open>One step\<close>

lemma goto_simps [simp]:
  "pcs (goto i pc s) = (pcs s)(i := pc)" "tdata (goto i pc s) = tdata s" "owner (goto i pc s) = owner s"
  "mutex_ok (goto i pc s) = mutex_ok s" "signals (goto i pc s) = signals s"
  by (simp_all add: goto_def)

definition rank :: "tpc \<Rightarrow> nat" where
  "rank pc = (case pc of Entry \<Rightarrow> 5 | Sleeping \<Rightarrow> 4 | Locking \<Rightarrow> 3 | Working \<Rightarrow> 2 | Unlocking \<Rightarrow> 1
     | Returned \<Rightarrow> 0 | Undefined \<Rightarrow> 0)"

text \<open>A step moves one thread forward and keeps the parameters.\<close>

lemma thread_step_frame:
  assumes "thread_step i s s'"
  shows "rank (pcs s' i) < rank (pcs s i)" and "j \<noteq> i \<Longrightarrow> pcs s' j = pcs s j"
    and "wait_to_obtain_ms (tdata s' j) = wait_to_obtain_ms (tdata s j)"
    and "wait_to_release_ms (tdata s' j) = wait_to_release_ms (tdata s j)"
    and "mutex_ok s' = mutex_ok s" and "signals s' = signals s"
  using assms by (auto elim!: thread_stepE simp: rank_def)

definition critical :: "tpc \<Rightarrow> bool" where
  "critical pc \<longleftrightarrow> pc = Working \<or> pc = Unlocking"

definition thr_inv :: "threads \<Rightarrow> bool" where
  "thr_inv s \<longleftrightarrow>
     (\<forall>i. critical (pcs s i) \<longrightarrow> owner s = Some i) \<and>
     (\<forall>i. owner s = Some i \<longrightarrow> critical (pcs s i) \<or> pcs s i = Returned) \<and>
     (\<forall>i. thread_complete_success (tdata s i) \<longrightarrow> pcs s i = Returned \<and> owner s \<noteq> Some i)"

lemma thr_inv_start: "thr_inv (threads_start ok sig waits)"
  by (simp add: thr_inv_def threads_start_def critical_def)

lemma thr_inv_move:
  assumes inv: "thr_inv s" and "pcs s i \<noteq> Returned" and "critical pc \<Longrightarrow> critical (pcs s i)"
    and "critical (pcs s i) \<Longrightarrow> critical pc \<or> pc = Returned"
  shows "thr_inv (goto i pc s)"
  unfolding thr_inv_def
proof (intro conjI allI impI)
  fix j
  show "owner (goto i pc s) = Some j" if "critical (pcs (goto i pc s) j)"
    using that assms by (cases "j = i") (auto simp: thr_inv_def)
  show "critical (pcs (goto i pc s) j) \<or> pcs (goto i pc s) j = Returned"
    if "owner (goto i pc s) = Some j"
    using that assms by (cases "j = i") (auto simp: thr_inv_def)
  assume "thread_complete_success (tdata (goto i pc s) j)"
  then have "pcs s j = Returned" "owner s \<noteq> Some j" using inv by (simp_all add: thr_inv_def)
  then show "pcs (goto i pc s) j = Returned" "owner (goto i pc s) \<noteq> Some j"
    using assms(2) by (cases "j = i"; simp)+
qed

lemma thr_inv_step:
  assumes "thread_step i s s'" and "thr_inv s"
  shows "thr_inv s'"
  using assms
proof cases
  case t_lock
  then have none: "\<not> critical (pcs s j)" for j using assms(2) by (auto simp: thr_inv_def)
  have "critical Working" by (simp add: critical_def)
  with none t_lock assms(2) show ?thesis by (auto simp: thr_inv_def)
next
  case t_unlock
  then have i: "owner s = Some i" using assms(2) by (simp add: thr_inv_def critical_def)
  then have others: "critical (pcs s j) \<Longrightarrow> j = i" for j using assms(2) by (auto simp: thr_inv_def)
  have "\<not> critical Returned" by (simp add: critical_def)
  with i others t_unlock assms(2) show ?thesis by (auto simp: thr_inv_def)
next
  case (t_sleep ns ret)
  show ?thesis unfolding t_sleep(1)
    by (rule thr_inv_move [OF assms(2)]) (simp_all add: t_sleep(2) critical_def split: if_splits)
next
  case (t_work ns ret)
  show ?thesis unfolding t_work(1)
    by (rule thr_inv_move [OF assms(2)]) (simp_all add: t_work(2) critical_def)
qed (auto simp: critical_def intro!: thr_inv_move [OF assms(2)])

lemma thr_inv_run: "thread_run n s\<^sub>0 k s \<Longrightarrow> thr_inv s\<^sub>0 \<Longrightarrow> thr_inv s"
  by (induction rule: thread_run.induct) (auto intro: thr_inv_step)

section \<open>Properties\<close>

text \<open>
  Mutual exclusion. However the steps of the threads interleave, at most one thread is
  between its \<open>pthread_mutex_lock\<close> and its \<open>pthread_mutex_unlock\<close>, it is the owner of the mutex,
  and a thread that reports success has returned and does not hold the mutex.
\<close>

theorem threads_mutual_exclusion:
  assumes "thread_run n (threads_start ok sig waits) k s"
  shows "(critical (pcs s i) \<longrightarrow> owner s = Some i \<and> (critical (pcs s j) \<longrightarrow> j = i)) \<and>
    (thread_complete_success (tdata s i) \<longrightarrow> pcs s i = Returned \<and> owner s \<noteq> Some i)"
proof -
  have "thr_inv s" by (rule thr_inv_run [OF assms thr_inv_start])
  then show ?thesis unfolding thr_inv_def by (metis option.inject)
qed

text \<open>
  Which waiting times work. A request of 0 to 999 milliseconds is a valid argument of
  \<open>nanosleep\<close>; a negative one down to \<open>-2147\<close> and one of 1000 to 2147 milliseconds is refused, as
  all of it is put into the nanoseconds; for any other the multiplication overflows.
\<close>

theorem sleep_bounds:
  "case ms_to_ns ms of
      Inl f \<Rightarrow> f = SignedOverflow \<and> (sint ms < - 2147 \<or> 2147 < sint ms)
    | Inr ns \<Rightarrow> - 2147 \<le> sint ms \<and> sint ms \<le> 2147 \<and> sint ns = sint ms * 1000000 \<and>
        (nanosleep_ret sig ns 0 \<longleftrightarrow> 0 \<le> sint ms \<and> sint ms \<le> 999)"
proof -
  let ?p = "sint ms * 1000000"
  show ?thesis
  proof (cases "- (2 ^ 31) \<le> ?p \<and> ?p < 2 ^ 31")
    case True
    then have ns: "sint (of_int ?p :: s32) = ?p" by (intro sint_of_int_fits) simp_all
    have range: "- 2147 \<le> sint ms" "sint ms \<le> 2147" using True by auto
    have "nanosleep_ret sig (of_int ?p) 0 \<longleftrightarrow> 0 \<le> sint ms \<and> sint ms \<le> 999"
      unfolding nanosleep_ret_def ns by auto
    with True ns range show ?thesis unfolding ms_to_ns_def Let_def by (simp only: if_True simp_thms sum.case)
  next
    case False
    then have "sint ms < - 2147 \<or> 2147 < sint ms" by auto
    with False show ?thesis by (auto simp: ms_to_ns_def Let_def)
  qed
qed

lemma ms_fine:
  assumes "0 \<le> sint ms" and "sint ms \<le> 999"
  shows "\<exists>ns. ms_to_ns ms = Inr ns \<and> nanosleep_ret sig ns 0 \<and>
    (\<forall>ret. nanosleep_ret False ns ret \<longrightarrow> ret = 0)"
proof -
  let ?p = "sint ms * 1000000"
  have p: "- (2 ^ 31) \<le> ?p" "?p < 2 ^ 31" using assms by auto
  then have ns: "sint (of_int ?p :: s32) = ?p" by (intro sint_of_int_fits) simp_all
  have "ms_to_ns ms = Inr (of_int ?p)" unfolding ms_to_ns_def Let_def using p by simp
  moreover have "nanosleep_ret sig (of_int ?p) 0" unfolding nanosleep_ret_def ns using assms by auto
  moreover have "\<forall>ret. nanosleep_ret False (of_int ?p) ret \<longrightarrow> ret = 0"
    unfolding nanosleep_ret_def ns using assms by auto
  ultimately show ?thesis by blast
qed

text \<open>The steps left: at most five for each thread.\<close>

lemma thread_run_rank:
  assumes "thread_run n s\<^sub>0 k s"
  shows "k + (\<Sum>i<n. rank (pcs s i)) \<le> (\<Sum>i<n. rank (pcs s\<^sub>0 i))"
  using assms
proof (induction rule: thread_run.induct)
  case (run_step k s i s')
  have "(\<Sum>j<n. rank (pcs s' j)) < (\<Sum>j<n. rank (pcs s j))"
  proof (rule sum_strict_mono_ex1)
    show "\<forall>j \<in> {..<n}. rank (pcs s' j) \<le> rank (pcs s j)"
      using thread_step_frame(1,2) [OF run_step(3)] by (metis le_refl less_imp_le)
    show "\<exists>j \<in> {..<n}. rank (pcs s' j) < rank (pcs s j)"
      using thread_step_frame(1) [OF run_step(3)] run_step(2) by blast
  qed simp
  with run_step.IH show ?case by simp
qed simp

text \<open>What a run keeps when all waiting times are good and no signal arrives.\<close>

definition good_waits :: "nat \<Rightarrow> (nat \<Rightarrow> s32 \<times> s32) \<Rightarrow> bool" where
  "good_waits n waits \<longleftrightarrow>
     (\<forall>i < n. 0 \<le> sint (fst (waits i)) \<and> sint (fst (waits i)) \<le> 999 \<and>
        0 \<le> sint (snd (waits i)) \<and> sint (snd (waits i)) \<le> 999)"

definition good_inv :: "nat \<Rightarrow> (nat \<Rightarrow> s32 \<times> s32) \<Rightarrow> threads \<Rightarrow> bool" where
  "good_inv n waits s \<longleftrightarrow>
     mutex_ok s \<and> \<not> signals s \<and>
     (\<forall>i < n. wait_to_obtain_ms (tdata s i) = fst (waits i) \<and>
        wait_to_release_ms (tdata s i) = snd (waits i) \<and> pcs s i \<noteq> Undefined \<and>
        (pcs s i = Returned \<longrightarrow> thread_complete_success (tdata s i))) \<and>
     (\<forall>i. owner s = Some i \<longrightarrow> i < n)"

lemma good_thread:
  assumes "good_waits n waits" and "good_inv n waits s" and "i < n"
  shows "\<exists>a. ms_to_ns (wait_to_obtain_ms (tdata s i)) = Inr a \<and> nanosleep_ret (signals s) a 0 \<and>
      (\<forall>ret. nanosleep_ret (signals s) a ret \<longrightarrow> ret = 0)"
    and "\<exists>b. ms_to_ns (wait_to_release_ms (tdata s i)) = Inr b \<and> nanosleep_ret (signals s) b 0 \<and>
      (\<forall>ret. nanosleep_ret (signals s) b ret \<longrightarrow> ret = 0)"
  using assms ms_fine [of "fst (waits i)" "signals s"] ms_fine [of "snd (waits i)" "signals s"]
  by (simp_all add: good_waits_def good_inv_def)

lemma good_inv_move:
  assumes "good_inv n waits s" and "pc \<noteq> Undefined" and "pc \<noteq> Returned"
  shows "good_inv n waits (goto i pc s)"
  using assms by (simp add: good_inv_def)

lemma good_inv_step:
  assumes step: "thread_step i s s'" and i: "i < n" and good: "good_waits n waits"
    and inv: "good_inv n waits s"
  shows "good_inv n waits s'"
  using step
proof cases
  case t_enter
  then show ?thesis using good_inv_move [OF inv] by simp
next
  case (t_overflow f)
  then show ?thesis using good_thread [OF good inv i] by auto
next
  case (t_sleep ns ret)
  then have "ret = 0" using good_thread(1) [OF good inv i] by auto
  with t_sleep show ?thesis using good_inv_move [OF inv] by simp
next
  case t_lock
  then show ?thesis using inv i by (simp add: good_inv_def)
next
  case t_lock_error
  then show ?thesis using inv by (simp add: good_inv_def)
next
  case (t_work ns ret)
  then have "ret = 0" using good_thread(2) [OF good inv i] by auto
  with t_work show ?thesis using good_inv_move [OF inv] by simp
next
  case t_unlock
  then show ?thesis using inv by (simp add: good_inv_def)
next
  case t_unlock_error
  then show ?thesis using inv by (simp add: good_inv_def)
qed

lemma good_inv_run:
  assumes "good_waits n waits" and "thread_run n (threads_start True False waits) k s"
  shows "good_inv n waits s"
  using assms(2)
proof (induction rule: thread_run.induct)
  case run_start
  show ?case by (simp add: good_inv_def threads_start_def)
next
  case (run_step k s i s')
  then show ?case using good_inv_step assms(1) by blast
qed

lemma good_progress:
  assumes good: "good_waits n waits" and inv: "good_inv n waits s" "thr_inv s"
    and stuck: "\<forall>i < n. \<forall>s'. \<not> thread_step i s s'" and i: "i < n"
  shows "pcs s i = Returned"
proof -
  have flags: "mutex_ok s" "\<not> signals s" using inv by (auto simp: good_inv_def)
  have cases: "pcs s j = Returned \<or> pcs s j = Locking \<and> owner s \<noteq> None" if j: "j < n" for j
  proof -
    obtain a where a: "ms_to_ns (wait_to_obtain_ms (tdata s j)) = Inr a" "nanosleep_ret (signals s) a 0"
      using good_thread(1) [OF good inv(1) j] by blast
    obtain b where b: "ms_to_ns (wait_to_release_ms (tdata s j)) = Inr b" "nanosleep_ret (signals s) b 0"
      using good_thread(2) [OF good inv(1) j] by blast
    have no: "\<not> thread_step j s s'" for s' using stuck j by blast
    have "pcs s j \<noteq> Undefined" using inv(1) j by (simp add: good_inv_def)
    moreover have "pcs s j \<noteq> Entry" using t_enter [OF _ a(1) b(1)] no by blast
    moreover have "pcs s j \<noteq> Sleeping" using t_sleep [OF _ a] no by blast
    moreover have "pcs s j \<noteq> Working" using t_work [OF _ b] no by blast
    moreover have "pcs s j \<noteq> Unlocking" using t_unlock [OF _ flags(1)] no by blast
    moreover have "pcs s j = Locking \<Longrightarrow> owner s \<noteq> None" using t_lock [OF _ flags(1)] no by blast
    ultimately show ?thesis by (cases "pcs s j") simp_all
  qed
  have "owner s \<noteq> Some j" for j
  proof
    assume j: "owner s = Some j"
    then have "j < n" using inv(1) by (simp add: good_inv_def)
    moreover from this have "pcs s j = Returned \<or> pcs s j = Locking" using cases by blast
    moreover have "critical (pcs s j) \<or> pcs s j = Returned" using inv(2) j by (simp add: thr_inv_def)
    ultimately have "thread_complete_success (tdata s j)"
      using inv(1) by (auto simp only: good_inv_def critical_def tpc.distinct)
    then show False using j inv(2) unfolding thr_inv_def by blast
  qed
  then have "owner s = None" by (cases "owner s") auto
  with cases [OF i] show ?thesis by auto
qed

text \<open>
  C23: Every thread gets its turn. With waiting times of 0 to 999 milliseconds, an initialised
  mutex and no signals, \<open>n\<close> threads make at most \<open>5 n\<close> steps, however they interleave, and
  when none can make another step all of them have returned with success and the mutex is
  free.
\<close>

theorem threads_finish:
  assumes "good_waits n waits" and "thread_run n (threads_start True False waits) k s"
  shows "k \<le> 5 * n \<and>
    ((\<forall>i < n. \<forall>s'. \<not> thread_step i s s') \<longrightarrow>
       (\<forall>i < n. pcs s i = Returned \<and> thread_complete_success (tdata s i)) \<and> owner s = None)"
proof -
  have inv: "good_inv n waits s" "thr_inv s"
    using good_inv_run [OF assms] thr_inv_run [OF assms(2) thr_inv_start] by auto
  have "(\<Sum>i<n. rank (pcs (threads_start True False waits) i)) = 5 * n"
    by (simp add: threads_start_def rank_def)
  then have "k \<le> 5 * n" using thread_run_rank [OF assms(2)] by simp
  moreover have "(\<forall>i < n. pcs s i = Returned \<and> thread_complete_success (tdata s i)) \<and> owner s = None"
    if "\<forall>i < n. \<forall>s'. \<not> thread_step i s s'"
  proof -
    have ret: "\<forall>i < n. pcs s i = Returned \<and> thread_complete_success (tdata s i)"
      using good_progress [OF assms(1) inv that] inv(1) by (auto simp: good_inv_def)
    moreover have "owner s = None"
    proof (rule ccontr)
      assume "owner s \<noteq> None"
      then obtain j where j: "owner s = Some j" by auto
      then have "j < n" using inv(1) by (simp add: good_inv_def)
      with ret j inv(2) show False by (auto simp: thr_inv_def)
    qed
    ultimately show ?thesis by blast
  qed
  ultimately show ?thesis by blast
qed


section \<open>Arguments in memory\<close>

lemma length_le_bytes [simp]: "length (le_bytes n w) = n"
  by (induction n arbitrary: w) simp_all

lemma bit_of_le_bytes:
  "bit (of_le_bytes (le_bytes n w)) i \<longleftrightarrow> bit w i \<and> i < 8 * n"
proof (induction n arbitrary: w i)
  case (Suc n)
  show ?case
    using Suc.IH [of "drop_bit 8 w" "i - 8"]
    by (cases "i < 8") (auto simp: bit_or_iff bit_push_bit_iff bit_drop_bit_eq bit_ucast_iff dest: bit_imp_le_length)
qed simp

lemma of_le_bytes_8: "of_le_bytes (le_bytes 8 w) = w"
  by (rule bit_word_eqI) (simp add: bit_of_le_bytes)

lemma of_le_bytes_4: "(ucast (of_le_bytes (le_bytes 4 (ucast (w :: s32)))) :: s32) = w"
  by (rule bit_word_eqI) (simp add: bit_of_le_bytes bit_ucast_iff)

text \<open>The block after the four assignments.\<close>

definition args_block :: "64 word \<Rightarrow> s32 \<Rightarrow> s32 \<Rightarrow> byte list \<Rightarrow> byte list" where
  "args_block mutex obtain_ms release_ms blk =
     le_bytes 8 mutex @ le_bytes 4 (ucast obtain_ms) @ le_bytes 4 (ucast release_ms) @ [0] @ drop 17 blk"

lemma splice_behind: "length xs = i \<Longrightarrow> splice i ys (xs @ zs) = xs @ ys @ drop (length ys) zs"
  by (simp add: splice_def)

lemma start_thread_room:
  assumes malloc: "malloc_data e h sizeof_pointer = Some (a, blk)" and room: "17 \<le> length blk"
  shows "start_thread_obtaining_mutex e h mutex obtain_ms release_ms =
    (if pthread_create e \<noteq> 0 then Inr (h(a := None), False, None)
     else Inr (h(a \<mapsto> args_block mutex obtain_ms release_ms blk), True, Some a))"
proof -
  let ?m = "le_bytes 8 mutex" and ?o = "le_bytes 4 (ucast obtain_ms)" and ?r = "le_bytes 4 (ucast release_ms)"
  have "splice 0 ?m blk = ?m @ drop 8 blk" by (simp add: splice_def)
  moreover have "splice 8 ?o (?m @ drop 8 blk) = ?m @ ?o @ drop 12 blk"
    by (simp add: splice_behind)
  moreover have "splice 12 ?r (?m @ ?o @ drop 12 blk) = ?m @ ?o @ ?r @ drop 16 blk"
    using splice_behind [of "?m @ ?o" 12 ?r "drop 12 blk"] by simp
  moreover have "splice 16 [0] (?m @ ?o @ ?r @ drop 16 blk) = args_block mutex obtain_ms release_ms blk"
    using splice_behind [of "?m @ ?o @ ?r" 16 "[0]" "drop 16 blk"] by (simp add: args_block_def)
  ultimately show ?thesis
    using room by (simp add: start_thread_obtaining_mutex_def malloc store_ok free_ok)
qed

lemma start_thread_small:
  assumes malloc: "malloc_data e h sizeof_pointer = Some (a, blk)" and small: "length blk < 17"
  shows "start_thread_obtaining_mutex e h mutex obtain_ms release_ms = Inl OutOfBounds"
proof -
  have "8 \<le> length blk \<or> length blk < 8" "12 \<le> length blk \<or> length blk < 12"
    "16 \<le> length blk \<or> length blk < 16" by auto
  then show ?thesis
    using small by (auto simp: start_thread_obtaining_mutex_def malloc store_def)
qed

text \<open>
  Every outcome of \<open>start_thread_obtaining_mutex\<close>. The members of \<open>struct thread_data\<close>
  occupy 17 bytes, the block is requested with the 8 bytes of a pointer: when \<open>malloc\<close>
  returns a block of the requested size, or any that is shorter than 17 bytes, the
  function writes outside it, and when \<open>malloc\<close> fails it writes through \<open>NULL\<close>. With more
  room it stores the arguments and reports success, or gives the block back and reports
  failure when no thread can be created.
\<close>

theorem start_thread_outcomes:
  assumes "\<forall>a blk. malloc_data e h sizeof_pointer = Some (a, blk) \<longrightarrow> h a = None"
  shows "start_thread_obtaining_mutex e h mutex obtain_ms release_ms =
    (case malloc_data e h sizeof_pointer of
       None \<Rightarrow> Inl NullDeref
     | Some (a, blk) \<Rightarrow>
         if length blk < sizeof_thread_data - 7 then Inl OutOfBounds
         else if pthread_create e \<noteq> 0 then Inr (h, False, None)
         else Inr (h(a \<mapsto> args_block mutex obtain_ms release_ms blk), True, Some a))"
proof (cases "malloc_data e h sizeof_pointer")
  case None
  then show ?thesis by (simp add: start_thread_obtaining_mutex_def store_def)
next
  case (Some m)
  obtain a blk where m: "m = (a, blk)" by force
  then have "h a = None" using assms Some by simp
  then show ?thesis
    using Some m start_thread_small [of e h a blk] start_thread_room [of e h a blk]
    by (simp add: sizeof_thread_data_def)
qed

text \<open>
  The arguments reach the thread. Whenever \<open>start_thread_obtaining_mutex\<close> reports success,
  \<open>threadfunc\<close> finds in the block it is given the mutex and the two waiting times, every
  \<open>int\<close> of them, and a success flag that is false.
\<close>

theorem thread_args_roundtrip:
  assumes "start_thread_obtaining_mutex e h mutex obtain_ms release_ms = Inr (h', True, p)"
  shows "thread_args h' p = Inr (mutex, \<lparr>wait_to_obtain_ms = obtain_ms,
    wait_to_release_ms = release_ms, thread_complete_success = False\<rparr>)"
proof -
  obtain a blk where malloc: "malloc_data e h sizeof_pointer = Some (a, blk)"
    using assms by (cases "malloc_data e h sizeof_pointer")
      (auto simp: start_thread_obtaining_mutex_def store_def)
  have room: "17 \<le> length blk"
    using assms start_thread_small [OF malloc] by (cases "length blk < 17") auto
  have *: "h' = h(a \<mapsto> args_block mutex obtain_ms release_ms blk)" "p = Some a"
    using assms start_thread_room [OF malloc room, of mutex obtain_ms release_ms]
    by (auto split: if_splits)
  have len: "17 \<le> length (args_block mutex obtain_ms release_ms blk)" by (simp add: args_block_def)
  show ?thesis
    unfolding * using len
    by (simp add: thread_args_def load_le_def load_ok) (simp add: args_block_def of_le_bytes_8 of_le_bytes_4)
qed

section \<open>A sleep that fails while the mutex is held\<close>

definition left_locked :: "nat \<Rightarrow> threads \<Rightarrow> bool" where
  "left_locked i s \<longleftrightarrow>
     thr_inv s \<and> owner s = Some i \<and> pcs s i = Returned \<and> \<not> thread_complete_success (tdata s i)"

lemma left_locked_nobody: "left_locked i s \<Longrightarrow> \<not> critical (pcs s j)"
  by (cases "j = i") (auto simp: left_locked_def thr_inv_def critical_def)

lemma left_locked_step:
  assumes step: "thread_step j s s'" and left: "left_locked i s"
  shows "left_locked i s'"
proof -
  have inv: "thr_inv s'" using thr_inv_step [OF step] left by (simp add: left_locked_def)
  have s: "owner s = Some i" "pcs s i = Returned" "\<not> thread_complete_success (tdata s i)"
    using left by (simp_all add: left_locked_def)
  have "j \<noteq> i" using thread_step_frame(1) [OF step] s(2) by (auto simp: rank_def)
  moreover have "\<not> critical (pcs s j)" using left by (rule left_locked_nobody)
  ultimately have "owner s' = Some i \<and> pcs s' i = Returned \<and> tdata s' = tdata s"
    using step s by (elim thread_stepE) (simp_all add: critical_def)
  with inv s(3) show ?thesis by (simp add: left_locked_def)
qed

lemma left_locked_run: "thread_run n s\<^sub>0 k s \<Longrightarrow> left_locked i s\<^sub>0 \<Longrightarrow> left_locked i s"
  by (induction rule: thread_run.induct) (auto intro: left_locked_step)

text \<open>
  C33: A sleep that fails keeps the mutex for ever. When the second \<open>nanosleep\<close> of a thread is
  refused or interrupted, the thread returns without unlocking: whatever the threads do
  afterwards, the mutex stays taken, the thread has not reported success, and no thread gets
  between \<open>pthread_mutex_lock\<close> and \<open>pthread_mutex_unlock\<close> again.
\<close>

theorem failed_sleep_keeps_mutex:
  assumes "thread_run n (threads_start ok sig waits) k s" and "pcs s i = Working"
    and "thread_step i s s'" and "pcs s' i = Returned" and "thread_run n s' k' s''"
  shows "owner s'' = Some i \<and> \<not> thread_complete_success (tdata s'' i) \<and> (\<forall>j. \<not> critical (pcs s'' j))"
proof -
  have inv: "thr_inv s" by (rule thr_inv_run [OF assms(1) thr_inv_start])
  have "owner s = Some i" "\<not> thread_complete_success (tdata s i)"
    using inv assms(2) by (auto simp: thr_inv_def critical_def)
  moreover have "owner s' = owner s \<and> tdata s' = tdata s"
    using assms(3,2) by cases auto
  ultimately have "left_locked i s'"
    using thr_inv_step [OF assms(3) inv] assms(4) by (simp add: left_locked_def)
  then have "left_locked i s''" by (rule left_locked_run [OF assms(5)])
  then show ?thesis using left_locked_nobody by (auto simp: left_locked_def)
qed

section \<open>Witnesses\<close>

text \<open>Two threads; the first holds the mutex, and asks for a second of sleep.\<close>

definition two_waits :: "nat \<Rightarrow> s32 \<times> s32" where
  "two_waits i = (if i = 0 then (0, 1000) else (0, 5))"

abbreviation two_start :: threads where "two_start \<equiv> threads_start True False two_waits"

lemma ms_values: "ms_to_ns 0 = Inr 0" "ms_to_ns 5 = Inr 5000000" "ms_to_ns 1000 = Inr 1000000000"
  by (simp_all add: ms_to_ns_def)

lemma two_working:
  "thread_run 2 two_start 3
     (goto 0 Working (goto 0 Locking (goto 0 Sleeping two_start)\<lparr>owner := Some 0\<rparr>))"
proof -
  let ?t = "two_start" let ?t1 = "goto 0 Sleeping ?t" let ?t2 = "goto 0 Locking ?t1"
  have "thread_step 0 ?t ?t1"
    by (rule t_enter) (simp_all add: threads_start_def two_waits_def ms_values)
  then have 1: "thread_run 2 ?t (Suc 0) ?t1" by (rule run_step [OF run_start, rotated]) simp
  have "thread_step 0 ?t1 (goto 0 (if (0 :: s32) \<noteq> 0 then Returned else Locking) ?t1)"
    by (rule t_sleep [of _ _ 0]) (simp_all add: threads_start_def two_waits_def ms_values nanosleep_ret_def)
  then have "thread_step 0 ?t1 ?t2" by simp
  then have 2: "thread_run 2 ?t (Suc (Suc 0)) ?t2" by (rule run_step [OF 1, rotated]) simp
  have "thread_step 0 ?t2 (goto 0 Working (?t2\<lparr>owner := Some 0\<rparr>))"
    by (rule t_lock) (simp_all add: threads_start_def)
  then have "thread_run 2 ?t (Suc (Suc (Suc 0))) (goto 0 Working (?t2\<lparr>owner := Some 0\<rparr>))"
    by (rule run_step [OF 2, rotated]) simp
  then show ?thesis by (simp add: numeral_3_eq_3)
qed

lemma two_failing:
  "thread_step 0 (goto 0 Working (goto 0 Locking (goto 0 Sleeping two_start)\<lparr>owner := Some 0\<rparr>))
     (goto 0 Returned (goto 0 Working (goto 0 Locking (goto 0 Sleeping two_start)\<lparr>owner := Some 0\<rparr>)))"
  (is "thread_step 0 ?s _")
proof -
  have "thread_step 0 ?s (goto 0 (if (- 1 :: s32) \<noteq> 0 then Returned else Unlocking) ?s)"
    by (rule t_work [of _ _ 1000000000])
      (simp_all add: threads_start_def two_waits_def ms_values nanosleep_ret_def)
  then show ?thesis by simp
qed

theorem threads_mutual_exclusion_witness:
  "\<exists>s. thread_run 2 two_start 3 s \<and> pcs s 0 = Working \<and> owner s = Some 0 \<and> pcs s 1 \<noteq> Working"
proof (intro exI conjI)
  let ?s = "goto 0 Working (goto 0 Locking (goto 0 Sleeping two_start)\<lparr>owner := Some 0\<rparr>)"
  have pc: "critical (pcs ?s 0)" by (simp add: critical_def)
  show "thread_run 2 two_start 3 ?s" by (rule two_working)
  show "pcs ?s 0 = Working" by simp
  show "owner ?s = Some 0" using threads_mutual_exclusion [OF two_working, of 0] pc by blast
  have "critical (pcs ?s 1) \<longrightarrow> (1 :: nat) = 0"
    using threads_mutual_exclusion [OF two_working, of 0 1] pc by blast
  then show "pcs ?s 1 \<noteq> Working" by (auto simp: critical_def)
qed

theorem failed_sleep_keeps_mutex_witness:
  "\<exists>s. thread_run 2 two_start 3 s \<and>
     (\<forall>k s'. thread_run 2 (goto 0 Returned s) k s' \<longrightarrow> owner s' = Some 0 \<and> \<not> critical (pcs s' 1))"
proof (intro exI conjI allI impI)
  let ?s = "goto 0 Working (goto 0 Locking (goto 0 Sleeping two_start)\<lparr>owner := Some 0\<rparr>)"
  show "thread_run 2 two_start 3 ?s" by (rule two_working)
  fix k s'
  assume "thread_run 2 (goto 0 Returned ?s) k s'"
  from failed_sleep_keeps_mutex [OF two_working _ two_failing _ this]
  show "owner s' = Some 0" "\<not> critical (pcs s' 1)" by simp_all
qed

theorem threads_finish_witness:
  "good_waits 2 (\<lambda>_. (3, 5)) \<and> thread_run 2 (threads_start True False (\<lambda>_. (3, 5))) 0
     (threads_start True False (\<lambda>_. (3, 5))) \<and> (0 :: nat) \<le> 5 * 2"
  using threads_finish [of 2 "\<lambda>_. (3, 5)", OF _ run_start]
  by (auto simp: good_waits_def run_start)

text \<open>An allocator that returns blocks of the requested size, and one that rounds up to 24 bytes.\<close>

definition exact_env :: start_env where
  "exact_env = \<lparr>malloc_data = \<lambda>h n. Some (0, replicate (unat n) 7), pthread_create = 0\<rparr>"

definition glibc_env :: start_env where
  "glibc_env = \<lparr>malloc_data = \<lambda>h n. Some (0, replicate (max 24 (unat n)) 7), pthread_create = 0\<rparr>"

theorem start_thread_outcomes_witness:
  "start_thread_obtaining_mutex exact_env Map.empty 1 2 3 = Inl OutOfBounds"
  by (subst start_thread_outcomes)
    (simp_all add: exact_env_def sizeof_pointer_def sizeof_thread_data_def)

theorem thread_args_roundtrip_witness:
  "\<exists>h p. start_thread_obtaining_mutex glibc_env Map.empty 1 2 (- 3) = Inr (h, True, p) \<and>
     thread_args h p = Inr (1, \<lparr>wait_to_obtain_ms = 2, wait_to_release_ms = - 3,
       thread_complete_success = False\<rparr>)"
proof -
  have "start_thread_obtaining_mutex glibc_env Map.empty 1 2 (- 3) =
      Inr ([0 \<mapsto> args_block 1 2 (- 3) (replicate 24 7)], True, Some 0)"
    by (subst start_thread_room [where a = 0 and blk = "replicate 24 7"])
      (simp_all add: glibc_env_def sizeof_pointer_def)
  from this thread_args_roundtrip [OF this] show ?thesis by blast
qed

end
