(* ===== verification/Autotest.thy ===== *)
theory Autotest
  imports Prelude
begin

text \<open>
  The exercise \<open>examples/autotest-validate\<close> and its test \<open>student-test/assignment1\<close>, the first
  with which the repository checks its own set-up.
\<close>

section \<open>Model\<close>

definition this_function_returns_true :: bool where "this_function_returns_true = True"

definition this_function_returns_false :: bool where "this_function_returns_false = False"

definition my_username :: string where "my_username = ''amasini0''"

text \<open>What \<open>main\<close> of \<open>autotest-validate-main.c\<close> prints; \<open>CHR 0x0A\<close> is the end of a line.\<close>

definition bool_text :: "bool \<Rightarrow> string" where
  "bool_text b = (if b then ''true'' else ''false'')"

definition autotest_main :: string where
  "autotest_main =
     ''this_function_returns_true returned '' @ bool_text this_function_returns_true @ [CHR 0x0A] @
     ''this_function_returns_false returned '' @ bool_text this_function_returns_false @ [CHR 0x0A]"

text \<open>
  \<open>test_validate_my_username\<close>: \<open>malloc_username_from_conf_file\<close>, not part of the repository, gives
  the string of the configuration file or \<open>NULL\<close>, and the assertion of the test framework
  leaves the function when the strings differ. The result says whether the test passes and
  whether the string has been freed.
\<close>

definition test_validate_my_username :: "string option \<Rightarrow> bool \<times> bool" where
  "test_validate_my_username inserted =
     (let username = my_username in if inserted = Some username then (True, True) else (False, False))"

section \<open>The test\<close>

text \<open>The file \<open>conf/username.txt\<close> holds the name the test expects.\<close>

definition conf_username :: string where "conf_username = ''amasini0''"

lemma test_passes: "test_validate_my_username (Some conf_username) = (True, True)"
  by (simp add: test_validate_my_username_def my_username_def conf_username_def)

lemma test_fails: "s \<noteq> conf_username \<Longrightarrow> \<not> fst (test_validate_my_username (Some s))"
  by (simp add: test_validate_my_username_def my_username_def conf_username_def)

lemma autotest_output: "autotest_main =
   ''this_function_returns_true returned true'' @ [CHR 0x0A] @
   ''this_function_returns_false returned false'' @ [CHR 0x0A]"
  by (simp add: autotest_main_def bool_text_def this_function_returns_true_def
      this_function_returns_false_def)

end
