(* ===== verification/Spec2Isabelle.thy ===== *)
theory Spec2Isabelle
  imports DeviceSession ServerWorld DeviceWorld ConnectionThread SystemCalls Threading Autotest
begin

text \<open>
  A verification library for the C programs of this repository: the character device driver
  \<open>aesdchar\<close>, the socket server \<open>aesdsocket\<close> that runs on top of it or of a regular file, the
  program \<open>writer\<close>, and the exercises on system calls and threads.

  \<^bold>\<open>The programs.\<close> The driver (\<open>aesd-char-driver/\<close>) keeps the last ten commands written to
  \<open>/dev/aesdchar\<close>, a command being what ends in a newline, in the ring buffer of
  \<open>aesd-circular-buffer.c\<close>, and the unfinished command in \<open>wip_entry\<close>; \<open>main.c\<close> has its file
  operations and its loading and unloading. The server (\<open>server/src/\<close>) accepts connections
  (\<open>aesdsocket.c\<close>), starts for each a thread (\<open>connection.c\<close>) that reads a packet with
  \<open>sock_getline\<close> (\<open>socket.c\<close>), appends it to the file with \<open>putchars\<close> (\<open>utils.c\<close>) under a mutex,
  or turns it into a seek request for the driver, and sends the file back; a timer thread
  (\<open>signal.c\<close>) appends time stamps under the same mutex. \<open>finder-app/writer.c\<close> writes a string
  to a file; \<open>examples/systemcalls\<close> runs commands, \<open>examples/threading\<close> starts threads that
  hold a mutex for some time.

  \<^bold>\<open>How the code is modelled.\<close> A C function is a HOL function from the state it works on and
  the results of the calls it makes to the new state and its result. \<open>size_t\<close>, \<open>ssize_t\<close>,
  \<open>loff_t\<close> and \<open>long\<close> are words of 64 bits, \<open>int\<close> one of 32, \<open>char\<close> one of 8; arithmetic wraps
  where it wraps in C, and overflow of \<open>int\<close> is a fault. Undefined behaviour is a value:
  functions that can meet it return \<open>fault + 'a\<close> (theory Prelude). Dynamic memory is a map from
  addresses to the bytes of the live blocks (theory Memory), so bounds, double frees and leaks
  are visible. Loops whose number of rounds depends on the environment take fuel and return
  \<open>None\<close> when it is used up; the theorems say how much fuel is enough, or that none is. Code
  outside the repository (kernel, libc, pthreads) enters as arguments of the functions,
  grouped in records such as \<open>kenv\<close>, \<open>sockenv\<close>, \<open>conn_env\<close>, \<open>timer_env\<close>; what its documentation
  promises is a hypothesis by name (\<open>sink_ok\<close>, \<open>sockenv_ok\<close>, \<open>append_file_ok\<close>, ...), and the
  witnesses instantiate it.
\<close>

text \<open>
  \<^bold>\<open>The driver.\<close>
  \<^item> CircularBuffer: \<open>aesd-circular-buffer.c/.h\<close>; the ring as a record with the slots as a list,
    refined to a list of at most ten entries (locales \<open>entry_log\<close> and \<open>indexed_log\<close>, interpreted
    on the code's functions): insertion, lookup of an offset, total size.
  \<^item> CharDriver: the file operations of \<open>main.c\<close> with exact faults; DriverInv: the invariant
    \<open>dev_wf\<close> of the device and its abstraction to the stored commands and the unfinished one.
  \<^item> DriverRead, DriverWrite: what \<open>aesd_read\<close>, \<open>aesd_llseek\<close>, \<open>aesd_ioctl\<close> and \<open>aesd_write\<close>
    return and do to the abstract device, on every branch, errors and leaks included.
  \<^item> ModuleInit: \<open>aesd_init_module\<close>, \<open>aesd_setup_cdev\<close> and \<open>aesd_cleanup_module\<close>.
  \<^item> DriverSystem: any interleaving of calls by any number of open files keeps the invariant
    and stores the last ten commands of the successful writes in the order of the mutex; what
    the types of the device's data promise in every reachable state; the life of the module
    from loading to unloading.
  \<^item> DeviceReaders: the read loop of the server on the device while others use it: in which order
    and with which gaps a client gets the stored commands, what the overwriting of a command does
    to it, and when nothing is left out.

  \<^bold>\<open>The server.\<close>
  \<^item> CString: the string functions the server calls. PutLoops: \<open>putchars\<close>, \<open>sock_putchars\<close> and the
    loop of \<open>writer\<close>, with one contract (locale \<open>put_loop\<close>, interpreted three times) over a
    \<open>sink\<close>, the call that takes some of the bytes offered; \<open>main\<close> of \<open>writer\<close>. One call for
    each byte and one unit of fuel more are enough when every call makes progress.
  \<^item> GetLine: \<open>sock_getline\<close> over the chunks \<open>recv\<close> returns: exactly which packets it returns,
    which overflow its block, that it does not leak, and that it never returns at the end of
    a stream without a newline.
  \<^item> Connection, ConnectionRun: \<open>conn_handler\<close> in both builds, its packet parser, its resources,
    and the echo of the file (locale \<open>chunked_read\<close>). ConnectionThread: the same with the host
    name the thread asks for first. ServerSession: clients one after the other.
  \<^item> DeviceFile: the handler on the driver: a connection's packet becomes one \<open>aesd_write\<close>, and
    the client receives the last ten commands; a seek request becomes the \<open>ioctl\<close>.
    DeviceSession: clients one after the other, each of whom gets the last ten commands of all.
  \<^item> Acceptor: the accept loop of \<open>main\<close> and the linked list of connections, at the level of
    its pointers, refined to a sequence as long as the last connection is not removed.
  \<^item> EntryLife: the entry of a connection between the main thread, which allocates, joins and frees
    it, and the thread of the connection, every access a step of its own: no access after the
    free, the exit value that is read is the right one, and the last loop leaves nothing.
    AcceptorLife: an iteration of the loop of Acceptor on its pointers is a sequence of these
    steps.
  \<^item> TimeStamp, Timer: \<open>timer_handler\<close>, its cleanup labels, and the text of its stamps; 31 units
    of fuel are enough for a stamp of 30 characters.
  \<^item> IoMutex: the sections under \<open>io_mutex\<close> of any number of connection and timer threads as a
    step relation with one step for each \<open>write\<close>; records are not mixed up, and the steps of
    one thread are the function \<open>putchars\<close>. That locking and unlocking succeed is part of the
    relation; the handler's branch for a failing lock is in Connection.
  \<^item> ServerFile: those threads once more, now with the part in which a connection rewinds and
    sends the file without the mutex while others append: what each client has been sent is at
    every moment the beginning of the file, and the steps of one thread are \<open>send_file_loop\<close>.
  \<^item> World: EntryLife together with what the threads of the connections do, as one transition
    system; locale \<open>worker\<close> has what they need to keep for an exit value to mean something, and
    is interpreted on both builds: ServerWorld (regular file, with the timer: ServerFile) and
    DeviceWorld (the driver, every call a step, with other processes on the device). An exit
    value 0 the main thread reads means a client served.
  \<^item> ServerMain: the start of \<open>main\<close> with \<open>sock_create\<close> and \<open>daemonize\<close> on a table of descriptors,
    its end with the exit status, \<open>sock_gethost\<close>, \<open>usage\<close>, and \<open>main\<close> as a whole.
\<close>

text \<open>
  \<^bold>\<open>The exercises.\<close>
  \<^item> SystemCalls: \<open>do_system\<close>, \<open>do_exec\<close>, \<open>do_exec_redirect\<close> with the wait status bit by bit
    (locale \<open>status_verdict\<close>, interpreted on the two tests of the status).
  \<^item> Threading: \<open>threadfunc\<close> as a step relation over any number of threads that share a mutex;
    \<open>start_thread_obtaining_mutex\<close> on the heap.
  \<^item> Autotest: the functions of \<open>examples/autotest-validate\<close> and their test, with lemmas only.

  \<^bold>\<open>What modelling showed.\<close> Among others: a block is leaked when \<open>copy_from_user\<close> fails, and an
  empty write reads outside its block; \<open>sock_getline\<close> overflows its block for packets that do
  not fit two chunks and never returns after the end of the stream; the accept loop uses a
  freed entry once the last connection has been joined; errors of \<open>pthread_create\<close> are tested
  with the wrong sign; \<open>sock_gethost\<close> reads beyond its variable for IPv6; a daemon started
  without its standard streams loses its socket; a client of the device misses bytes when another
  overwrites the oldest command meanwhile; the log names the server's address for the client's;
  \<open>timer_delete\<close> is called on a timer that was never created; a struct of 24 bytes is stored in a
  block of 8, a failing \<open>nanosleep\<close> leaves the mutex locked, and commands killed by a signal
  count as successful.

  \<^bold>\<open>Not modelled.\<close> The texts sent to \<open>syslog\<close>, the \<open>printf\<close> and \<open>perror\<close> of SystemCalls and
  Threading, and \<open>PDEBUG\<close> are output no code reads back. The kernel's own data (\<open>struct file\<close> but
  for \<open>f_pos\<close>, device numbers) and the libraries are not under the repository. Shell scripts, Makefiles and init scripts are not C. The
  interleaving of threads is modelled where they share state: calls of the driver under its
  mutex (DriverSystem, DeviceReaders, DeviceWorld), writes under \<open>io_mutex\<close> and the reads without
  it (IoMutex, ServerFile) and the exercise (Threading). The flags \<open>is_active\<close> and \<open>sig_exit\<close>, which threads and
  signal handlers set without synchronisation, are read at the points the loops read them; the
  memory model of C, in which this is a data race, is not modelled.

  \<^bold>\<open>Coverage.\<close> Every C function of the repository has a definition. The compositions are: the
  handler on the driver (DeviceFile, DeviceSession), the read loop on the driver among other
  processes (DeviceReaders), the main loop on its linked list with the threads (AcceptorLife), and
  main thread and connections in both builds (ServerWorld, DeviceWorld).
\<close>

end
